(* ===== verification/Prelude.thy ===== *)
theory Prelude
  imports Main "HOL-Library.Word" "HOL-Library.Monad_Syntax"
begin

text \<open>
  What every theory of the development shares: the types of bytes and byte
  strings, the Go values they stand for, the collections of facts the
  component proofs use, and generic lemmas on lists, options and words.

  A Go \<open>[]byte\<close> is a list of 8-bit words. A Go \<open>string\<close> is an
  arbitrary sequence of bytes, which is what HOL's \<open>string\<close> (a list of
  8-bit characters) is as well, so \<open>len(s)\<close> is the length of the list
  and the conversions below are one to one. A Go \<open>uint64\<close> is a 64-bit
  word. A function that panics returns an option, with None for the panic; a
  function that returns an error returns a sum, with \<open>Inl\<close> for the error.
\<close>

unbundle bit_operations_syntax

type_synonym byte = "8 word"
type_synonym bytes = "byte list"
type_synonym uint64 = "64 word"

named_theorems wire_simps \<open>equations of the readers on what the writers produce\<close>
named_theorems len_simps \<open>lengths of encoded fields\<close>

section \<open>Strings as bytes\<close>

definition byte_of_char :: "char \<Rightarrow> byte" where
  "byte_of_char c = word_of_nat (of_char c)"

definition char_of_byte :: "byte \<Rightarrow> char" where
  "char_of_byte b = char_of (unat b)"

definition bytes_of_string :: "string \<Rightarrow> bytes" where
  "bytes_of_string s = map byte_of_char s"

definition string_of_bytes :: "bytes \<Rightarrow> string" where
  "string_of_bytes b = map char_of_byte b"

lemma char_of_byte_of_char [simp]: "char_of_byte (byte_of_char c) = c"
proof -
  have "(of_char c :: nat) < 2 ^ 8" using nat_of_char_less_256 [of c] by simp
  then have "unat (byte_of_char c) = of_char c"
    by (simp add: byte_of_char_def unat_of_nat)
  then show ?thesis by (simp add: char_of_byte_def)
qed

lemma byte_of_char_of_byte [simp]: "byte_of_char (char_of_byte b) = b"
proof -
  have "unat b < 256" using unsigned_less [of b] by simp
  then show ?thesis by (simp add: char_of_byte_def byte_of_char_def of_char_of)
qed

lemma length_bytes_of_string [simp]: "length (bytes_of_string s) = length s"
  by (simp add: bytes_of_string_def)

lemma length_string_of_bytes [simp]: "length (string_of_bytes b) = length b"
  by (simp add: string_of_bytes_def)

lemma string_of_bytes_of_string [simp]: "string_of_bytes (bytes_of_string s) = s"
  by (simp add: string_of_bytes_def bytes_of_string_def o_def)

lemma bytes_of_string_of_bytes [simp]: "bytes_of_string (string_of_bytes b) = b"
  by (simp add: string_of_bytes_def bytes_of_string_def o_def)

lemma bytes_of_string_inject [simp]: "bytes_of_string s = bytes_of_string t \<longleftrightarrow> s = t"
  by (metis string_of_bytes_of_string)

section \<open>Options and sums\<close>

lemma bind_Some_eqD: "Option.bind x f = Some y \<Longrightarrow> \<exists>z. x = Some z \<and> f z = Some y"
  by (cases x) simp_all

lemma bind_Some_eq: "Option.bind x f = Some y \<longleftrightarrow> (\<exists>z. x = Some z \<and> f z = Some y)"
  by (cases x) simp_all

definition isl_ok :: "('e + 'a) \<Rightarrow> bool" where
  "isl_ok r = (\<not> isl r)"

section \<open>Words\<close>

lemma small_bit:
  fixes i :: uint64
  assumes "i < 2 ^ k" "k \<le> n" "k < 64"
  shows "\<not> bit i n"
proof -
  from assms have "take_bit k i = i"
    by (simp add: less_mask_eq take_bit_eq_mask)
  then show ?thesis using \<open>k \<le> n\<close> by (metis bit_take_bit_iff leD)
qed

lemma nat_less_8_cases:
  fixes n :: nat
  assumes "n < 8"
  shows "n = 0 \<or> n = 1 \<or> n = 2 \<or> n = 3 \<or> n = 4 \<or> n = 5 \<or> n = 6 \<or> n = 7"
  using assms by linarith

lemma bit_byte_3f: "bit (0x3f :: byte) n \<longleftrightarrow> n < 6"
proof -
  have "(0x3f :: byte) = mask 6" by (simp add: mask_eq_exp_minus_1)
  then show ?thesis by (simp only: bit_mask_iff) auto
qed

lemma low_bits_of_tags:
  assumes "n < 6"
  shows "\<not> bit (0xC0 :: byte) n" "\<not> bit (0x80 :: byte) n" "\<not> bit (0x40 :: byte) n"
  using assms nat_less_8_cases [of n]
  by (auto simp: bit_numeral_rec bit_Suc bit_iff_odd_drop_bit)

text \<open>Putting a value back together from its high bytes and its next byte.\<close>

lemma push_or_byte:
  "push_bit 8 (drop_bit (k + 8) i) OR ucast (ucast (drop_bit k i) :: byte) = drop_bit k (i :: uint64)"
proof (rule bit_word_eqI)
  fix n assume "n < LENGTH(64)"
  have "k + 8 + (n - 8) = k + n" if "8 \<le> n" using that by simp
  with \<open>n < LENGTH(64)\<close>
  show "bit (push_bit 8 (drop_bit (k + 8) i) OR ucast (ucast (drop_bit k i) :: byte)) n = bit (drop_bit k i) n"
    by (cases "n < 8") (simp_all add: bit_or_iff bit_push_bit_iff bit_unsigned_iff bit_drop_bit_eq)
qed

text \<open>The leading byte of a varint: the value in its low six bits, the class in the others.\<close>

lemma lead_value:
  fixes i :: uint64 and t :: byte
  assumes "i < 2 ^ (k + 6)" "k < 58" "\<And>n. n < 6 \<Longrightarrow> \<not> bit t n"
  shows "ucast ((ucast (drop_bit k i) OR t) AND 0x3f :: byte) = drop_bit k i"
proof (rule bit_word_eqI)
  fix n assume "n < LENGTH(64)"
  have "bit ((ucast (drop_bit k i) OR t) AND 0x3f :: byte) n \<longleftrightarrow> n < 6 \<and> bit i (k + n)"
    using assms(3) by (auto simp only: bit_and_iff bit_or_iff bit_byte_3f bit_unsigned_iff bit_drop_bit_eq) auto
  also have "\<dots> \<longleftrightarrow> bit i (k + n)"
    using small_bit [OF assms(1), of "k + n"] assms(2) by (cases "n < 6") auto
  finally show "bit (ucast ((ucast (drop_bit k i) OR t) AND 0x3f :: byte) :: uint64) n = bit (drop_bit k i) n"
    using \<open>n < LENGTH(64)\<close> by (simp only: bit_unsigned_iff bit_drop_bit_eq) simp
qed

lemma lead_class:
  fixes x t :: byte
  assumes "\<And>n. 6 \<le> n \<Longrightarrow> \<not> bit x n"
  shows "drop_bit 6 ((x OR t) AND 0xC0) = drop_bit 6 (t AND 0xC0)"
  using assms by (intro bit_eqI) (simp only: bit_drop_bit_eq bit_and_iff bit_or_iff o_def, simp)

lemma high_bits_of_lead:
  fixes i :: uint64
  assumes "i < 2 ^ (k + 6)" "k < 58" "6 \<le> n"
  shows "\<not> bit (ucast (drop_bit k i) :: byte) n"
  using small_bit [OF assms(1), of "k + n"] assms by (simp add: bit_unsigned_iff bit_drop_bit_eq)

section \<open>Lists\<close>

lemma drop_append_exact [simp]: "n = length xs \<Longrightarrow> drop n (xs @ ys) = ys"
  by simp

lemma take_last: "0 < i \<Longrightarrow> i \<le> length xs \<Longrightarrow> take i xs = take (i - 1) xs @ [xs ! (i - 1)]"
  using take_Suc_conv_app_nth [of "i - 1" xs] by simp

lemma take_append_exact [simp]: "n = length xs \<Longrightarrow> take n (xs @ ys) = xs"
  by simp

end
