(* ===== verification/Wire.thy ===== *)
theory Wire
  imports Prelude
begin

text \<open>
  The primitives of the wire format (moqt/internal/message): QUIC varints,
  length-prefixed byte strings and string arrays, the length-prefixed message
  body, the zigzag map of signed deltas and the stream types.

  The length of a Go slice is below 2^63, so a comparison of it with a uint64 is one of
  natural numbers. A reader is the list of the bytes still to come before the end of the stream.
  A panic (a value above 2^62 - 1 has no varint) is None.
\<close>

section \<open>Errors\<close>

text \<open>io.EOF and io.ErrUnexpectedEOF, and the error values of the message and frame code.\<close>

datatype error =
    EOF
  | UnexpectedEOF
  | ErrMessageTooLarge
  | ErrMessageTooShort
  | ErrDuplicateSetupParameter
  | ErrTimestampOutOfRange

section \<open>Limits\<close>

definition MaxMessageSize :: uint64 where "MaxMessageSize = 64 * 1024"
definition MaxFrameSize :: uint64 where "MaxFrameSize = 50 * 1024 * 1024"

definition maxVarInt1 :: uint64 where "maxVarInt1 = 2 ^ (8 - 2) - 1"
definition maxVarInt2 :: uint64 where "maxVarInt2 = 2 ^ (16 - 2) - 1"
definition maxVarInt4 :: uint64 where "maxVarInt4 = 2 ^ (32 - 2) - 1"
definition maxVarInt8 :: uint64 where "maxVarInt8 = 2 ^ (64 - 2) - 1"

lemmas maxVarInt_defs = maxVarInt1_def maxVarInt2_def maxVarInt4_def maxVarInt8_def

section \<open>Writers\<close>

definition WriteVarint :: "bytes \<Rightarrow> uint64 \<Rightarrow> (bytes \<times> nat) option" where
  "WriteVarint b i =
     (if i \<le> maxVarInt1 then Some (b @ [ucast i], 1)
      else if i \<le> maxVarInt2 then
        Some (b @ [ucast (drop_bit 8 i) OR 0x40, ucast i], 2)
      else if i \<le> maxVarInt4 then
        Some (b @ [ucast (drop_bit 24 i) OR 0x80, ucast (drop_bit 16 i), ucast (drop_bit 8 i), ucast i], 4)
      else if i \<le> maxVarInt8 then
        Some (b @ [ucast (drop_bit 56 i) OR 0xC0, ucast (drop_bit 48 i), ucast (drop_bit 40 i),
                   ucast (drop_bit 32 i), ucast (drop_bit 24 i), ucast (drop_bit 16 i),
                   ucast (drop_bit 8 i), ucast i], 8)
      else None)"

definition WriteMessageLength :: "bytes \<Rightarrow> uint64 \<Rightarrow> (bytes \<times> nat) option" where
  "WriteMessageLength b sz = WriteVarint b sz"

definition WriteBytes :: "bytes \<Rightarrow> bytes \<Rightarrow> (bytes \<times> nat) option" where
  "WriteBytes dest b =
     do { (dest, n) \<leftarrow> WriteVarint dest (of_nat (length b));
          Some (dest @ b, n + length b) }"

definition WriteString :: "bytes \<Rightarrow> string \<Rightarrow> (bytes \<times> nat) option" where
  "WriteString dest s =
     do { (dest, n) \<leftarrow> WriteVarint dest (of_nat (length s));
          Some (dest @ bytes_of_string s, n + length s) }"

fun WriteStringArray_loop :: "bytes \<Rightarrow> nat \<Rightarrow> string list \<Rightarrow> (bytes \<times> nat) option" where
  "WriteStringArray_loop dest n [] = Some (dest, n)"
| "WriteStringArray_loop dest n (str # arr) =
     do { (dest, m) \<leftarrow> WriteString dest str;
          WriteStringArray_loop dest (n + m) arr }"

definition WriteStringArray :: "bytes \<Rightarrow> string list \<Rightarrow> (bytes \<times> nat) option" where
  "WriteStringArray dest arr =
     do { (dest, n) \<leftarrow> WriteVarint dest (of_nat (length arr));
          WriteStringArray_loop dest n arr }"

section \<open>Lengths\<close>

definition VarintLen :: "uint64 \<Rightarrow> nat option" where
  "VarintLen i =
     (if i \<le> maxVarInt1 then Some 1
      else if i \<le> maxVarInt2 then Some 2
      else if i \<le> maxVarInt4 then Some 4
      else if i \<le> maxVarInt8 then Some 8
      else None)"

definition StringLen :: "string \<Rightarrow> nat option" where
  "StringLen s = do { n \<leftarrow> VarintLen (of_nat (length s)); Some (n + length s) }"

definition BytesLen :: "bytes \<Rightarrow> nat option" where
  "BytesLen b = do { n \<leftarrow> VarintLen (of_nat (length b)); Some (n + length b) }"

fun StringArrayLen_loop :: "nat \<Rightarrow> string list \<Rightarrow> nat option" where
  "StringArrayLen_loop tot [] = Some tot"
| "StringArrayLen_loop tot (s # arr) =
     do { n \<leftarrow> StringLen s; StringArrayLen_loop (tot + n) arr }"

definition StringArrayLen :: "string list \<Rightarrow> nat option" where
  "StringArrayLen arr = do { tot \<leftarrow> VarintLen (of_nat (length arr)); StringArrayLen_loop tot arr }"

section \<open>Readers of a buffer\<close>

text \<open>The class of a varint: the two high bits of its first byte.\<close>

definition varint_width :: "byte \<Rightarrow> nat" where
  "varint_width b0 = 2 ^ unat (drop_bit 6 (b0 AND 0xC0))"

definition ReadVarint :: "bytes \<Rightarrow> error + uint64 \<times> nat" where
  "ReadVarint b =
     (if length b < 1 then Inl EOF
      else let l = varint_width (b ! 0) in
        if length b < l then Inl EOF
        else
          let i = (if l = 1 then ucast (b ! 0 AND 0x3f)
                   else if l = 2 then push_bit 8 (ucast (b ! 0 AND 0x3f)) OR ucast (b ! 1)
                   else if l = 4 then
                     push_bit 24 (ucast (b ! 0 AND 0x3f)) OR push_bit 16 (ucast (b ! 1)) OR
                     push_bit 8 (ucast (b ! 2)) OR ucast (b ! 3)
                   else if l = 8 then
                     push_bit 56 (ucast (b ! 0 AND 0x3f)) OR push_bit 48 (ucast (b ! 1)) OR
                     push_bit 40 (ucast (b ! 2)) OR push_bit 32 (ucast (b ! 3)) OR
                     push_bit 24 (ucast (b ! 4)) OR push_bit 16 (ucast (b ! 5)) OR
                     push_bit 8 (ucast (b ! 6)) OR ucast (b ! 7)
                   else 0)
          in Inr (i, l))"

text \<open>
  A short read returns the bytes at hand with the error in the code; every caller drops
  them, so here the error is the whole result.
\<close>

definition ReadBytes :: "bytes \<Rightarrow> error + bytes \<times> nat" where
  "ReadBytes b =
     (case ReadVarint b of
        Inl e \<Rightarrow> Inl e
      | Inr (num, n) \<Rightarrow>
          let b = drop n b in
          if num > MaxMessageSize then Inl ErrMessageTooLarge
          else if length b < unat num then Inl EOF
          else Inr (take (unat num) b, n + unat num))"

definition ReadString :: "bytes \<Rightarrow> error + string \<times> nat" where
  "ReadString b =
     (case ReadBytes b of
        Inl e \<Rightarrow> Inl e
      | Inr (str, n) \<Rightarrow> Inr (string_of_bytes str, n))"

fun ReadStringArray_loop :: "nat \<Rightarrow> string list \<Rightarrow> nat \<Rightarrow> bytes \<Rightarrow> error + string list \<times> nat" where
  "ReadStringArray_loop 0 arr tot b = Inr (arr, tot)"
| "ReadStringArray_loop (Suc count) arr tot b =
     (case ReadString b of
        Inl e \<Rightarrow> Inl e
      | Inr (str, n) \<Rightarrow> ReadStringArray_loop count (arr @ [str]) (tot + n) (drop n b))"

definition ReadStringArray :: "bytes \<Rightarrow> error + string list \<times> nat" where
  "ReadStringArray b =
     (case ReadVarint b of
        Inl e \<Rightarrow> Inl e
      | Inr (count, tot) \<Rightarrow>
          if count > MaxMessageSize then Inl ErrMessageTooLarge
          else ReadStringArray_loop (unat count) [] tot (drop tot b))"

section \<open>Readers of a stream\<close>

fun ReadMessageLength_loop :: "nat \<Rightarrow> uint64 \<Rightarrow> bytes \<Rightarrow> (error + uint64) \<times> bytes" where
  "ReadMessageLength_loop 0 val r = (Inr val, r)"
| "ReadMessageLength_loop (Suc k) val [] = (Inl UnexpectedEOF, [])"
| "ReadMessageLength_loop (Suc k) val (b # r) =
     ReadMessageLength_loop k (push_bit 8 val OR ucast b) r"

text \<open>The path for an io.ByteReader: byte by byte, nothing allocated.\<close>

fun ReadMessageLength :: "bytes \<Rightarrow> (error + uint64) \<times> bytes" where
  "ReadMessageLength [] = (Inl EOF, [])"
| "ReadMessageLength (first # r) =
     ReadMessageLength_loop (varint_width first - 1) (ucast (first AND 0x3f)) r"

text \<open>io.ReadFull: EOF when nothing was read, ErrUnexpectedEOF when too little was.\<close>

definition ReadFull :: "nat \<Rightarrow> bytes \<Rightarrow> (error + bytes) \<times> bytes" where
  "ReadFull n r =
     (if n = 0 then (Inr [], r)
      else if r = [] then (Inl EOF, [])
      else if length r < n then (Inl UnexpectedEOF, [])
      else (Inr (take n r), drop n r))"

text \<open>The path for any other reader.\<close>

definition ReadMessageLength_fallback :: "bytes \<Rightarrow> (error + uint64) \<times> bytes" where
  "ReadMessageLength_fallback r =
     (case ReadFull 1 r of
        (Inl e, r) \<Rightarrow> (Inl e, r)
      | (Inr buf, r) \<Rightarrow>
          let l = varint_width (buf ! 0) in
          (case (if l > 1 then ReadFull (l - 1) r else (Inr [], r)) of
             (Inl e, r) \<Rightarrow> (Inl (if e = EOF then UnexpectedEOF else e), r)
           | (Inr more, r) \<Rightarrow>
               (case ReadVarint (buf @ more) of
                  Inl e \<Rightarrow> (Inl e, r)
                | Inr (val, _) \<Rightarrow> (Inr val, r))))"

definition readBody :: "bytes \<Rightarrow> (error + bytes) \<times> bytes" where
  "readBody src =
     (case ReadMessageLength src of
        (Inl e, src) \<Rightarrow> (Inl e, src)
      | (Inr num, src) \<Rightarrow>
          if num > MaxMessageSize then (Inl ErrMessageTooLarge, src)
          else ReadFull (unat num) src)"

section \<open>What the writers append\<close>

text \<open>The bytes of one varint. The writers append them to their destination.\<close>

definition varint :: "uint64 \<Rightarrow> bytes option" where
  "varint i = map_option fst (WriteVarint [] i)"

lemma WriteVarint_varint: "WriteVarint b i = map_option (\<lambda>e. (b @ e, length e)) (varint i)"
  by (simp add: WriteVarint_def varint_def)

lemma VarintLen_varint: "VarintLen i = map_option length (varint i)"
  by (simp add: VarintLen_def WriteVarint_def varint_def)

lemma maxVarInt_mono: "maxVarInt1 \<le> maxVarInt2" "maxVarInt2 \<le> maxVarInt4" "maxVarInt4 \<le> maxVarInt8"
  by (simp_all add: maxVarInt_defs)

lemma varint_None_iff: "varint i = None \<longleftrightarrow> i > maxVarInt8"
  using maxVarInt_mono by (auto simp: varint_def WriteVarint_def not_le)

lemma varint_fits: "i \<le> maxVarInt8 \<Longrightarrow> \<exists>e. varint i = Some e"
  using varint_None_iff [of i] by (cases "varint i") auto

lemma varint_length: "varint i = Some e \<Longrightarrow> length e \<in> {1, 2, 4, 8}"
  by (auto simp: varint_def WriteVarint_def split: if_splits)

lemma varint_not_Nil [simp]: "varint i \<noteq> Some []"
  by (auto simp: varint_def WriteVarint_def split: if_splits)

lemma varint_width_cases: "varint_width b \<in> {1, 2, 4, 8}"
proof -
  have "unat (drop_bit 6 x) < 4" for x :: byte
    using unsigned_less [of x, where ?'a = nat] by (simp add: unat_drop_bit_eq) (simp add: drop_bit_eq_div)
  then have "unat (drop_bit 6 (b AND 0xC0)) < 4" .
  then have "unat (drop_bit 6 (b AND 0xC0)) \<in> {0, 1, 2, 3}" by (auto simp del: drop_bit_and)
  then show ?thesis by (auto simp: varint_width_def simp del: drop_bit_and)
qed

text \<open>The stream reader's byte-by-byte loop computes what the buffer reader does.\<close>

abbreviation horner :: "uint64 \<Rightarrow> bytes \<Rightarrow> uint64" where
  "horner \<equiv> foldl (\<lambda>v b. push_bit 8 v OR ucast b)"

lemma ReadVarint_1: "varint_width b0 = 1 \<Longrightarrow> ReadVarint (b0 # r) = Inr (horner (ucast (b0 AND 0x3f)) [], 1)"
  by (simp add: ReadVarint_def)

lemma ReadVarint_2:
  "varint_width b0 = 2 \<Longrightarrow> ReadVarint (b0 # b1 # r) = Inr (horner (ucast (b0 AND 0x3f)) [b1], 2)"
  by (simp add: ReadVarint_def)

lemma ReadVarint_4:
  "varint_width b0 = 4 \<Longrightarrow>
   ReadVarint (b0 # b1 # b2 # b3 # r) = Inr (horner (ucast (b0 AND 0x3f)) [b1, b2, b3], 4)"
  by (simp add: ReadVarint_def push_bit_or or.assoc del: unsigned_and_eq)

lemma ReadVarint_8:
  "varint_width b0 = 8 \<Longrightarrow>
   ReadVarint (b0 # b1 # b2 # b3 # b4 # b5 # b6 # b7 # r) =
     Inr (horner (ucast (b0 AND 0x3f)) [b1, b2, b3, b4, b5, b6, b7], 8)"
  by (simp add: ReadVarint_def push_bit_or or.assoc del: unsigned_and_eq)

lemma ReadVarint_horner:
  assumes "length e = varint_width b0 - 1"
  shows "ReadVarint (b0 # e @ r) = Inr (horner (ucast (b0 AND 0x3f)) e, varint_width b0)"
proof -
  consider "varint_width b0 = 1" | "varint_width b0 = 2" | "varint_width b0 = 4" | "varint_width b0 = 8"
    using varint_width_cases [of b0] by auto
  then show ?thesis
  proof cases
    case 1 with assms show ?thesis using ReadVarint_1 [OF 1] by simp
  next
    case 2 with assms obtain b1 where "e = [b1]" by (auto simp: length_Suc_conv)
    then show ?thesis using ReadVarint_2 [OF 2] 2 by simp
  next
    case 3
    with assms have "length e = Suc (Suc (Suc 0))" by simp
    then obtain b1 b2 b3 where "e = [b1, b2, b3]" by (auto simp: length_Suc_conv)
    then show ?thesis using ReadVarint_4 [OF 3] 3 by simp
  next
    case 4
    with assms have "length e = Suc (Suc (Suc (Suc (Suc (Suc (Suc 0))))))" by simp
    then obtain b1 b2 b3 b4 b5 b6 b7 where "e = [b1, b2, b3, b4, b5, b6, b7]"
      by (auto simp: length_Suc_conv)
    then show ?thesis using ReadVarint_8 [OF 4] 4 by simp
  qed
qed

lemma ReadVarint_short:
  "r = [] \<or> length r < varint_width (r ! 0) \<Longrightarrow> ReadVarint r = Inl EOF"
  by (cases r) (auto simp: ReadVarint_def)

lemma ReadMessageLength_loop_short:
  "length r < k \<Longrightarrow> ReadMessageLength_loop k val r = (Inl UnexpectedEOF, [])"
  by (induction k val r rule: ReadMessageLength_loop.induct) auto

lemma ReadMessageLength_loop_append:
  "ReadMessageLength_loop (length e) val (e @ r) = (Inr (horner val e), r)"
  by (induction e arbitrary: val) auto

text \<open>Every buffer starts with a whole varint or is too short for one.\<close>

lemma varint_split:
  obtains (short) "r = [] \<or> length r < varint_width (r ! 0)"
  | (whole) b0 e t where "r = b0 # e @ t" "length e = varint_width b0 - 1"
proof (cases r)
  case (Cons b0 t)
  show ?thesis
  proof (cases "length r < varint_width b0")
    case False
    then have "length (take (varint_width b0 - 1) t) = varint_width b0 - 1" using Cons by simp
    then show ?thesis using Cons whole [of b0 "take (varint_width b0 - 1) t" "drop (varint_width b0 - 1) t"] by simp
  qed (use Cons short in simp)
qed (use short in simp)

lemma varint_width_Suc: "varint_width b = Suc (varint_width b - 1)"
  using varint_width_cases [of b] by auto

lemma ReadMessageLength_ReadVarint:
  "ReadMessageLength r =
     (case ReadVarint r of
        Inr (v, n) \<Rightarrow> (Inr v, drop n r)
      | Inl _ \<Rightarrow> (Inl (if r = [] then EOF else UnexpectedEOF), []))"
proof (cases r rule: varint_split)
  case short
  then show ?thesis
    using varint_width_Suc [of "hd r"]
    by (cases r) (auto simp: ReadVarint_short ReadMessageLength_loop_short)
next
  case (whole b0 e t)
  have "drop (varint_width b0) r = t"
    using whole by (subst varint_width_Suc) simp
  then show ?thesis
    using whole ReadMessageLength_loop_append [of e "ucast (b0 AND 0x3f)" t] ReadVarint_horner [OF whole(2)]
    by simp
qed

lemma ReadFull_exact: "ReadFull (length e) (e @ t) = (Inr e, t)"
  by (auto simp: ReadFull_def)

lemma ReadMessageLength_fallback_eq: "ReadMessageLength_fallback r = ReadMessageLength r"
proof (cases r rule: varint_split)
  case short
  show ?thesis
  proof (cases r)
    case (Cons b0 t)
    with short have "length t < varint_width b0 - 1" by simp
    with Cons show ?thesis
      by (auto simp: ReadMessageLength_fallback_def ReadFull_def ReadMessageLength_loop_short Let_def)
  qed (simp add: ReadMessageLength_fallback_def ReadFull_def)
next
  case (whole b0 e t)
  have "ReadFull 1 r = (Inr [b0], e @ t)" using whole by (simp add: ReadFull_def)
  moreover have "ReadFull (varint_width b0 - 1) (e @ t) = (Inr e, t)"
    using ReadFull_exact [of e t] whole by simp
  moreover have "e = []" if "\<not> varint_width b0 > 1" using that whole by simp
  ultimately show ?thesis
    using whole ReadVarint_horner [OF whole(2), of "[]"] ReadMessageLength_loop_append [of e _ t]
    by (auto simp: ReadMessageLength_fallback_def Let_def)
qed

section \<open>Reading back what was written\<close>

lemma lead_width:
  fixes i :: uint64 and t :: byte
  assumes "i < 2 ^ (k + 6)" "k < 58"
  shows "varint_width (ucast (drop_bit k i) OR t) = varint_width t"
  by (simp only: varint_width_def lead_class [of "ucast (drop_bit k i)" t, OF high_bits_of_lead [OF assms]])

lemma tag_widths: "varint_width 0 = 1" "varint_width 0x40 = 2" "varint_width 0x80 = 4" "varint_width 0xC0 = 8"
  by (simp_all add: varint_width_def)

lemma next_byte:
  "push_bit 8 (drop_bit 56 i) OR ucast (ucast (drop_bit 48 i) :: byte) = drop_bit 48 (i :: uint64)"
  "push_bit 8 (drop_bit 48 i) OR ucast (ucast (drop_bit 40 i) :: byte) = drop_bit 40 i"
  "push_bit 8 (drop_bit 40 i) OR ucast (ucast (drop_bit 32 i) :: byte) = drop_bit 32 i"
  "push_bit 8 (drop_bit 32 i) OR ucast (ucast (drop_bit 24 i) :: byte) = drop_bit 24 i"
  "push_bit 8 (drop_bit 24 i) OR ucast (ucast (drop_bit 16 i) :: byte) = drop_bit 16 i"
  "push_bit 8 (drop_bit 16 i) OR ucast (ucast (drop_bit 8 i) :: byte) = drop_bit 8 i"
  "push_bit 8 (drop_bit 8 i) OR ucast (ucast i :: byte) = i"
  using push_or_byte [of 48 i] push_or_byte [of 40 i] push_or_byte [of 32 i] push_or_byte [of 24 i]
    push_or_byte [of 16 i] push_or_byte [of 8 i] push_or_byte [of 0 i]
  by simp_all

lemma varint_lead:
  assumes "varint i = Some e"
  obtains b0 es where "e = b0 # es" "length es = varint_width b0 - 1"
    "horner (ucast (b0 AND 0x3f)) es = i"
proof -
  consider (a) "i \<le> maxVarInt1" | (b) "\<not> i \<le> maxVarInt1" "i \<le> maxVarInt2"
    | (c) "\<not> i \<le> maxVarInt2" "i \<le> maxVarInt4" | (d) "\<not> i \<le> maxVarInt4" "i \<le> maxVarInt8"
    using assms varint_None_iff [of i] by (metis not_le option.distinct(1))
  then show ?thesis
  proof cases
    case a
    then have i: "i < 2 ^ (0 + 6)" by (simp add: maxVarInt1_def word_le_nat_alt word_less_nat_alt)
    from a assms have "e = [ucast i]" by (simp add: varint_def WriteVarint_def)
    then show ?thesis
      using that [of "ucast i" "[]"] lead_width [OF i, of 0] lead_value [OF i, of 0] by (simp add: tag_widths)
  next
    case b
    then have i: "i < 2 ^ (8 + 6)" by (simp add: maxVarInt2_def word_le_nat_alt word_less_nat_alt)
    from b assms have "e = [ucast (drop_bit 8 i) OR 0x40, ucast i]" by (simp add: varint_def WriteVarint_def)
    then show ?thesis
      using that [of "ucast (drop_bit 8 i) OR 0x40" "[ucast i]"] lead_width [OF i, of "0x40"]
        lead_value [OF i _ low_bits_of_tags(3)] by (simp add: tag_widths next_byte del: unsigned_and_eq unsigned_or_eq)
  next
    case c
    then have i: "i < 2 ^ (24 + 6)" by (simp add: maxVarInt4_def word_le_nat_alt word_less_nat_alt)
    from c(1) have "\<not> i \<le> maxVarInt1" using maxVarInt_mono by (meson order_trans)
    with c assms have "e = [ucast (drop_bit 24 i) OR 0x80, ucast (drop_bit 16 i), ucast (drop_bit 8 i), ucast i]"
      by (simp add: varint_def WriteVarint_def)
    then show ?thesis
      using that [of "ucast (drop_bit 24 i) OR 0x80" "tl e"] lead_width [OF i, of "0x80"]
        lead_value [OF i _ low_bits_of_tags(2)] by (simp add: tag_widths next_byte del: unsigned_and_eq unsigned_or_eq)
  next
    case d
    then have i: "i < 2 ^ (56 + 6)" by (simp add: maxVarInt8_def word_le_nat_alt word_less_nat_alt)
    from d(1) have "\<not> i \<le> maxVarInt1" "\<not> i \<le> maxVarInt2"
      using maxVarInt_mono by (meson order_trans)+
    with d assms have "e = [ucast (drop_bit 56 i) OR 0xC0, ucast (drop_bit 48 i), ucast (drop_bit 40 i),
               ucast (drop_bit 32 i), ucast (drop_bit 24 i), ucast (drop_bit 16 i), ucast (drop_bit 8 i), ucast i]"
      by (simp add: varint_def WriteVarint_def)
    then show ?thesis
      using that [of "ucast (drop_bit 56 i) OR 0xC0" "tl e"] lead_width [OF i, of "0xC0"]
        lead_value [OF i _ low_bits_of_tags(1)] by (simp add: tag_widths next_byte del: unsigned_and_eq unsigned_or_eq)
  qed
qed

lemma ReadVarint_varint [wire_simps]:
  assumes "varint i = Some e" shows "ReadVarint (e @ r) = Inr (i, length e)"
proof -
  from assms obtain b0 es where "e = b0 # es" "length es = varint_width b0 - 1"
    "horner (ucast (b0 AND 0x3f)) es = i" by (rule varint_lead)
  then show ?thesis using ReadVarint_horner [of es b0 r] varint_width_Suc [of b0] by simp
qed

lemma ReadMessageLength_varint [wire_simps]:
  assumes "varint i = Some e" shows "ReadMessageLength (e @ r) = (Inr i, r)"
  using ReadVarint_varint [OF assms, of r] by (simp add: ReadMessageLength_ReadVarint)

lemma bit_horner:
  "(\<And>n. k \<le> n \<Longrightarrow> \<not> bit v n) \<Longrightarrow> k + 8 * length e \<le> n \<Longrightarrow> \<not> bit (horner v e) n"
proof (induction e arbitrary: v k)
  case (Cons b e)
  have "\<not> bit (push_bit 8 v OR ucast b) m" if "k + 8 \<le> m" for m
    using that Cons.prems(1) [of "m - 8"]
    by (auto simp: bit_or_iff bit_push_bit_iff bit_unsigned_iff dest!: bit_imp_le_length)
  then show ?case using Cons.IH [of "k + 8" "push_bit 8 v OR ucast b"] Cons.prems(2) by simp
qed simp

lemma le_maxVarInt8I:
  fixes v :: uint64
  assumes "\<And>n. 62 \<le> n \<Longrightarrow> \<not> bit v n"
  shows "v \<le> maxVarInt8"
proof -
  have "take_bit 62 v = v"
    using assms by (intro bit_eqI) (metis bit_take_bit_iff not_le)
  then have "take_bit 62 (unat v) = unat v" by (metis unsigned_take_bit_eq)
  then have "unat v < 2 ^ 62" by (metis take_bit_nat_less_exp)
  then show ?thesis by (simp add: maxVarInt8_def word_le_nat_alt)
qed

lemma horner_lead_le:
  assumes "length e = varint_width b0 - 1"
  shows "horner (ucast (b0 AND 0x3f)) e \<le> maxVarInt8"
proof (rule le_maxVarInt8I)
  fix n :: nat assume "62 \<le> n"
  have "6 + 8 * length e \<le> 62" using assms varint_width_cases [of b0] by auto
  with \<open>62 \<le> n\<close> have "6 + 8 * length e \<le> n" by simp
  moreover have "\<not> bit (ucast (b0 AND 0x3f) :: uint64) m" if "6 \<le> m" for m
    using that by (simp only: bit_unsigned_iff bit_and_iff bit_byte_3f) simp
  ultimately show "\<not> bit (horner (ucast (b0 AND 0x3f)) e) n" by (rule bit_horner [rotated])
qed

text \<open>A varint that was read lies inside the buffer and is below 2^62.\<close>

lemma ReadVarint_Inr:
  assumes "ReadVarint b = Inr (v, n)"
  shows "n \<in> {1, 2, 4, 8}" "n \<le> length b" "v \<le> maxVarInt8" "ReadVarint (take n b @ r) = Inr (v, n)"
proof -
  from assms obtain b0 e t where whole: "b = b0 # e @ t" "length e = varint_width b0 - 1"
    by (cases b rule: varint_split) (auto simp: ReadVarint_short)
  have n: "n = varint_width b0" and v: "v = horner (ucast (b0 AND 0x3f)) e"
    using assms whole by (simp_all add: ReadVarint_horner)
  have "take n b = b0 # e" using whole n by (subst n, subst varint_width_Suc) simp
  then show "n \<in> {1, 2, 4, 8}" "n \<le> length b" "v \<le> maxVarInt8" "ReadVarint (take n b @ r) = Inr (v, n)"
    using whole n v varint_width_cases [of b0] varint_width_Suc [of b0] horner_lead_le [OF whole(2)]
      ReadVarint_horner [OF whole(2), of r]
    by auto
qed

lemma ReadVarint_Inl: "ReadVarint b = Inl e \<Longrightarrow> e = EOF"
  by (cases b rule: varint_split) (simp_all add: ReadVarint_short ReadVarint_horner)

section \<open>Byte strings\<close>

definition bytes_enc :: "bytes \<Rightarrow> bytes option" where
  "bytes_enc b = map_option (\<lambda>e. e @ b) (varint (of_nat (length b)))"

definition string_enc :: "string \<Rightarrow> bytes option" where
  "string_enc s = bytes_enc (bytes_of_string s)"

fun strings_enc :: "string list \<Rightarrow> bytes option" where
  "strings_enc [] = Some []"
| "strings_enc (s # arr) = do { e \<leftarrow> string_enc s; f \<leftarrow> strings_enc arr; Some (e @ f) }"

definition array_enc :: "string list \<Rightarrow> bytes option" where
  "array_enc arr = do { e \<leftarrow> varint (of_nat (length arr)); f \<leftarrow> strings_enc arr; Some (e @ f) }"

lemma WriteBytes_enc: "WriteBytes dest b = map_option (\<lambda>e. (dest @ e, length e)) (bytes_enc b)"
  by (cases "varint (of_nat (length b))") (simp_all add: WriteBytes_def bytes_enc_def WriteVarint_varint)

lemma WriteString_enc: "WriteString dest s = map_option (\<lambda>e. (dest @ e, length e)) (string_enc s)"
  by (cases "varint (of_nat (length s))")
    (simp_all add: WriteString_def string_enc_def bytes_enc_def WriteVarint_varint)

lemma WriteStringArray_loop_enc:
  "WriteStringArray_loop dest n arr = map_option (\<lambda>e. (dest @ e, n + length e)) (strings_enc arr)"
proof (induction arr arbitrary: dest n)
  case (Cons s arr)
  then show ?case
    by (cases "string_enc s"; cases "strings_enc arr") (simp_all add: WriteString_enc)
qed simp

lemma WriteStringArray_enc: "WriteStringArray dest arr = map_option (\<lambda>e. (dest @ e, length e)) (array_enc arr)"
  by (cases "varint (of_nat (length arr))"; cases "strings_enc arr")
    (simp_all add: WriteStringArray_def array_enc_def WriteVarint_varint WriteStringArray_loop_enc)

lemma BytesLen_enc: "BytesLen b = map_option length (bytes_enc b)"
  by (cases "varint (of_nat (length b))") (simp_all add: BytesLen_def bytes_enc_def VarintLen_varint)

lemma StringLen_enc: "StringLen s = map_option length (string_enc s)"
  by (cases "varint (of_nat (length s))")
    (simp_all add: StringLen_def string_enc_def bytes_enc_def VarintLen_varint)

lemma StringArrayLen_loop_enc:
  "StringArrayLen_loop n arr = map_option (\<lambda>e. n + length e) (strings_enc arr)"
proof (induction arr arbitrary: n)
  case (Cons s arr)
  then show ?case by (cases "string_enc s"; cases "strings_enc arr") (simp_all add: StringLen_enc)
qed simp

lemma StringArrayLen_enc: "StringArrayLen arr = map_option length (array_enc arr)"
  by (cases "varint (of_nat (length arr))"; cases "strings_enc arr")
    (simp_all add: StringArrayLen_def array_enc_def VarintLen_varint StringArrayLen_loop_enc)

lemmas write_simps = WriteVarint_varint WriteMessageLength_def WriteBytes_enc WriteString_enc WriteStringArray_enc
lemmas length_simps = VarintLen_varint BytesLen_enc StringLen_enc StringArrayLen_enc

lemma unat_of_nat_small: "n \<le> 2 ^ 63 \<Longrightarrow> unat (of_nat n :: uint64) = n"
  by (simp add: unat_of_nat)

lemma small_message: "length b \<le> unat MaxMessageSize \<longleftrightarrow> length b \<le> 65536"
  by (simp add: MaxMessageSize_def)

lemma of_nat_small_message: "n \<le> 65536 \<Longrightarrow> of_nat n \<le> MaxMessageSize"
  by (simp add: MaxMessageSize_def word_le_nat_alt unat_of_nat_small)

lemma ReadBytes_enc [wire_simps]:
  assumes "bytes_enc b = Some e" "length b \<le> 65536"
  shows "ReadBytes (e @ r) = Inr (b, length e)"
proof -
  from assms obtain v where v: "varint (of_nat (length b)) = Some v" "e = v @ b" by (auto simp: bytes_enc_def)
  then show ?thesis
    using assms(2) of_nat_small_message [of "length b"] ReadVarint_varint [OF v(1), of "b @ r"]
    by (simp add: ReadBytes_def unat_of_nat_small not_less Let_def)
qed

lemma ReadString_enc [wire_simps]:
  "string_enc s = Some e \<Longrightarrow> length s \<le> 65536 \<Longrightarrow> ReadString (e @ r) = Inr (s, length e)"
  by (simp add: ReadString_def string_enc_def ReadBytes_enc)

lemma ReadStringArray_loop_enc:
  "strings_enc arr = Some e \<Longrightarrow> \<forall>s\<in>set arr. length s \<le> 65536 \<Longrightarrow>
   ReadStringArray_loop (length arr) acc n (e @ r) = Inr (acc @ arr, n + length e)"
proof (induction arr arbitrary: acc n e)
  case (Cons s arr)
  then obtain e1 e2 where "string_enc s = Some e1" "strings_enc arr = Some e2" "e = e1 @ e2"
    by (auto simp: bind_Some_eq)
  with Cons show ?case by (simp add: ReadString_enc)
qed simp

lemma ReadStringArray_enc [wire_simps]:
  assumes "array_enc arr = Some e" "length arr \<le> 65536" "\<forall>s\<in>set arr. length s \<le> 65536"
  shows "ReadStringArray (e @ r) = Inr (arr, length e)"
proof -
  from assms(1) obtain v f where vf: "varint (of_nat (length arr)) = Some v" "strings_enc arr = Some f" "e = v @ f"
    by (auto simp: array_enc_def bind_Some_eq)
  then show ?thesis
    using assms(2,3) of_nat_small_message [of "length arr"] ReadVarint_varint [OF vf(1), of "f @ r"]
      ReadStringArray_loop_enc [OF vf(2), of "[]" "length v" r]
    by (simp add: ReadStringArray_def unat_of_nat_small not_less)
qed

section \<open>The length-prefixed body\<close>

lemma readBody_enc:
  assumes "bytes_enc b = Some e" "length b \<le> 65536"
  shows "readBody (e @ r) = (Inr b, r)"
proof -
  from assms obtain v where v: "varint (of_nat (length b)) = Some v" "e = v @ b" by (auto simp: bytes_enc_def)
  then show ?thesis
    using assms(2) of_nat_small_message [of "length b"] ReadMessageLength_varint [OF v(1), of "b @ r"]
    by (simp add: readBody_def unat_of_nat_small not_less ReadFull_exact)
qed

text \<open>The decoders refuse a longer body before reading it, though the encoders write it.\<close>

lemma readBody_too_large:
  assumes "bytes_enc b = Some e" "65536 < length b" "length b < 2 ^ 62"
  shows "readBody (e @ r) = (Inl ErrMessageTooLarge, b @ r)"
proof -
  from assms obtain v where v: "varint (of_nat (length b)) = Some v" "e = v @ b" by (auto simp: bytes_enc_def)
  have "of_nat (length b) > MaxMessageSize"
    using assms(2,3) by (simp add: MaxMessageSize_def word_less_nat_alt unat_of_nat_small)
  with v show ?thesis
    using ReadMessageLength_varint [OF v(1), of "b @ r"] by (simp add: readBody_def)
qed

text \<open>
  A stream cut inside a message: io.EOF when nothing of the length or nothing of the body
  arrived, io.ErrUnexpectedEOF otherwise.
\<close>

lemma ReadVarint_take_varint:
  assumes "varint i = Some v" "n < length v" shows "ReadVarint (take n v) = Inl EOF"
proof -
  from assms(1) obtain b0 es where "v = b0 # es" "length es = varint_width b0 - 1" by (rule varint_lead)
  with assms(2) varint_width_Suc [of b0] show ?thesis
    by (intro ReadVarint_short) (cases n; auto)
qed

lemma readBody_truncated:
  assumes "bytes_enc b = Some e" "length b \<le> 65536" "n < length e"
  shows "readBody (take n e) =
    (Inl (if n = 0 \<or> n = length e - length b then EOF else UnexpectedEOF), [])"
proof -
  from assms obtain v where v: "varint (of_nat (length b)) = Some v" "e = v @ b" by (auto simp: bytes_enc_def)
  show ?thesis
  proof (cases "n < length v")
    case True
    then show ?thesis
      using v ReadVarint_take_varint [OF v(1) True]
      by (auto simp: readBody_def ReadMessageLength_ReadVarint)
  next
    case False
    let ?m = "n - length v"
    have "take n e = v @ take ?m b" "v \<noteq> []" "?m < length b" using v False assms(3) by auto
    with v False assms(2) of_nat_small_message [of "length b"] ReadMessageLength_varint [OF v(1), of "take ?m b"]
    show ?thesis
      by (auto simp: readBody_def unat_of_nat_small not_less ReadFull_def)
  qed
qed

lemma ReadFull_Inr: "ReadFull n s = (Inr b, t) \<Longrightarrow> s = b @ t \<and> length b = n"
  by (auto simp: ReadFull_def split: if_splits)

lemma readBody_Inr:
  assumes "readBody r = (Inr b, t)"
  obtains p where "r = p @ b @ t" "length b \<le> 65536" "length p \<in> {1, 2, 4, 8}"
proof -
  from assms obtain num src where m: "ReadMessageLength r = (Inr num, src)" "num \<le> MaxMessageSize"
    "ReadFull (unat num) src = (Inr b, t)"
    by (auto simp: readBody_def split: prod.splits sum.splits if_splits)
  from m(1) obtain n where n: "ReadVarint r = Inr (num, n)" "src = drop n r"
    by (auto simp: ReadMessageLength_ReadVarint split: sum.splits)
  have "src = b @ t" "length b = unat num" using ReadFull_Inr [OF m(3)] by simp_all
  then have "r = take n r @ b @ t" "length b \<le> unat num" using n(2) append_take_drop_id [of n r] by simp_all
  moreover have "unat num \<le> 65536" using m(2) by (simp add: MaxMessageSize_def word_le_nat_alt)
  moreover have "length (take n r) \<in> {1, 2, 4, 8}" using ReadVarint_Inr [OF n(1)] by auto
  ultimately show ?thesis using that by fastforce
qed

section \<open>Zigzag\<close>

text \<open>\<open>v >> 63\<close> of an int64 is an arithmetic shift.\<close>

definition ZigzagEncode :: "uint64 \<Rightarrow> uint64" where
  "ZigzagEncode v = push_bit 1 v XOR signed_drop_bit 63 v"

definition ZigzagDecode :: "uint64 \<Rightarrow> uint64" where
  "ZigzagDecode u = drop_bit 1 u XOR - (u AND 1)"

lemma sign_mask: "- (u AND 1) = (if odd u then - 1 else 0 :: uint64)"
  by (simp add: and_one_eq odd_iff_mod_2_eq_one)

lemma signed_shift: "signed_drop_bit 63 v = (if bit v 63 then - 1 else 0 :: uint64)"
  by (intro bit_word_eqI) (auto simp: bit_signed_drop_bit_iff Suc_le_eq)

lemma bit_ZigzagEncode:
  "n < 64 \<Longrightarrow> bit (ZigzagEncode v) n \<longleftrightarrow> (if n = 0 then bit v 63 else bit v (n - 1) \<noteq> bit v 63)"
  by (auto simp: ZigzagEncode_def signed_shift bit_xor_iff bit_push_bit_iff simp del: push_bit_of_1 push_bit_Suc push_bit_numeral)

lemma bit_ZigzagDecode:
  "n < 64 \<Longrightarrow> bit (ZigzagDecode u) n \<longleftrightarrow> (if n = 63 then bit u 0 else bit u (Suc n) \<noteq> bit u 0)"
  by (auto simp: ZigzagDecode_def sign_mask bit_xor_iff bit_drop_bit_eq bit_0 dest: bit_imp_le_length)

lemma ZigzagDecode_Encode [simp]: "ZigzagDecode (ZigzagEncode v) = v"
proof (rule bit_word_eqI)
  fix n assume "n < LENGTH(64)"
  then show "bit (ZigzagDecode (ZigzagEncode v)) n = bit v n"
    by (cases "n = 63") (auto simp: bit_ZigzagDecode bit_ZigzagEncode)
qed

lemma ZigzagEncode_Decode [simp]: "ZigzagEncode (ZigzagDecode u) = u"
proof (rule bit_word_eqI)
  fix n assume "n < LENGTH(64)"
  then show "bit (ZigzagEncode (ZigzagDecode u)) n = bit u n"
    by (cases n) (auto simp: bit_ZigzagDecode bit_ZigzagEncode)
qed

lemma sint_nonneg_bit: "0 \<le> sint v \<longleftrightarrow> \<not> bit v 63" for v :: uint64
  using bit_last_iff [of v] by auto

lemma sint_word64: "sint v = uint v - (if bit v 63 then 2 ^ 64 else 0)" for v :: uint64
  using unsigned_less [of v, where ?'a = int]
  by (simp add: sint_uint signed_take_bit_eq_take_bit_minus bit_uint_iff take_bit_eq_mod)

text \<open>0, -1, 1, -2, 2, ... go to 0, 1, 2, 3, 4, ...\<close>

lemma uint_ZigzagEncode:
  "uint (ZigzagEncode v) = (if 0 \<le> sint v then 2 * sint v else - 2 * sint v - 1)"
proof -
  have b: "0 \<le> uint v" "uint v < 2 ^ 64" using unsigned_less [of v, where ?'a = int] by simp_all
  have s: "- (2 ^ 63) \<le> sint v" "sint v < 2 ^ 63" using sint_range_size [of v] by (simp_all add: word_size)
  have m: "uint (push_bit 1 v) = (2 * uint v) mod 2 ^ 64"
    by (simp add: push_bit_eq_mult uint_word_ariths ac_simps)
  have n: "uint (NOT (push_bit 1 v)) = 2 ^ 64 - 1 - (2 * uint v) mod 2 ^ 64"
    using m by (simp add: unsigned_not_eq take_bit_not_eq_mask_diff mask_eq_exp_minus_1) (simp add: take_bit_eq_mod)
  show ?thesis
  proof (cases "bit v 63")
    case True
    then have "uint v \<ge> 2 ^ 63" using s sint_word64 [of v] by simp
    then have "(2 * uint v) mod 2 ^ 64 = 2 * uint v - 2 ^ 64" 
      using b mod_pos_pos_trivial [of "2 * uint v - 2 ^ 64" "2 ^ 64"] minus_mod_self2 [of "2 * uint v" "2 ^ 64"]
      by simp
    with True n show ?thesis using b sint_word64 [of v]
      by (simp add: ZigzagEncode_def signed_shift sint_nonneg_bit)
  next
    case False
    with m s sint_word64 [of v] b show ?thesis by (simp add: ZigzagEncode_def signed_shift)
  qed
qed

section \<open>Stream types\<close>

text \<open>A stream type is one byte; bi- and unidirectional types share the numbers.\<close>

type_synonym StreamType = byte

definition StreamTypeAnnounce :: StreamType where "StreamTypeAnnounce = 0x1"
definition StreamTypeSubscribe :: StreamType where "StreamTypeSubscribe = 0x2"
definition StreamTypeFetch :: StreamType where "StreamTypeFetch = 0x3"
definition StreamTypeProbe :: StreamType where "StreamTypeProbe = 0x4"
definition StreamTypeGoaway :: StreamType where "StreamTypeGoaway = 0x5"
definition StreamTypeTrack :: StreamType where "StreamTypeTrack = 0x6"
definition StreamTypeAuth :: StreamType where "StreamTypeAuth = 0x7"
definition StreamTypeGroup :: StreamType where "StreamTypeGroup = 0x0"
definition StreamTypeSetup :: StreamType where "StreamTypeSetup = 0x1"

lemmas StreamType_defs = StreamTypeAnnounce_def StreamTypeSubscribe_def StreamTypeFetch_def StreamTypeProbe_def
  StreamTypeGoaway_def StreamTypeTrack_def StreamTypeAuth_def StreamTypeGroup_def StreamTypeSetup_def

definition StreamType_Encode :: "StreamType \<Rightarrow> bytes" where
  "StreamType_Encode stm = [stm]"

text \<open>The receiver, the reader: the error, the receiver and the reader afterwards.\<close>

definition StreamType_Decode :: "StreamType \<Rightarrow> bytes \<Rightarrow> error option \<times> StreamType \<times> bytes" where
  "StreamType_Decode stm r =
     (case r of [] \<Rightarrow> (Some EOF, stm, []) | b # r \<Rightarrow> (None, b, r))"

lemma StreamType_roundtrip: "StreamType_Decode s (StreamType_Encode t @ r) = (None, t, r)"
  by (simp add: StreamType_Encode_def StreamType_Decode_def)

section \<open>Properties\<close>

text \<open>C33 WriteVarint appends the varint of i, of VarintLen(i) bytes; ReadVarint and ReadMessageLength take
  it back off the front of whatever follows. It panics exactly above 2^62 - 1.\<close>
theorem varint_roundtrip:
  "case WriteVarint b i of
     None \<Rightarrow> i > maxVarInt8 \<and> VarintLen i = None
   | Some (b', n) \<Rightarrow> i \<le> maxVarInt8 \<and> VarintLen i = Some n \<and> take (length b) b' = b \<and> length b' = length b + n \<and>
       ReadVarint (drop (length b) b' @ r) = Inr (i, n) \<and>
       ReadMessageLength (drop (length b) b' @ r) = (Inr i, r)"
  using varint_None_iff [of i] ReadVarint_varint [of i _ r] ReadMessageLength_varint [of i _ r]
  by (cases "varint i") (auto simp: WriteVarint_varint VarintLen_varint not_less)

text \<open>The allocation-free path of ReadMessageLength (byte by byte, for an io.ByteReader) and the
  path for other readers give the same length or the same error, and leave the same bytes, on every
  input; both agree with ReadVarint on the bytes at hand.\<close>
lemma message_length_paths_agree:
  "ReadMessageLength_fallback r = ReadMessageLength r \<and>
   ReadMessageLength r =
     (case ReadVarint r of
        Inr (v, n) \<Rightarrow> (Inr v, drop n r)
      | Inl _ \<Rightarrow> (Inl (if r = [] then EOF else UnexpectedEOF), []))"
  using ReadMessageLength_fallback_eq ReadMessageLength_ReadVarint by blast

text \<open>ZigzagDecode and ZigzagEncode are inverse to each other on all 64-bit values, and the encoding of
  a signed v is 2 v for v >= 0 and -2 v - 1 below.\<close>
lemma zigzag_bijection:
  "ZigzagDecode (ZigzagEncode v) = v \<and> ZigzagEncode (ZigzagDecode u) = u \<and>
   uint (ZigzagEncode v) = (if 0 \<le> sint v then 2 * sint v else - 2 * sint v - 1)"
  using uint_ZigzagEncode by simp

end
