(* ===== verification/Codec.thy ===== *)
theory Codec
  imports Wire
begin

text \<open>
  The shape every control message of moqt/internal/message shares: \<open>Encode\<close>
  writes the length of the body and then the fields; \<open>Decode\<close> reads the body
  (\<open>readBody\<close>) and takes the fields from it one by one, assigning the receiver as it
  goes, and refuses a body with bytes left over. The locale states that shape as the laws of an
  interface and proves once what follows from it; each message of theory Messages is an
  interpretation.
\<close>

section \<open>The steps of a decoder\<close>

text \<open>
  A decoder returns the error (None for nil) and the receiver. The idiom
  \<open>num, n, err := ReadVarint(b); if err != nil { return err }; ...; b = b[n:]\<close> is
  \<open>with_varint b m (\<lambda>num b. ...)\<close>, with \<open>m\<close> the receiver as it stands there.
\<close>

type_synonym 'm decoded = "error option \<times> 'm"

definition with_varint :: "bytes \<Rightarrow> 'm \<Rightarrow> (uint64 \<Rightarrow> bytes \<Rightarrow> 'm decoded) \<Rightarrow> 'm decoded" where
  "with_varint b m k = (case ReadVarint b of Inl e \<Rightarrow> (Some e, m) | Inr (num, n) \<Rightarrow> k num (drop n b))"

definition with_string :: "bytes \<Rightarrow> 'm \<Rightarrow> (string \<Rightarrow> bytes \<Rightarrow> 'm decoded) \<Rightarrow> 'm decoded" where
  "with_string b m k = (case ReadString b of Inl e \<Rightarrow> (Some e, m) | Inr (str, n) \<Rightarrow> k str (drop n b))"

definition with_bytes :: "bytes \<Rightarrow> 'm \<Rightarrow> (bytes \<Rightarrow> bytes \<Rightarrow> 'm decoded) \<Rightarrow> 'm decoded" where
  "with_bytes b m k = (case ReadBytes b of Inl e \<Rightarrow> (Some e, m) | Inr (v, n) \<Rightarrow> k v (drop n b))"

definition with_array :: "bytes \<Rightarrow> 'm \<Rightarrow> (string list \<Rightarrow> bytes \<Rightarrow> 'm decoded) \<Rightarrow> 'm decoded" where
  "with_array b m k = (case ReadStringArray b of Inl e \<Rightarrow> (Some e, m) | Inr (arr, n) \<Rightarrow> k arr (drop n b))"

text \<open>\<open>if len(b) < 1 { return ErrMessageTooShort }; x := b[0]; b = b[1:]\<close>, and its two-byte form.\<close>

definition with_uint8 :: "bytes \<Rightarrow> 'm \<Rightarrow> (byte \<Rightarrow> bytes \<Rightarrow> 'm decoded) \<Rightarrow> 'm decoded" where
  "with_uint8 b m k = (if length b < 1 then (Some ErrMessageTooShort, m) else k (b ! 0) (drop 1 b))"

definition with_uint8_2 :: "bytes \<Rightarrow> 'm \<Rightarrow> (byte \<Rightarrow> byte \<Rightarrow> bytes \<Rightarrow> 'm decoded) \<Rightarrow> 'm decoded" where
  "with_uint8_2 b m k =
     (if length b < 2 then (Some ErrMessageTooShort, m) else k (b ! 0) (b ! 1) (drop 2 b))"

text \<open>\<open>if len(b) != 0 { return ErrMessageTooShort }; return nil\<close>\<close>

definition finish :: "bytes \<Rightarrow> 'm \<Rightarrow> 'm decoded" where
  "finish b m = (if length b \<noteq> 0 then (Some ErrMessageTooShort, m) else (None, m))"

text \<open>The whole of a Decode: also the reader as it is left.\<close>

definition with_body :: "bytes \<Rightarrow> 'm \<Rightarrow> (bytes \<Rightarrow> 'm decoded) \<Rightarrow> error option \<times> 'm \<times> bytes" where
  "with_body src m k =
     (case readBody src of
        (Inl e, src) \<Rightarrow> (Some e, m, src)
      | (Inr b, src) \<Rightarrow> (case k b of (err, m) \<Rightarrow> (err, m, src)))"

lemma with_varint_enc [wire_simps]:
  "varint i = Some e \<Longrightarrow> with_varint (e @ r) m k = k i r"
  by (simp add: with_varint_def ReadVarint_varint)

lemma with_varint_enc_end [wire_simps]:
  "varint i = Some e \<Longrightarrow> with_varint e m k = k i []"
  using with_varint_enc [of i e "[]"] by simp

lemma with_string_enc [wire_simps]:
  "string_enc s = Some e \<Longrightarrow> length s \<le> 65536 \<Longrightarrow> with_string (e @ r) m k = k s r"
  by (simp add: with_string_def ReadString_enc)

lemma with_bytes_enc [wire_simps]:
  "bytes_enc s = Some e \<Longrightarrow> length s \<le> 65536 \<Longrightarrow> with_bytes (e @ r) m k = k s r"
  by (simp add: with_bytes_def ReadBytes_enc)

lemma with_array_enc [wire_simps]:
  "array_enc arr = Some e \<Longrightarrow> length arr \<le> 65536 \<Longrightarrow> \<forall>s\<in>set arr. length s \<le> 65536 \<Longrightarrow>
   with_array (e @ r) m k = k arr r"
  by (simp add: with_array_def ReadStringArray_enc)

lemma with_uint8_cons [wire_simps]: "with_uint8 (x # r) m k = k x r"
  by (simp add: with_uint8_def)

lemma with_uint8_2_cons [wire_simps]: "with_uint8_2 (x # y # r) m k = k x y r"
  by (simp add: with_uint8_2_def)

lemma finish_rest [wire_simps]:
  "finish r m = (if r = [] then None else Some ErrMessageTooShort, m)"
  by (simp add: finish_def)

section \<open>Bodies\<close>

text \<open>The bytes of a body, field by field; None when a field has no encoding.\<close>

fun cat :: "bytes option list \<Rightarrow> bytes option" where
  "cat [] = Some []"
| "cat (x # xs) = do { a \<leftarrow> x; b \<leftarrow> cat xs; Some (a @ b) }"

lemma string_enc_length: "string_enc s = Some e \<Longrightarrow> length s < length e"
  by (auto simp: string_enc_def bytes_enc_def dest!: varint_length)

lemma bytes_enc_length: "bytes_enc s = Some e \<Longrightarrow> length s < length e"
  by (auto simp: bytes_enc_def dest!: varint_length)

lemma strings_enc_length:
  "strings_enc arr = Some e \<Longrightarrow> length arr \<le> length e \<and> (\<forall>s\<in>set arr. length s \<le> length e)"
  by (induction arr arbitrary: e) (fastforce simp: bind_Some_eq dest!: string_enc_length)+

lemma array_enc_length:
  "array_enc arr = Some e \<Longrightarrow> length arr \<le> length e \<and> (\<forall>s\<in>set arr. length s \<le> length e)"
  by (fastforce simp: array_enc_def bind_Some_eq dest!: strings_enc_length)

section \<open>The interface of a control message\<close>

locale control_message =
  fixes tag :: bytes \<comment> \<open>the Type some messages lead with, read by the caller\<close>
    and body :: "'m \<Rightarrow> bytes option"
    and len_of :: "'m \<Rightarrow> nat option"
    and encode :: "'m \<Rightarrow> bytes option"
    and fields :: "'m \<Rightarrow> bytes \<Rightarrow> 'm decoded"
    and decode :: "'m \<Rightarrow> bytes \<Rightarrow> error option \<times> 'm \<times> bytes"
    and wf :: "'m \<Rightarrow> bool"
  assumes len_of: "len_of m = map_option length (body m)"
    and encode: "encode m = do { b \<leftarrow> body m; e \<leftarrow> bytes_enc b; Some (tag @ e) }"
    and decode: "decode m0 src = with_body src m0 (fields m0)"
    and fields: "\<lbrakk>body m = Some b; length b \<le> 65536; wf m\<rbrakk> \<Longrightarrow>
      fst (fields m0 (b @ x)) = (if x = [] then None else Some ErrMessageTooShort) \<and>
      (x = [] \<longrightarrow> snd (fields m0 (b @ x)) = m)"
begin

lemma encodeE:
  assumes "encode m = Some e" "len_of m = Some n"
  obtains b f where "body m = Some b" "length b = n" "bytes_enc b = Some f" "e = tag @ f"
  using assms by (auto simp: encode len_of bind_Some_eq)

lemma tag_le: "encode m = Some e \<Longrightarrow> length tag \<le> length e"
  by (auto simp: encode bind_Some_eq)

text \<open>What is encoded is decoded, whatever the receiver held, and the rest of the stream is kept.\<close>

lemma roundtrip:
  assumes "encode m = Some e" "len_of m = Some n" "n \<le> 65536" "wf m"
  shows "decode m0 (drop (length tag) (e @ r)) = (None, m, r)"
proof -
  obtain b f where bf: "body m = Some b" "length b = n" "bytes_enc b = Some f" "e = tag @ f"
    using assms(1,2) by (rule encodeE)
  with assms fields [OF bf(1), of m0 "[]"] show ?thesis
    by (cases "fields m0 b") (simp add: decode with_body_def readBody_enc)
qed

text \<open>A message that fills more than MaxMessageSize is written, and refused by the decoder.\<close>

lemma too_large:
  assumes "encode m = Some e" "len_of m = Some n" "65536 < n" "n < 2 ^ 62"
  shows "\<exists>rest. decode m0 (drop (length tag) (e @ r)) = (Some ErrMessageTooLarge, m0, rest)"
proof -
  obtain b f where bf: "body m = Some b" "length b = n" "bytes_enc b = Some f" "e = tag @ f"
    using assms(1,2) by (rule encodeE)
  with assms readBody_too_large [OF bf(3)] show ?thesis
    by (simp add: decode with_body_def)
qed

text \<open>A message cut short leaves the receiver as it was and is an io.EOF of one kind or the other.\<close>

lemma truncated:
  assumes "encode m = Some e" "len_of m = Some n" "n \<le> 65536" "k < length e - length tag"
  shows "decode m0 (take k (drop (length tag) e)) =
    (Some (if k = 0 \<or> k = length e - length tag - n then EOF else UnexpectedEOF), m0, [])"
proof -
  obtain b f where bf: "body m = Some b" "length b = n" "bytes_enc b = Some f" "e = tag @ f"
    using assms(1,2) by (rule encodeE)
  with assms readBody_truncated [OF bf(3)] show ?thesis
    by (simp add: decode with_body_def)
qed

text \<open>A body with bytes after its fields is refused.\<close>

lemma trailing:
  assumes "body m = Some b" "length (b @ x) \<le> 65536" "wf m" "x \<noteq> []" "bytes_enc (b @ x) = Some f"
  shows "\<exists>m'. decode m0 (f @ r) = (Some ErrMessageTooShort, m', r)"
proof -
  have "fst (fields m0 (b @ x)) = Some ErrMessageTooShort"
    using fields [OF assms(1) _ assms(3), of m0 x] assms(2,4) by simp
  then show ?thesis
    using readBody_enc [OF assms(5,2)]
    by (cases "fields m0 (b @ x)") (simp add: decode with_body_def)
qed

lemma encode_inject:
  assumes "encode m = Some e" "encode m' = Some e" "len_of m = Some n" "n \<le> 65536"
    "len_of m' = Some n'" "n' \<le> 65536" "wf m" "wf m'"
  shows "m = m'"
proof -
  have "(None :: error option, m, [] :: bytes) = (None, m', [])"
    using roundtrip [OF assms(1,3,4,7), of m "[]"] roundtrip [OF assms(2,5,6,8), of m "[]"]
    by (rule trans [OF sym])
  then show ?thesis by simp
qed

text \<open>A sequence of messages on one stream, as the two ends exchange it.\<close>

fun encode_all :: "'m list \<Rightarrow> bytes option" where
  "encode_all [] = Some []"
| "encode_all (m # ms) = do { e \<leftarrow> encode m; f \<leftarrow> encode_all ms; Some (drop (length tag) e @ f) }"

fun decode_all :: "nat \<Rightarrow> 'm \<Rightarrow> bytes \<Rightarrow> error + 'm list \<times> bytes" where
  "decode_all 0 m0 src = Inr ([], src)"
| "decode_all (Suc k) m0 src =
     (case decode m0 src of
        (Some e, _, _) \<Rightarrow> Inl e
      | (None, m, src) \<Rightarrow>
          (case decode_all k m0 src of Inl e \<Rightarrow> Inl e | Inr (ms, src) \<Rightarrow> Inr (m # ms, src)))"

lemma stream_roundtrip:
  assumes "encode_all ms = Some e" "\<forall>m\<in>set ms. wf m \<and> (\<exists>n. len_of m = Some n \<and> n \<le> 65536)"
  shows "decode_all (length ms) m0 (e @ r) = Inr (ms, r)"
  using assms
proof (induction ms arbitrary: e)
  case (Cons m ms)
  then obtain e1 e2 where e: "encode m = Some e1" "encode_all ms = Some e2" "e = drop (length tag) e1 @ e2"
    by (auto simp: bind_Some_eq)
  obtain n where n: "len_of m = Some n" "n \<le> 65536" "wf m" using Cons.prems by auto
  have "length tag \<le> length e1" using e(1) by (rule tag_le)
  then have d: "decode m0 (e @ r) = (None, m, e2 @ r)"
    using roundtrip [OF e(1) n, of m0 "e2 @ r"] e(3) by simp
  have "decode_all (length ms) m0 (e2 @ r) = Inr (ms, r)"
    using Cons.prems by (intro Cons.IH e(2)) simp
  then show ?case
    by (simp only: list.size decode_all.simps add_Suc_right add_0_right d prod.case option.case sum.case)
qed simp

end

end
