(* ===== verification/Messages.thy ===== *)
theory Messages
  imports Codec
begin

text \<open>
  The control messages of moqt/internal/message: for each, its record, \<open>Len\<close>,
  \<open>Encode\<close> and \<open>Decode\<close>, the bytes of its body, and the proof that it is a
  control message in the sense of theory Codec. Record fields carry the name of the Go receiver,
  since Go lets two structs share a field name. \<open>Decode\<close> is \<open>readBody\<close>
  followed by \<open>X_fields\<close>, which takes the fields out of the body in the order of the code.
\<close>

lemma flatten_bind:
  "Option.bind (map_option f x) g = Option.bind x (\<lambda>v. g (f v))"
  "map_option h (Option.bind x k) = Option.bind x (\<lambda>v. map_option h (k v))"
  "Option.bind (Option.bind x p) q = Option.bind x (\<lambda>v. Option.bind (p v) q)"
  by (cases x; simp)+

lemmas len_body_simps = length_simps flatten_bind Let_def add.assoc
lemmas enc_body_simps = write_simps flatten_bind Let_def bytes_enc_def string_enc_def

text \<open>The reading steps, with the bound on the encoding instead of on the value.\<close>

lemma with_enc_small [wire_simps]:
  "string_enc s = Some e \<Longrightarrow> length e \<le> 65536 \<Longrightarrow> with_string (e @ r) m k = k s r"
  "string_enc s = Some e \<Longrightarrow> length e \<le> 65536 \<Longrightarrow> with_string e m k = k s []"
  "bytes_enc v = Some e \<Longrightarrow> length e \<le> 65536 \<Longrightarrow> with_bytes (e @ r) m l = l v r"
  "bytes_enc v = Some e \<Longrightarrow> length e \<le> 65536 \<Longrightarrow> with_bytes e m l = l v []"
  using string_enc_length [of s e] bytes_enc_length [of v e]
    with_string_enc [of s e r m k] with_string_enc [of s e "[]" m k]
    with_bytes_enc [of v e r m l] with_bytes_enc [of v e "[]" m l]
  by (auto intro: le_trans)

lemma with_array_small [wire_simps]:
  assumes "array_enc arr = Some e" "length e \<le> 65536"
  shows "with_array (e @ r) m g = g arr r"
  using assms array_enc_length [of arr e] by (intro with_array_enc) (auto intro: le_trans)

section \<open>Types that lead a message\<close>

definition AuthReplyOK :: uint64 where "AuthReplyOK = 0x0"
definition AuthReplyError :: uint64 where "AuthReplyError = 0x1"

definition ReadAuthReplyType :: "bytes \<Rightarrow> (error + uint64) \<times> bytes" where
  "ReadAuthReplyType r = ReadMessageLength r"

lemma auth_types [simp]: "varint AuthReplyOK = Some [0]" "varint AuthReplyError = Some [1]"
  by (simp_all add: varint_def WriteVarint_def AuthReplyOK_def AuthReplyError_def maxVarInt1_def)

section \<open>Messages of plain fields\<close>

subsection \<open>AnnounceOkMessage (moqt/internal/message/announce_ok.go)\<close>

record AnnounceOkMessage =
  aom_HopID :: uint64
  aom_ActiveCount :: uint64

definition AnnounceOk_Len :: "AnnounceOkMessage \<Rightarrow> nat option" where
  "AnnounceOk_Len aom =
     do { l1 \<leftarrow> VarintLen (aom_HopID aom);
          l2 \<leftarrow> VarintLen (aom_ActiveCount aom);
          Some (l1 + l2) }"

definition AnnounceOk_Encode :: "AnnounceOkMessage \<Rightarrow> bytes option" where
  "AnnounceOk_Encode aom =
     do { msgLen \<leftarrow> AnnounceOk_Len aom;
          (b, _) \<leftarrow> WriteMessageLength [] (of_nat msgLen);
          (b, _) \<leftarrow> WriteVarint b (aom_HopID aom);
          (b, _) \<leftarrow> WriteVarint b (aom_ActiveCount aom);
          Some b }"

definition AnnounceOk_fields :: "AnnounceOkMessage \<Rightarrow> bytes \<Rightarrow> AnnounceOkMessage decoded" where
  "AnnounceOk_fields aom b =
     with_varint b aom (\<lambda>num b. let aom = aom\<lparr>aom_HopID := num\<rparr> in
     with_varint b aom (\<lambda>num b. let aom = aom\<lparr>aom_ActiveCount := num\<rparr> in
     finish b aom))"

definition AnnounceOk_Decode :: "AnnounceOkMessage \<Rightarrow> bytes \<Rightarrow> error option \<times> AnnounceOkMessage \<times> bytes" where
  "AnnounceOk_Decode aom src = with_body src aom (AnnounceOk_fields aom)"

definition AnnounceOk_body :: "AnnounceOkMessage \<Rightarrow> bytes option" where
  "AnnounceOk_body aom =
     cat [varint (aom_HopID aom),
          varint (aom_ActiveCount aom)]"

interpretation AnnounceOk: control_message "[]" AnnounceOk_body AnnounceOk_Len AnnounceOk_Encode AnnounceOk_fields AnnounceOk_Decode
  "\<lambda>_. True"
proof unfold_locales
  show len: "AnnounceOk_Len m = map_option length (AnnounceOk_body m)" for m
    by (simp add: AnnounceOk_Len_def AnnounceOk_body_def len_body_simps)
  show "AnnounceOk_Encode m = do { b \<leftarrow> AnnounceOk_body m; e \<leftarrow> bytes_enc b; Some ([] @ e) }" for m
    by (auto simp: AnnounceOk_Encode_def len AnnounceOk_body_def enc_body_simps split: Option.bind_splits)
  show "AnnounceOk_Decode m0 src = with_body src m0 (AnnounceOk_fields m0)" for m0 src
    by (simp add: AnnounceOk_Decode_def)
  show "fst (AnnounceOk_fields m0 (b @ x)) = (if x = [] then None else Some ErrMessageTooShort) \<and>
      (x = [] \<longrightarrow> snd (AnnounceOk_fields m0 (b @ x)) = m)"
    if "AnnounceOk_body m = Some b" "length b \<le> 65536" for m m0 b x
    using that by (auto simp: AnnounceOk_body_def AnnounceOk_fields_def bind_Some_eq wire_simps)
qed

subsection \<open>AnnounceRequestMessage (moqt/internal/message/announce_request.go)\<close>

record AnnounceRequestMessage =
  aim_BroadcastPathPrefix :: string
  aim_ExcludeHop :: uint64

definition AnnounceRequest_Len :: "AnnounceRequestMessage \<Rightarrow> nat option" where
  "AnnounceRequest_Len aim =
     do { l1 \<leftarrow> StringLen (aim_BroadcastPathPrefix aim);
          l2 \<leftarrow> VarintLen (aim_ExcludeHop aim);
          Some (l1 + l2) }"

definition AnnounceRequest_Encode :: "AnnounceRequestMessage \<Rightarrow> bytes option" where
  "AnnounceRequest_Encode aim =
     do { msgLen \<leftarrow> AnnounceRequest_Len aim;
          (b, _) \<leftarrow> WriteMessageLength [] (of_nat msgLen);
          (b, _) \<leftarrow> WriteString b (aim_BroadcastPathPrefix aim);
          (b, _) \<leftarrow> WriteVarint b (aim_ExcludeHop aim);
          Some b }"

definition AnnounceRequest_fields :: "AnnounceRequestMessage \<Rightarrow> bytes \<Rightarrow> AnnounceRequestMessage decoded" where
  "AnnounceRequest_fields aim b =
     with_string b aim (\<lambda>str b. let aim = aim\<lparr>aim_BroadcastPathPrefix := str\<rparr> in
     with_varint b aim (\<lambda>num b. let aim = aim\<lparr>aim_ExcludeHop := num\<rparr> in
     finish b aim))"

definition AnnounceRequest_Decode :: "AnnounceRequestMessage \<Rightarrow> bytes \<Rightarrow> error option \<times> AnnounceRequestMessage \<times> bytes" where
  "AnnounceRequest_Decode aim src = with_body src aim (AnnounceRequest_fields aim)"

definition AnnounceRequest_body :: "AnnounceRequestMessage \<Rightarrow> bytes option" where
  "AnnounceRequest_body aim =
     cat [string_enc (aim_BroadcastPathPrefix aim),
          varint (aim_ExcludeHop aim)]"

interpretation AnnounceRequest: control_message "[]" AnnounceRequest_body AnnounceRequest_Len AnnounceRequest_Encode AnnounceRequest_fields AnnounceRequest_Decode
  "\<lambda>_. True"
proof unfold_locales
  show len: "AnnounceRequest_Len m = map_option length (AnnounceRequest_body m)" for m
    by (simp add: AnnounceRequest_Len_def AnnounceRequest_body_def len_body_simps)
  show "AnnounceRequest_Encode m = do { b \<leftarrow> AnnounceRequest_body m; e \<leftarrow> bytes_enc b; Some ([] @ e) }" for m
    by (auto simp: AnnounceRequest_Encode_def len AnnounceRequest_body_def enc_body_simps split: Option.bind_splits)
  show "AnnounceRequest_Decode m0 src = with_body src m0 (AnnounceRequest_fields m0)" for m0 src
    by (simp add: AnnounceRequest_Decode_def)
  show "fst (AnnounceRequest_fields m0 (b @ x)) = (if x = [] then None else Some ErrMessageTooShort) \<and>
      (x = [] \<longrightarrow> snd (AnnounceRequest_fields m0 (b @ x)) = m)"
    if "AnnounceRequest_body m = Some b" "length b \<le> 65536" for m m0 b x
    using that by (auto simp: AnnounceRequest_body_def AnnounceRequest_fields_def bind_Some_eq wire_simps)
qed

subsection \<open>AuthMessage (moqt/internal/message/auth.go)\<close>

record AuthMessage =
  autm_Token :: bytes

definition Auth_Len :: "AuthMessage \<Rightarrow> nat option" where
  "Auth_Len autm =
     do { l1 \<leftarrow> BytesLen (autm_Token autm);
          Some (l1) }"

definition Auth_Encode :: "AuthMessage \<Rightarrow> bytes option" where
  "Auth_Encode autm =
     do { msgLen \<leftarrow> Auth_Len autm;
          (b, _) \<leftarrow> WriteMessageLength [] (of_nat msgLen);
          (b, _) \<leftarrow> WriteBytes b (autm_Token autm);
          Some b }"

definition Auth_fields :: "AuthMessage \<Rightarrow> bytes \<Rightarrow> AuthMessage decoded" where
  "Auth_fields autm b =
     with_bytes b autm (\<lambda>token b. let autm = autm\<lparr>autm_Token := token\<rparr> in
     finish b autm)"

definition Auth_Decode :: "AuthMessage \<Rightarrow> bytes \<Rightarrow> error option \<times> AuthMessage \<times> bytes" where
  "Auth_Decode autm src = with_body src autm (Auth_fields autm)"

definition Auth_body :: "AuthMessage \<Rightarrow> bytes option" where
  "Auth_body autm =
     cat [bytes_enc (autm_Token autm)]"

interpretation Auth: control_message "[]" Auth_body Auth_Len Auth_Encode Auth_fields Auth_Decode
  "\<lambda>_. True"
proof unfold_locales
  show len: "Auth_Len m = map_option length (Auth_body m)" for m
    by (simp add: Auth_Len_def Auth_body_def len_body_simps)
  show "Auth_Encode m = do { b \<leftarrow> Auth_body m; e \<leftarrow> bytes_enc b; Some ([] @ e) }" for m
    by (auto simp: Auth_Encode_def len Auth_body_def enc_body_simps split: Option.bind_splits)
  show "Auth_Decode m0 src = with_body src m0 (Auth_fields m0)" for m0 src
    by (simp add: Auth_Decode_def)
  show "fst (Auth_fields m0 (b @ x)) = (if x = [] then None else Some ErrMessageTooShort) \<and>
      (x = [] \<longrightarrow> snd (Auth_fields m0 (b @ x)) = m)"
    if "Auth_body m = Some b" "length b \<le> 65536" for m m0 b x
    using that by (auto simp: Auth_body_def Auth_fields_def bind_Some_eq wire_simps)
qed

subsection \<open>AuthOkMessage (moqt/internal/message/auth.go)\<close>

record AuthOkMessage =
  aokm_Root :: string
  aokm_PublishPatterns :: "string list"
  aokm_SubscribePatterns :: "string list"
  aokm_Expires :: uint64

definition AuthOk_Len :: "AuthOkMessage \<Rightarrow> nat option" where
  "AuthOk_Len aokm =
     do { l1 \<leftarrow> StringLen (aokm_Root aokm);
          l2 \<leftarrow> StringArrayLen (aokm_PublishPatterns aokm);
          l3 \<leftarrow> StringArrayLen (aokm_SubscribePatterns aokm);
          l4 \<leftarrow> VarintLen (aokm_Expires aokm);
          Some (l1 + l2 + l3 + l4) }"

definition AuthOk_Encode :: "AuthOkMessage \<Rightarrow> bytes option" where
  "AuthOk_Encode aokm =
     do { msgLen \<leftarrow> AuthOk_Len aokm;
          (b, _) \<leftarrow> WriteVarint [] AuthReplyOK;
          (b, _) \<leftarrow> WriteMessageLength b (of_nat msgLen);
          (b, _) \<leftarrow> WriteString b (aokm_Root aokm);
          (b, _) \<leftarrow> WriteStringArray b (aokm_PublishPatterns aokm);
          (b, _) \<leftarrow> WriteStringArray b (aokm_SubscribePatterns aokm);
          (b, _) \<leftarrow> WriteVarint b (aokm_Expires aokm);
          Some b }"

definition AuthOk_fields :: "AuthOkMessage \<Rightarrow> bytes \<Rightarrow> AuthOkMessage decoded" where
  "AuthOk_fields aokm b =
     with_string b aokm (\<lambda>str b. let aokm = aokm\<lparr>aokm_Root := str\<rparr> in
     with_array b aokm (\<lambda>arr b. let aokm = aokm\<lparr>aokm_PublishPatterns := arr\<rparr> in
     with_array b aokm (\<lambda>arr b. let aokm = aokm\<lparr>aokm_SubscribePatterns := arr\<rparr> in
     with_varint b aokm (\<lambda>num b. let aokm = aokm\<lparr>aokm_Expires := num\<rparr> in
     finish b aokm))))"

definition AuthOk_Decode :: "AuthOkMessage \<Rightarrow> bytes \<Rightarrow> error option \<times> AuthOkMessage \<times> bytes" where
  "AuthOk_Decode aokm src = with_body src aokm (AuthOk_fields aokm)"

definition AuthOk_body :: "AuthOkMessage \<Rightarrow> bytes option" where
  "AuthOk_body aokm =
     cat [string_enc (aokm_Root aokm),
          array_enc (aokm_PublishPatterns aokm),
          array_enc (aokm_SubscribePatterns aokm),
          varint (aokm_Expires aokm)]"

interpretation AuthOk: control_message "[0]" AuthOk_body AuthOk_Len AuthOk_Encode AuthOk_fields AuthOk_Decode
  "\<lambda>_. True"
proof unfold_locales
  show len: "AuthOk_Len m = map_option length (AuthOk_body m)" for m
    by (simp add: AuthOk_Len_def AuthOk_body_def len_body_simps)
  show "AuthOk_Encode m = do { b \<leftarrow> AuthOk_body m; e \<leftarrow> bytes_enc b; Some ([0] @ e) }" for m
    by (auto simp: AuthOk_Encode_def len AuthOk_body_def enc_body_simps split: Option.bind_splits)
  show "AuthOk_Decode m0 src = with_body src m0 (AuthOk_fields m0)" for m0 src
    by (simp add: AuthOk_Decode_def)
  show "fst (AuthOk_fields m0 (b @ x)) = (if x = [] then None else Some ErrMessageTooShort) \<and>
      (x = [] \<longrightarrow> snd (AuthOk_fields m0 (b @ x)) = m)"
    if "AuthOk_body m = Some b" "length b \<le> 65536" for m m0 b x
    using that by (auto simp: AuthOk_body_def AuthOk_fields_def bind_Some_eq wire_simps)
qed

subsection \<open>AuthErrorMessage (moqt/internal/message/auth.go)\<close>

record AuthErrorMessage =
  aem_Code :: uint64
  aem_Reason :: string

definition AuthError_Len :: "AuthErrorMessage \<Rightarrow> nat option" where
  "AuthError_Len aem =
     do { l1 \<leftarrow> VarintLen (aem_Code aem);
          l2 \<leftarrow> StringLen (aem_Reason aem);
          Some (l1 + l2) }"

definition AuthError_Encode :: "AuthErrorMessage \<Rightarrow> bytes option" where
  "AuthError_Encode aem =
     do { msgLen \<leftarrow> AuthError_Len aem;
          (b, _) \<leftarrow> WriteVarint [] AuthReplyError;
          (b, _) \<leftarrow> WriteMessageLength b (of_nat msgLen);
          (b, _) \<leftarrow> WriteVarint b (aem_Code aem);
          (b, _) \<leftarrow> WriteString b (aem_Reason aem);
          Some b }"

definition AuthError_fields :: "AuthErrorMessage \<Rightarrow> bytes \<Rightarrow> AuthErrorMessage decoded" where
  "AuthError_fields aem b =
     with_varint b aem (\<lambda>num b. let aem = aem\<lparr>aem_Code := num\<rparr> in
     with_string b aem (\<lambda>str b. let aem = aem\<lparr>aem_Reason := str\<rparr> in
     finish b aem))"

definition AuthError_Decode :: "AuthErrorMessage \<Rightarrow> bytes \<Rightarrow> error option \<times> AuthErrorMessage \<times> bytes" where
  "AuthError_Decode aem src = with_body src aem (AuthError_fields aem)"

definition AuthError_body :: "AuthErrorMessage \<Rightarrow> bytes option" where
  "AuthError_body aem =
     cat [varint (aem_Code aem),
          string_enc (aem_Reason aem)]"

interpretation AuthError: control_message "[1]" AuthError_body AuthError_Len AuthError_Encode AuthError_fields AuthError_Decode
  "\<lambda>_. True"
proof unfold_locales
  show len: "AuthError_Len m = map_option length (AuthError_body m)" for m
    by (simp add: AuthError_Len_def AuthError_body_def len_body_simps)
  show "AuthError_Encode m = do { b \<leftarrow> AuthError_body m; e \<leftarrow> bytes_enc b; Some ([1] @ e) }" for m
    by (auto simp: AuthError_Encode_def len AuthError_body_def enc_body_simps split: Option.bind_splits)
  show "AuthError_Decode m0 src = with_body src m0 (AuthError_fields m0)" for m0 src
    by (simp add: AuthError_Decode_def)
  show "fst (AuthError_fields m0 (b @ x)) = (if x = [] then None else Some ErrMessageTooShort) \<and>
      (x = [] \<longrightarrow> snd (AuthError_fields m0 (b @ x)) = m)"
    if "AuthError_body m = Some b" "length b \<le> 65536" for m m0 b x
    using that by (auto simp: AuthError_body_def AuthError_fields_def bind_Some_eq wire_simps)
qed

subsection \<open>FetchMessage (moqt/internal/message/fetch.go)\<close>

record FetchMessage =
  f_BroadcastPath :: string
  f_TrackName :: string
  f_Priority :: byte
  f_GroupSequence :: uint64

definition Fetch_Len :: "FetchMessage \<Rightarrow> nat option" where
  "Fetch_Len f =
     do { l1 \<leftarrow> StringLen (f_BroadcastPath f);
          l2 \<leftarrow> StringLen (f_TrackName f);
          l3 \<leftarrow> VarintLen (f_GroupSequence f);
          Some (l1 + l2 + 1 + l3) }"

definition Fetch_Encode :: "FetchMessage \<Rightarrow> bytes option" where
  "Fetch_Encode f =
     do { msgLen \<leftarrow> Fetch_Len f;
          (b, _) \<leftarrow> WriteMessageLength [] (of_nat msgLen);
          (b, _) \<leftarrow> WriteVarint b (of_nat (length (f_BroadcastPath f)));
          let b = b @ bytes_of_string (f_BroadcastPath f);
          (b, _) \<leftarrow> WriteVarint b (of_nat (length (f_TrackName f)));
          let b = b @ bytes_of_string (f_TrackName f);
          let b = b @ [f_Priority f];
          (b, _) \<leftarrow> WriteVarint b (f_GroupSequence f);
          Some b }"

definition Fetch_fields :: "FetchMessage \<Rightarrow> bytes \<Rightarrow> FetchMessage decoded" where
  "Fetch_fields f b =
     with_string b f (\<lambda>str b. let f = f\<lparr>f_BroadcastPath := str\<rparr> in
     with_string b f (\<lambda>str b. let f = f\<lparr>f_TrackName := str\<rparr> in
     with_uint8 b f (\<lambda>x b. let f = f\<lparr>f_Priority := x\<rparr> in
     with_varint b f (\<lambda>num b. let f = f\<lparr>f_GroupSequence := num\<rparr> in
     finish b f))))"

definition Fetch_Decode :: "FetchMessage \<Rightarrow> bytes \<Rightarrow> error option \<times> FetchMessage \<times> bytes" where
  "Fetch_Decode f src = with_body src f (Fetch_fields f)"

definition Fetch_body :: "FetchMessage \<Rightarrow> bytes option" where
  "Fetch_body f =
     cat [string_enc (f_BroadcastPath f),
          string_enc (f_TrackName f),
          Some [f_Priority f],
          varint (f_GroupSequence f)]"

interpretation Fetch: control_message "[]" Fetch_body Fetch_Len Fetch_Encode Fetch_fields Fetch_Decode
  "\<lambda>_. True"
proof unfold_locales
  show len: "Fetch_Len m = map_option length (Fetch_body m)" for m
    by (simp add: Fetch_Len_def Fetch_body_def len_body_simps)
  show "Fetch_Encode m = do { b \<leftarrow> Fetch_body m; e \<leftarrow> bytes_enc b; Some ([] @ e) }" for m
    by (auto simp: Fetch_Encode_def len Fetch_body_def enc_body_simps split: Option.bind_splits)
  show "Fetch_Decode m0 src = with_body src m0 (Fetch_fields m0)" for m0 src
    by (simp add: Fetch_Decode_def)
  show "fst (Fetch_fields m0 (b @ x)) = (if x = [] then None else Some ErrMessageTooShort) \<and>
      (x = [] \<longrightarrow> snd (Fetch_fields m0 (b @ x)) = m)"
    if "Fetch_body m = Some b" "length b \<le> 65536" for m m0 b x
    using that by (auto simp: Fetch_body_def Fetch_fields_def bind_Some_eq wire_simps)
qed

subsection \<open>GoawayMessage (moqt/internal/message/goaway.go)\<close>

record GoawayMessage =
  gm_NewSessionURI :: string

definition Goaway_Len :: "GoawayMessage \<Rightarrow> nat option" where
  "Goaway_Len gm =
     do { l1 \<leftarrow> StringLen (gm_NewSessionURI gm);
          Some (l1) }"

definition Goaway_Encode :: "GoawayMessage \<Rightarrow> bytes option" where
  "Goaway_Encode gm =
     do { msgLen \<leftarrow> Goaway_Len gm;
          (b, _) \<leftarrow> WriteMessageLength [] (of_nat msgLen);
          (b, _) \<leftarrow> WriteString b (gm_NewSessionURI gm);
          Some b }"

definition Goaway_fields :: "GoawayMessage \<Rightarrow> bytes \<Rightarrow> GoawayMessage decoded" where
  "Goaway_fields gm b =
     with_string b gm (\<lambda>str b. let gm = gm\<lparr>gm_NewSessionURI := str\<rparr> in
     finish b gm)"

definition Goaway_Decode :: "GoawayMessage \<Rightarrow> bytes \<Rightarrow> error option \<times> GoawayMessage \<times> bytes" where
  "Goaway_Decode gm src = with_body src gm (Goaway_fields gm)"

definition Goaway_body :: "GoawayMessage \<Rightarrow> bytes option" where
  "Goaway_body gm =
     cat [string_enc (gm_NewSessionURI gm)]"

interpretation Goaway: control_message "[]" Goaway_body Goaway_Len Goaway_Encode Goaway_fields Goaway_Decode
  "\<lambda>_. True"
proof unfold_locales
  show len: "Goaway_Len m = map_option length (Goaway_body m)" for m
    by (simp add: Goaway_Len_def Goaway_body_def len_body_simps)
  show "Goaway_Encode m = do { b \<leftarrow> Goaway_body m; e \<leftarrow> bytes_enc b; Some ([] @ e) }" for m
    by (auto simp: Goaway_Encode_def len Goaway_body_def enc_body_simps split: Option.bind_splits)
  show "Goaway_Decode m0 src = with_body src m0 (Goaway_fields m0)" for m0 src
    by (simp add: Goaway_Decode_def)
  show "fst (Goaway_fields m0 (b @ x)) = (if x = [] then None else Some ErrMessageTooShort) \<and>
      (x = [] \<longrightarrow> snd (Goaway_fields m0 (b @ x)) = m)"
    if "Goaway_body m = Some b" "length b \<le> 65536" for m m0 b x
    using that by (auto simp: Goaway_body_def Goaway_fields_def bind_Some_eq wire_simps)
qed

subsection \<open>GroupMessage (moqt/internal/message/group.go)\<close>

record GroupMessage =
  g_SubscribeID :: uint64
  g_GroupSequence :: uint64

definition Group_Len :: "GroupMessage \<Rightarrow> nat option" where
  "Group_Len g =
     do { l1 \<leftarrow> VarintLen (g_SubscribeID g);
          l2 \<leftarrow> VarintLen (g_GroupSequence g);
          Some (l1 + l2) }"

definition Group_Encode :: "GroupMessage \<Rightarrow> bytes option" where
  "Group_Encode g =
     do { msgLen \<leftarrow> Group_Len g;
          (b, _) \<leftarrow> WriteMessageLength [] (of_nat msgLen);
          (b, _) \<leftarrow> WriteVarint b (g_SubscribeID g);
          (b, _) \<leftarrow> WriteVarint b (g_GroupSequence g);
          Some b }"

definition Group_fields :: "GroupMessage \<Rightarrow> bytes \<Rightarrow> GroupMessage decoded" where
  "Group_fields g b =
     with_varint b g (\<lambda>num b. let g = g\<lparr>g_SubscribeID := num\<rparr> in
     with_varint b g (\<lambda>num b. let g = g\<lparr>g_GroupSequence := num\<rparr> in
     finish b g))"

definition Group_Decode :: "GroupMessage \<Rightarrow> bytes \<Rightarrow> error option \<times> GroupMessage \<times> bytes" where
  "Group_Decode g src = with_body src g (Group_fields g)"

definition Group_body :: "GroupMessage \<Rightarrow> bytes option" where
  "Group_body g =
     cat [varint (g_SubscribeID g),
          varint (g_GroupSequence g)]"

interpretation Group: control_message "[]" Group_body Group_Len Group_Encode Group_fields Group_Decode
  "\<lambda>_. True"
proof unfold_locales
  show len: "Group_Len m = map_option length (Group_body m)" for m
    by (simp add: Group_Len_def Group_body_def len_body_simps)
  show "Group_Encode m = do { b \<leftarrow> Group_body m; e \<leftarrow> bytes_enc b; Some ([] @ e) }" for m
    by (auto simp: Group_Encode_def len Group_body_def enc_body_simps split: Option.bind_splits)
  show "Group_Decode m0 src = with_body src m0 (Group_fields m0)" for m0 src
    by (simp add: Group_Decode_def)
  show "fst (Group_fields m0 (b @ x)) = (if x = [] then None else Some ErrMessageTooShort) \<and>
      (x = [] \<longrightarrow> snd (Group_fields m0 (b @ x)) = m)"
    if "Group_body m = Some b" "length b \<le> 65536" for m m0 b x
    using that by (auto simp: Group_body_def Group_fields_def bind_Some_eq wire_simps)
qed

subsection \<open>ProbeMessage (moqt/internal/message/probe.go)\<close>

record ProbeMessage =
  pm_Bitrate :: uint64
  pm_RTT :: uint64

definition Probe_Len :: "ProbeMessage \<Rightarrow> nat option" where
  "Probe_Len pm =
     do { l1 \<leftarrow> VarintLen (pm_Bitrate pm);
          l2 \<leftarrow> VarintLen (pm_RTT pm);
          Some (l1 + l2) }"

definition Probe_Encode :: "ProbeMessage \<Rightarrow> bytes option" where
  "Probe_Encode pm =
     do { msgLen \<leftarrow> Probe_Len pm;
          (b, _) \<leftarrow> WriteMessageLength [] (of_nat msgLen);
          (b, _) \<leftarrow> WriteVarint b (pm_Bitrate pm);
          (b, _) \<leftarrow> WriteVarint b (pm_RTT pm);
          Some b }"

definition Probe_fields :: "ProbeMessage \<Rightarrow> bytes \<Rightarrow> ProbeMessage decoded" where
  "Probe_fields pm b =
     with_varint b pm (\<lambda>num b. let pm = pm\<lparr>pm_Bitrate := num\<rparr> in
     with_varint b pm (\<lambda>num b. let pm = pm\<lparr>pm_RTT := num\<rparr> in
     finish b pm))"

definition Probe_Decode :: "ProbeMessage \<Rightarrow> bytes \<Rightarrow> error option \<times> ProbeMessage \<times> bytes" where
  "Probe_Decode pm src = with_body src pm (Probe_fields pm)"

definition Probe_body :: "ProbeMessage \<Rightarrow> bytes option" where
  "Probe_body pm =
     cat [varint (pm_Bitrate pm),
          varint (pm_RTT pm)]"

interpretation Probe: control_message "[]" Probe_body Probe_Len Probe_Encode Probe_fields Probe_Decode
  "\<lambda>_. True"
proof unfold_locales
  show len: "Probe_Len m = map_option length (Probe_body m)" for m
    by (simp add: Probe_Len_def Probe_body_def len_body_simps)
  show "Probe_Encode m = do { b \<leftarrow> Probe_body m; e \<leftarrow> bytes_enc b; Some ([] @ e) }" for m
    by (auto simp: Probe_Encode_def len Probe_body_def enc_body_simps split: Option.bind_splits)
  show "Probe_Decode m0 src = with_body src m0 (Probe_fields m0)" for m0 src
    by (simp add: Probe_Decode_def)
  show "fst (Probe_fields m0 (b @ x)) = (if x = [] then None else Some ErrMessageTooShort) \<and>
      (x = [] \<longrightarrow> snd (Probe_fields m0 (b @ x)) = m)"
    if "Probe_body m = Some b" "length b \<le> 65536" for m m0 b x
    using that by (auto simp: Probe_body_def Probe_fields_def bind_Some_eq wire_simps)
qed

subsection \<open>SubscribeMessage (moqt/internal/message/subscribe.go)\<close>

record SubscribeMessage =
  s_SubscribeID :: uint64
  s_BroadcastPath :: string
  s_TrackName :: string
  s_SubscriberPriority :: byte
  s_SubscriberOrdered :: byte
  s_SubscriberMaxLatency :: uint64
  s_GroupStart :: uint64
  s_GroupEnd :: uint64

definition Subscribe_Len :: "SubscribeMessage \<Rightarrow> nat option" where
  "Subscribe_Len s =
     do { l1 \<leftarrow> VarintLen (s_SubscribeID s);
          l2 \<leftarrow> StringLen (s_BroadcastPath s);
          l3 \<leftarrow> StringLen (s_TrackName s);
          l4 \<leftarrow> VarintLen (s_SubscriberMaxLatency s);
          l5 \<leftarrow> VarintLen (s_GroupStart s);
          l6 \<leftarrow> VarintLen (s_GroupEnd s);
          Some (l1 + l2 + l3 + 1 + 1 + l4 + l5 + l6) }"

definition Subscribe_Encode :: "SubscribeMessage \<Rightarrow> bytes option" where
  "Subscribe_Encode s =
     do { msgLen \<leftarrow> Subscribe_Len s;
          (b, _) \<leftarrow> WriteMessageLength [] (of_nat msgLen);
          (b, _) \<leftarrow> WriteVarint b (s_SubscribeID s);
          (b, _) \<leftarrow> WriteVarint b (of_nat (length (s_BroadcastPath s)));
          let b = b @ bytes_of_string (s_BroadcastPath s);
          (b, _) \<leftarrow> WriteVarint b (of_nat (length (s_TrackName s)));
          let b = b @ bytes_of_string (s_TrackName s);
          let b = b @ [s_SubscriberPriority s];
          let b = b @ [s_SubscriberOrdered s];
          (b, _) \<leftarrow> WriteVarint b (s_SubscriberMaxLatency s);
          (b, _) \<leftarrow> WriteVarint b (s_GroupStart s);
          (b, _) \<leftarrow> WriteVarint b (s_GroupEnd s);
          Some b }"

definition Subscribe_fields :: "SubscribeMessage \<Rightarrow> bytes \<Rightarrow> SubscribeMessage decoded" where
  "Subscribe_fields s b =
     with_varint b s (\<lambda>num b. let s = s\<lparr>s_SubscribeID := num\<rparr> in
     with_string b s (\<lambda>str b. let s = s\<lparr>s_BroadcastPath := str\<rparr> in
     with_string b s (\<lambda>str b. let s = s\<lparr>s_TrackName := str\<rparr> in
     with_uint8_2 b s (\<lambda>x0 x1 b. let s = s\<lparr>s_SubscriberPriority := x0, s_SubscriberOrdered := x1\<rparr> in
     with_varint b s (\<lambda>num b. let s = s\<lparr>s_SubscriberMaxLatency := num\<rparr> in
     with_varint b s (\<lambda>num b. let s = s\<lparr>s_GroupStart := num\<rparr> in
     with_varint b s (\<lambda>num b. let s = s\<lparr>s_GroupEnd := num\<rparr> in
     finish b s)))))))"

definition Subscribe_Decode :: "SubscribeMessage \<Rightarrow> bytes \<Rightarrow> error option \<times> SubscribeMessage \<times> bytes" where
  "Subscribe_Decode s src = with_body src s (Subscribe_fields s)"

definition Subscribe_body :: "SubscribeMessage \<Rightarrow> bytes option" where
  "Subscribe_body s =
     cat [varint (s_SubscribeID s),
          string_enc (s_BroadcastPath s),
          string_enc (s_TrackName s),
          Some [s_SubscriberPriority s, s_SubscriberOrdered s],
          varint (s_SubscriberMaxLatency s),
          varint (s_GroupStart s),
          varint (s_GroupEnd s)]"

interpretation Subscribe: control_message "[]" Subscribe_body Subscribe_Len Subscribe_Encode Subscribe_fields Subscribe_Decode
  "\<lambda>_. True"
proof unfold_locales
  show len: "Subscribe_Len m = map_option length (Subscribe_body m)" for m
    by (simp add: Subscribe_Len_def Subscribe_body_def len_body_simps)
  show "Subscribe_Encode m = do { b \<leftarrow> Subscribe_body m; e \<leftarrow> bytes_enc b; Some ([] @ e) }" for m
    by (auto simp: Subscribe_Encode_def len Subscribe_body_def enc_body_simps split: Option.bind_splits)
  show "Subscribe_Decode m0 src = with_body src m0 (Subscribe_fields m0)" for m0 src
    by (simp add: Subscribe_Decode_def)
  show "fst (Subscribe_fields m0 (b @ x)) = (if x = [] then None else Some ErrMessageTooShort) \<and>
      (x = [] \<longrightarrow> snd (Subscribe_fields m0 (b @ x)) = m)"
    if "Subscribe_body m = Some b" "length b \<le> 65536" for m m0 b x
    using that by (auto simp: Subscribe_body_def Subscribe_fields_def bind_Some_eq wire_simps)
qed

subsection \<open>SubscribeDropMessage (moqt/internal/message/subscribe_drop.go)\<close>

record SubscribeDropMessage =
  sdm_GroupStart :: uint64
  sdm_GroupEnd :: uint64
  sdm_ErrorCode :: uint64

definition SubscribeDrop_Len :: "SubscribeDropMessage \<Rightarrow> nat option" where
  "SubscribeDrop_Len sdm =
     do { l1 \<leftarrow> VarintLen (sdm_GroupStart sdm);
          l2 \<leftarrow> VarintLen (sdm_GroupEnd sdm);
          l3 \<leftarrow> VarintLen (sdm_ErrorCode sdm);
          Some (l1 + l2 + l3) }"

definition SubscribeDrop_Encode :: "SubscribeDropMessage \<Rightarrow> bytes option" where
  "SubscribeDrop_Encode sdm =
     do { msgLen \<leftarrow> SubscribeDrop_Len sdm;
          (b, _) \<leftarrow> WriteMessageLength [] (of_nat msgLen);
          (b, _) \<leftarrow> WriteVarint b (sdm_GroupStart sdm);
          (b, _) \<leftarrow> WriteVarint b (sdm_GroupEnd sdm);
          (b, _) \<leftarrow> WriteVarint b (sdm_ErrorCode sdm);
          Some b }"

definition SubscribeDrop_fields :: "SubscribeDropMessage \<Rightarrow> bytes \<Rightarrow> SubscribeDropMessage decoded" where
  "SubscribeDrop_fields sdm b =
     with_varint b sdm (\<lambda>num b. let sdm = sdm\<lparr>sdm_GroupStart := num\<rparr> in
     with_varint b sdm (\<lambda>num b. let sdm = sdm\<lparr>sdm_GroupEnd := num\<rparr> in
     with_varint b sdm (\<lambda>num b. let sdm = sdm\<lparr>sdm_ErrorCode := num\<rparr> in
     finish b sdm)))"

definition SubscribeDrop_Decode :: "SubscribeDropMessage \<Rightarrow> bytes \<Rightarrow> error option \<times> SubscribeDropMessage \<times> bytes" where
  "SubscribeDrop_Decode sdm src = with_body src sdm (SubscribeDrop_fields sdm)"

definition SubscribeDrop_body :: "SubscribeDropMessage \<Rightarrow> bytes option" where
  "SubscribeDrop_body sdm =
     cat [varint (sdm_GroupStart sdm),
          varint (sdm_GroupEnd sdm),
          varint (sdm_ErrorCode sdm)]"

interpretation SubscribeDrop: control_message "[]" SubscribeDrop_body SubscribeDrop_Len SubscribeDrop_Encode SubscribeDrop_fields SubscribeDrop_Decode
  "\<lambda>_. True"
proof unfold_locales
  show len: "SubscribeDrop_Len m = map_option length (SubscribeDrop_body m)" for m
    by (simp add: SubscribeDrop_Len_def SubscribeDrop_body_def len_body_simps)
  show "SubscribeDrop_Encode m = do { b \<leftarrow> SubscribeDrop_body m; e \<leftarrow> bytes_enc b; Some ([] @ e) }" for m
    by (auto simp: SubscribeDrop_Encode_def len SubscribeDrop_body_def enc_body_simps split: Option.bind_splits)
  show "SubscribeDrop_Decode m0 src = with_body src m0 (SubscribeDrop_fields m0)" for m0 src
    by (simp add: SubscribeDrop_Decode_def)
  show "fst (SubscribeDrop_fields m0 (b @ x)) = (if x = [] then None else Some ErrMessageTooShort) \<and>
      (x = [] \<longrightarrow> snd (SubscribeDrop_fields m0 (b @ x)) = m)"
    if "SubscribeDrop_body m = Some b" "length b \<le> 65536" for m m0 b x
    using that by (auto simp: SubscribeDrop_body_def SubscribeDrop_fields_def bind_Some_eq wire_simps)
qed

subsection \<open>SubscribeEndMessage (moqt/internal/message/subscribe_end.go)\<close>

record SubscribeEndMessage =
  sem_Group :: uint64

definition SubscribeEnd_Len :: "SubscribeEndMessage \<Rightarrow> nat option" where
  "SubscribeEnd_Len sem =
     do { l1 \<leftarrow> VarintLen (sem_Group sem);
          Some (l1) }"

definition SubscribeEnd_Encode :: "SubscribeEndMessage \<Rightarrow> bytes option" where
  "SubscribeEnd_Encode sem =
     do { msgLen \<leftarrow> SubscribeEnd_Len sem;
          (b, _) \<leftarrow> WriteMessageLength [] (of_nat msgLen);
          (b, _) \<leftarrow> WriteVarint b (sem_Group sem);
          Some b }"

definition SubscribeEnd_fields :: "SubscribeEndMessage \<Rightarrow> bytes \<Rightarrow> SubscribeEndMessage decoded" where
  "SubscribeEnd_fields sem b =
     with_varint b sem (\<lambda>num b. let sem = sem\<lparr>sem_Group := num\<rparr> in
     finish b sem)"

definition SubscribeEnd_Decode :: "SubscribeEndMessage \<Rightarrow> bytes \<Rightarrow> error option \<times> SubscribeEndMessage \<times> bytes" where
  "SubscribeEnd_Decode sem src = with_body src sem (SubscribeEnd_fields sem)"

definition SubscribeEnd_body :: "SubscribeEndMessage \<Rightarrow> bytes option" where
  "SubscribeEnd_body sem =
     cat [varint (sem_Group sem)]"

interpretation SubscribeEnd: control_message "[]" SubscribeEnd_body SubscribeEnd_Len SubscribeEnd_Encode SubscribeEnd_fields SubscribeEnd_Decode
  "\<lambda>_. True"
proof unfold_locales
  show len: "SubscribeEnd_Len m = map_option length (SubscribeEnd_body m)" for m
    by (simp add: SubscribeEnd_Len_def SubscribeEnd_body_def len_body_simps)
  show "SubscribeEnd_Encode m = do { b \<leftarrow> SubscribeEnd_body m; e \<leftarrow> bytes_enc b; Some ([] @ e) }" for m
    by (auto simp: SubscribeEnd_Encode_def len SubscribeEnd_body_def enc_body_simps split: Option.bind_splits)
  show "SubscribeEnd_Decode m0 src = with_body src m0 (SubscribeEnd_fields m0)" for m0 src
    by (simp add: SubscribeEnd_Decode_def)
  show "fst (SubscribeEnd_fields m0 (b @ x)) = (if x = [] then None else Some ErrMessageTooShort) \<and>
      (x = [] \<longrightarrow> snd (SubscribeEnd_fields m0 (b @ x)) = m)"
    if "SubscribeEnd_body m = Some b" "length b \<le> 65536" for m m0 b x
    using that by (auto simp: SubscribeEnd_body_def SubscribeEnd_fields_def bind_Some_eq wire_simps)
qed

subsection \<open>SubscribeOkMessage (moqt/internal/message/subscribe_ok.go)\<close>

record SubscribeOkMessage =
  som_Group :: uint64

definition SubscribeOk_Len :: "SubscribeOkMessage \<Rightarrow> nat option" where
  "SubscribeOk_Len som =
     do { l1 \<leftarrow> VarintLen (som_Group som);
          Some (l1) }"

definition SubscribeOk_Encode :: "SubscribeOkMessage \<Rightarrow> bytes option" where
  "SubscribeOk_Encode som =
     do { msgLen \<leftarrow> SubscribeOk_Len som;
          (b, _) \<leftarrow> WriteMessageLength [] (of_nat msgLen);
          (b, _) \<leftarrow> WriteVarint b (som_Group som);
          Some b }"

definition SubscribeOk_fields :: "SubscribeOkMessage \<Rightarrow> bytes \<Rightarrow> SubscribeOkMessage decoded" where
  "SubscribeOk_fields som b =
     with_varint b som (\<lambda>num b. let som = som\<lparr>som_Group := num\<rparr> in
     finish b som)"

definition SubscribeOk_Decode :: "SubscribeOkMessage \<Rightarrow> bytes \<Rightarrow> error option \<times> SubscribeOkMessage \<times> bytes" where
  "SubscribeOk_Decode som src = with_body src som (SubscribeOk_fields som)"

definition SubscribeOk_body :: "SubscribeOkMessage \<Rightarrow> bytes option" where
  "SubscribeOk_body som =
     cat [varint (som_Group som)]"

interpretation SubscribeOk: control_message "[]" SubscribeOk_body SubscribeOk_Len SubscribeOk_Encode SubscribeOk_fields SubscribeOk_Decode
  "\<lambda>_. True"
proof unfold_locales
  show len: "SubscribeOk_Len m = map_option length (SubscribeOk_body m)" for m
    by (simp add: SubscribeOk_Len_def SubscribeOk_body_def len_body_simps)
  show "SubscribeOk_Encode m = do { b \<leftarrow> SubscribeOk_body m; e \<leftarrow> bytes_enc b; Some ([] @ e) }" for m
    by (auto simp: SubscribeOk_Encode_def len SubscribeOk_body_def enc_body_simps split: Option.bind_splits)
  show "SubscribeOk_Decode m0 src = with_body src m0 (SubscribeOk_fields m0)" for m0 src
    by (simp add: SubscribeOk_Decode_def)
  show "fst (SubscribeOk_fields m0 (b @ x)) = (if x = [] then None else Some ErrMessageTooShort) \<and>
      (x = [] \<longrightarrow> snd (SubscribeOk_fields m0 (b @ x)) = m)"
    if "SubscribeOk_body m = Some b" "length b \<le> 65536" for m m0 b x
    using that by (auto simp: SubscribeOk_body_def SubscribeOk_fields_def bind_Some_eq wire_simps)
qed

subsection \<open>SubscribeRedirectMessage (moqt/internal/message/subscribe_redirect.go)\<close>

record SubscribeRedirectMessage =
  srm_ConnectURI :: string
  srm_BroadcastPath :: string
  srm_TrackName :: string

definition SubscribeRedirect_Len :: "SubscribeRedirectMessage \<Rightarrow> nat option" where
  "SubscribeRedirect_Len srm =
     do { l1 \<leftarrow> StringLen (srm_ConnectURI srm);
          l2 \<leftarrow> StringLen (srm_BroadcastPath srm);
          l3 \<leftarrow> StringLen (srm_TrackName srm);
          Some (l1 + l2 + l3) }"

definition SubscribeRedirect_Encode :: "SubscribeRedirectMessage \<Rightarrow> bytes option" where
  "SubscribeRedirect_Encode srm =
     do { msgLen \<leftarrow> SubscribeRedirect_Len srm;
          (b, _) \<leftarrow> WriteMessageLength [] (of_nat msgLen);
          (b, _) \<leftarrow> WriteString b (srm_ConnectURI srm);
          (b, _) \<leftarrow> WriteString b (srm_BroadcastPath srm);
          (b, _) \<leftarrow> WriteString b (srm_TrackName srm);
          Some b }"

definition SubscribeRedirect_fields :: "SubscribeRedirectMessage \<Rightarrow> bytes \<Rightarrow> SubscribeRedirectMessage decoded" where
  "SubscribeRedirect_fields srm b =
     with_string b srm (\<lambda>uri b.
     with_string b srm (\<lambda>path b.
     with_string b srm (\<lambda>name b.
     if length b \<noteq> 0 then (Some ErrMessageTooShort, srm)
     else (None, srm\<lparr>srm_ConnectURI := uri, srm_BroadcastPath := path, srm_TrackName := name\<rparr>))))"

definition SubscribeRedirect_Decode :: "SubscribeRedirectMessage \<Rightarrow> bytes \<Rightarrow> error option \<times> SubscribeRedirectMessage \<times> bytes" where
  "SubscribeRedirect_Decode srm src = with_body src srm (SubscribeRedirect_fields srm)"

definition SubscribeRedirect_body :: "SubscribeRedirectMessage \<Rightarrow> bytes option" where
  "SubscribeRedirect_body srm =
     cat [string_enc (srm_ConnectURI srm),
          string_enc (srm_BroadcastPath srm),
          string_enc (srm_TrackName srm)]"

interpretation SubscribeRedirect: control_message "[]" SubscribeRedirect_body SubscribeRedirect_Len SubscribeRedirect_Encode SubscribeRedirect_fields SubscribeRedirect_Decode
  "\<lambda>_. True"
proof unfold_locales
  show len: "SubscribeRedirect_Len m = map_option length (SubscribeRedirect_body m)" for m
    by (simp add: SubscribeRedirect_Len_def SubscribeRedirect_body_def len_body_simps)
  show "SubscribeRedirect_Encode m = do { b \<leftarrow> SubscribeRedirect_body m; e \<leftarrow> bytes_enc b; Some ([] @ e) }" for m
    by (auto simp: SubscribeRedirect_Encode_def len SubscribeRedirect_body_def enc_body_simps split: Option.bind_splits)
  show "SubscribeRedirect_Decode m0 src = with_body src m0 (SubscribeRedirect_fields m0)" for m0 src
    by (simp add: SubscribeRedirect_Decode_def)
  show "fst (SubscribeRedirect_fields m0 (b @ x)) = (if x = [] then None else Some ErrMessageTooShort) \<and>
      (x = [] \<longrightarrow> snd (SubscribeRedirect_fields m0 (b @ x)) = m)"
    if "SubscribeRedirect_body m = Some b" "length b \<le> 65536" for m m0 b x
    using that by (auto simp: SubscribeRedirect_body_def SubscribeRedirect_fields_def bind_Some_eq wire_simps)
qed

subsection \<open>SubscribeUpdateMessage (moqt/internal/message/subscribe_update.go)\<close>

record SubscribeUpdateMessage =
  su_SubscriberPriority :: byte
  su_SubscriberOrdered :: byte
  su_SubscriberMaxLatency :: uint64
  su_GroupStart :: uint64
  su_GroupEnd :: uint64

definition SubscribeUpdate_Len :: "SubscribeUpdateMessage \<Rightarrow> nat option" where
  "SubscribeUpdate_Len su =
     do { l1 \<leftarrow> VarintLen (su_SubscriberMaxLatency su);
          l2 \<leftarrow> VarintLen (su_GroupStart su);
          l3 \<leftarrow> VarintLen (su_GroupEnd su);
          Some (1 + 1 + l1 + l2 + l3) }"

definition SubscribeUpdate_Encode :: "SubscribeUpdateMessage \<Rightarrow> bytes option" where
  "SubscribeUpdate_Encode su =
     do { msgLen \<leftarrow> SubscribeUpdate_Len su;
          (b, _) \<leftarrow> WriteMessageLength [] (of_nat msgLen);
          let b = b @ [su_SubscriberPriority su];
          let b = b @ [su_SubscriberOrdered su];
          (b, _) \<leftarrow> WriteVarint b (su_SubscriberMaxLatency su);
          (b, _) \<leftarrow> WriteVarint b (su_GroupStart su);
          (b, _) \<leftarrow> WriteVarint b (su_GroupEnd su);
          Some b }"

definition SubscribeUpdate_fields :: "SubscribeUpdateMessage \<Rightarrow> bytes \<Rightarrow> SubscribeUpdateMessage decoded" where
  "SubscribeUpdate_fields su b =
     with_uint8_2 b su (\<lambda>x0 x1 b. let su = su\<lparr>su_SubscriberPriority := x0, su_SubscriberOrdered := x1\<rparr> in
     with_varint b su (\<lambda>num b. let su = su\<lparr>su_SubscriberMaxLatency := num\<rparr> in
     with_varint b su (\<lambda>num b. let su = su\<lparr>su_GroupStart := num\<rparr> in
     with_varint b su (\<lambda>num b. let su = su\<lparr>su_GroupEnd := num\<rparr> in
     finish b su))))"

definition SubscribeUpdate_Decode :: "SubscribeUpdateMessage \<Rightarrow> bytes \<Rightarrow> error option \<times> SubscribeUpdateMessage \<times> bytes" where
  "SubscribeUpdate_Decode su src = with_body src su (SubscribeUpdate_fields su)"

definition SubscribeUpdate_body :: "SubscribeUpdateMessage \<Rightarrow> bytes option" where
  "SubscribeUpdate_body su =
     cat [Some [su_SubscriberPriority su, su_SubscriberOrdered su],
          varint (su_SubscriberMaxLatency su),
          varint (su_GroupStart su),
          varint (su_GroupEnd su)]"

interpretation SubscribeUpdate: control_message "[]" SubscribeUpdate_body SubscribeUpdate_Len SubscribeUpdate_Encode SubscribeUpdate_fields SubscribeUpdate_Decode
  "\<lambda>_. True"
proof unfold_locales
  show len: "SubscribeUpdate_Len m = map_option length (SubscribeUpdate_body m)" for m
    by (simp add: SubscribeUpdate_Len_def SubscribeUpdate_body_def len_body_simps)
  show "SubscribeUpdate_Encode m = do { b \<leftarrow> SubscribeUpdate_body m; e \<leftarrow> bytes_enc b; Some ([] @ e) }" for m
    by (auto simp: SubscribeUpdate_Encode_def len SubscribeUpdate_body_def enc_body_simps split: Option.bind_splits)
  show "SubscribeUpdate_Decode m0 src = with_body src m0 (SubscribeUpdate_fields m0)" for m0 src
    by (simp add: SubscribeUpdate_Decode_def)
  show "fst (SubscribeUpdate_fields m0 (b @ x)) = (if x = [] then None else Some ErrMessageTooShort) \<and>
      (x = [] \<longrightarrow> snd (SubscribeUpdate_fields m0 (b @ x)) = m)"
    if "SubscribeUpdate_body m = Some b" "length b \<le> 65536" for m m0 b x
    using that by (auto simp: SubscribeUpdate_body_def SubscribeUpdate_fields_def bind_Some_eq wire_simps)
qed

subsection \<open>TrackMessage (moqt/internal/message/track.go)\<close>

record TrackMessage =
  tm_BroadcastPath :: string
  tm_TrackName :: string

definition Track_Len :: "TrackMessage \<Rightarrow> nat option" where
  "Track_Len tm =
     do { l1 \<leftarrow> StringLen (tm_BroadcastPath tm);
          l2 \<leftarrow> StringLen (tm_TrackName tm);
          Some (l1 + l2) }"

definition Track_Encode :: "TrackMessage \<Rightarrow> bytes option" where
  "Track_Encode tm =
     do { msgLen \<leftarrow> Track_Len tm;
          (b, _) \<leftarrow> WriteMessageLength [] (of_nat msgLen);
          (b, _) \<leftarrow> WriteString b (tm_BroadcastPath tm);
          (b, _) \<leftarrow> WriteString b (tm_TrackName tm);
          Some b }"

definition Track_fields :: "TrackMessage \<Rightarrow> bytes \<Rightarrow> TrackMessage decoded" where
  "Track_fields tm b =
     with_string b tm (\<lambda>str b. let tm = tm\<lparr>tm_BroadcastPath := str\<rparr> in
     with_string b tm (\<lambda>str b. let tm = tm\<lparr>tm_TrackName := str\<rparr> in
     finish b tm))"

definition Track_Decode :: "TrackMessage \<Rightarrow> bytes \<Rightarrow> error option \<times> TrackMessage \<times> bytes" where
  "Track_Decode tm src = with_body src tm (Track_fields tm)"

definition Track_body :: "TrackMessage \<Rightarrow> bytes option" where
  "Track_body tm =
     cat [string_enc (tm_BroadcastPath tm),
          string_enc (tm_TrackName tm)]"

interpretation Track: control_message "[]" Track_body Track_Len Track_Encode Track_fields Track_Decode
  "\<lambda>_. True"
proof unfold_locales
  show len: "Track_Len m = map_option length (Track_body m)" for m
    by (simp add: Track_Len_def Track_body_def len_body_simps)
  show "Track_Encode m = do { b \<leftarrow> Track_body m; e \<leftarrow> bytes_enc b; Some ([] @ e) }" for m
    by (auto simp: Track_Encode_def len Track_body_def enc_body_simps split: Option.bind_splits)
  show "Track_Decode m0 src = with_body src m0 (Track_fields m0)" for m0 src
    by (simp add: Track_Decode_def)
  show "fst (Track_fields m0 (b @ x)) = (if x = [] then None else Some ErrMessageTooShort) \<and>
      (x = [] \<longrightarrow> snd (Track_fields m0 (b @ x)) = m)"
    if "Track_body m = Some b" "length b \<le> 65536" for m m0 b x
    using that by (auto simp: Track_body_def Track_fields_def bind_Some_eq wire_simps)
qed

subsection \<open>TrackInfoMessage (moqt/internal/message/track_info.go)\<close>

record TrackInfoMessage =
  tim_PublisherPriority :: byte
  tim_PublisherOrdered :: byte
  tim_PublisherMaxLatency :: uint64
  tim_Timescale :: uint64

definition TrackInfo_Len :: "TrackInfoMessage \<Rightarrow> nat option" where
  "TrackInfo_Len tim =
     do { l1 \<leftarrow> VarintLen (tim_PublisherMaxLatency tim);
          l2 \<leftarrow> VarintLen (tim_Timescale tim);
          Some (1 + 1 + l1 + l2) }"

definition TrackInfo_Encode :: "TrackInfoMessage \<Rightarrow> bytes option" where
  "TrackInfo_Encode tim =
     do { msgLen \<leftarrow> TrackInfo_Len tim;
          (b, _) \<leftarrow> WriteMessageLength [] (of_nat msgLen);
          let b = b @ [tim_PublisherPriority tim];
          let b = b @ [tim_PublisherOrdered tim];
          (b, _) \<leftarrow> WriteVarint b (tim_PublisherMaxLatency tim);
          (b, _) \<leftarrow> WriteVarint b (tim_Timescale tim);
          Some b }"

definition TrackInfo_fields :: "TrackInfoMessage \<Rightarrow> bytes \<Rightarrow> TrackInfoMessage decoded" where
  "TrackInfo_fields tim b =
     with_uint8_2 b tim (\<lambda>x0 x1 b. let tim = tim\<lparr>tim_PublisherPriority := x0, tim_PublisherOrdered := x1\<rparr> in
     with_varint b tim (\<lambda>num b. let tim = tim\<lparr>tim_PublisherMaxLatency := num\<rparr> in
     with_varint b tim (\<lambda>num b. let tim = tim\<lparr>tim_Timescale := num\<rparr> in
     finish b tim)))"

definition TrackInfo_Decode :: "TrackInfoMessage \<Rightarrow> bytes \<Rightarrow> error option \<times> TrackInfoMessage \<times> bytes" where
  "TrackInfo_Decode tim src = with_body src tim (TrackInfo_fields tim)"

definition TrackInfo_body :: "TrackInfoMessage \<Rightarrow> bytes option" where
  "TrackInfo_body tim =
     cat [Some [tim_PublisherPriority tim, tim_PublisherOrdered tim],
          varint (tim_PublisherMaxLatency tim),
          varint (tim_Timescale tim)]"

interpretation TrackInfo: control_message "[]" TrackInfo_body TrackInfo_Len TrackInfo_Encode TrackInfo_fields TrackInfo_Decode
  "\<lambda>_. True"
proof unfold_locales
  show len: "TrackInfo_Len m = map_option length (TrackInfo_body m)" for m
    by (simp add: TrackInfo_Len_def TrackInfo_body_def len_body_simps)
  show "TrackInfo_Encode m = do { b \<leftarrow> TrackInfo_body m; e \<leftarrow> bytes_enc b; Some ([] @ e) }" for m
    by (auto simp: TrackInfo_Encode_def len TrackInfo_body_def enc_body_simps split: Option.bind_splits)
  show "TrackInfo_Decode m0 src = with_body src m0 (TrackInfo_fields m0)" for m0 src
    by (simp add: TrackInfo_Decode_def)
  show "fst (TrackInfo_fields m0 (b @ x)) = (if x = [] then None else Some ErrMessageTooShort) \<and>
      (x = [] \<longrightarrow> snd (TrackInfo_fields m0 (b @ x)) = m)"
    if "TrackInfo_body m = Some b" "length b \<le> 65536" for m m0 b x
    using that by (auto simp: TrackInfo_body_def TrackInfo_fields_def bind_Some_eq wire_simps)
qed

section \<open>Messages with repeated fields\<close>

subsection \<open>AnnounceBroadcastMessage (moqt/internal/message/announce_broadcast.go)\<close>

definition ENDED :: byte where "ENDED = 0x0"
definition ACTIVE :: byte where "ACTIVE = 0x1"

record AnnounceBroadcastMessage =
  am_AnnounceStatus :: byte
  am_BroadcastPathSuffix :: string
  am_HopIDs :: "uint64 list"

fun AnnounceBroadcast_Len_hops :: "nat \<Rightarrow> uint64 list \<Rightarrow> nat option" where
  "AnnounceBroadcast_Len_hops l [] = Some l"
| "AnnounceBroadcast_Len_hops l (hop # hops) =
     do { n \<leftarrow> VarintLen hop; AnnounceBroadcast_Len_hops (l + n) hops }"

definition AnnounceBroadcast_Len :: "AnnounceBroadcastMessage \<Rightarrow> nat option" where
  "AnnounceBroadcast_Len am =
     do { l1 \<leftarrow> VarintLen (ucast (am_AnnounceStatus am));
          l2 \<leftarrow> StringLen (am_BroadcastPathSuffix am);
          l3 \<leftarrow> VarintLen (of_nat (length (am_HopIDs am)));
          AnnounceBroadcast_Len_hops (l1 + l2 + l3) (am_HopIDs am) }"

fun AnnounceBroadcast_Encode_hops :: "bytes \<Rightarrow> uint64 list \<Rightarrow> bytes option" where
  "AnnounceBroadcast_Encode_hops b [] = Some b"
| "AnnounceBroadcast_Encode_hops b (hop # hops) =
     do { (b, _) \<leftarrow> WriteVarint b hop; AnnounceBroadcast_Encode_hops b hops }"

definition AnnounceBroadcast_Encode :: "AnnounceBroadcastMessage \<Rightarrow> bytes option" where
  "AnnounceBroadcast_Encode am =
     do { msgLen \<leftarrow> AnnounceBroadcast_Len am;
          (b, _) \<leftarrow> WriteMessageLength [] (of_nat msgLen);
          (b, _) \<leftarrow> WriteVarint b (ucast (am_AnnounceStatus am));
          (b, _) \<leftarrow> WriteString b (am_BroadcastPathSuffix am);
          (b, _) \<leftarrow> WriteVarint b (of_nat (length (am_HopIDs am)));
          AnnounceBroadcast_Encode_hops b (am_HopIDs am) }"

primrec AnnounceBroadcast_hops ::
    "nat \<Rightarrow> AnnounceBroadcastMessage \<Rightarrow> bytes \<Rightarrow> AnnounceBroadcastMessage decoded" where
  "AnnounceBroadcast_hops 0 am b = finish b am"
| "AnnounceBroadcast_hops (Suc k) am b =
     with_varint b am (\<lambda>num b. let am = am\<lparr>am_HopIDs := am_HopIDs am @ [num]\<rparr> in
     AnnounceBroadcast_hops k am b)"

text \<open>\<open>AnnounceStatus(num)\<close> keeps the low byte of the varint.\<close>

definition AnnounceBroadcast_fields ::
    "AnnounceBroadcastMessage \<Rightarrow> bytes \<Rightarrow> AnnounceBroadcastMessage decoded" where
  "AnnounceBroadcast_fields am b =
     with_varint b am (\<lambda>num b. let am = am\<lparr>am_AnnounceStatus := ucast num\<rparr> in
     with_string b am (\<lambda>str b. let am = am\<lparr>am_BroadcastPathSuffix := str\<rparr> in
     with_varint b am (\<lambda>hopCount b. let am = am\<lparr>am_HopIDs := []\<rparr> in
     AnnounceBroadcast_hops (unat hopCount) am b)))"

definition AnnounceBroadcast_Decode ::
    "AnnounceBroadcastMessage \<Rightarrow> bytes \<Rightarrow> error option \<times> AnnounceBroadcastMessage \<times> bytes" where
  "AnnounceBroadcast_Decode am src = with_body src am (AnnounceBroadcast_fields am)"

fun hops_enc :: "uint64 list \<Rightarrow> bytes option" where
  "hops_enc [] = Some []"
| "hops_enc (hop # hops) = do { e \<leftarrow> varint hop; f \<leftarrow> hops_enc hops; Some (e @ f) }"

definition AnnounceBroadcast_body :: "AnnounceBroadcastMessage \<Rightarrow> bytes option" where
  "AnnounceBroadcast_body am =
     cat [varint (ucast (am_AnnounceStatus am)), string_enc (am_BroadcastPathSuffix am),
          varint (of_nat (length (am_HopIDs am))), hops_enc (am_HopIDs am)]"

lemma AnnounceBroadcast_Len_hops_enc:
  "AnnounceBroadcast_Len_hops l hops = map_option (\<lambda>e. l + length e) (hops_enc hops)"
  by (induction hops arbitrary: l)
    (simp_all add: len_body_simps option.map_comp o_def split: Option.bind_splits)

lemma AnnounceBroadcast_Encode_hops_enc:
  "AnnounceBroadcast_Encode_hops b hops = map_option (\<lambda>e. b @ e) (hops_enc hops)"
  by (induction hops arbitrary: b)
    (simp_all add: enc_body_simps option.map_comp o_def split: Option.bind_splits)

lemma hops_enc_length: "hops_enc hops = Some e \<Longrightarrow> length hops \<le> length e"
  by (induction hops arbitrary: e) (fastforce simp: bind_Some_eq dest!: varint_length)+

lemma AnnounceBroadcast_hops_enc:
  "hops_enc hops = Some e \<Longrightarrow>
   AnnounceBroadcast_hops (length hops) am (e @ x) = finish x (am\<lparr>am_HopIDs := am_HopIDs am @ hops\<rparr>)"
  by (induction hops arbitrary: e am) (auto simp: bind_Some_eq with_varint_enc)

lemmas AnnounceBroadcast_hops_enc_end = AnnounceBroadcast_hops_enc [where x = "[]", simplified]

lemma ucast_byte [simp]: "ucast (ucast (s :: byte) :: uint64) = s"
  by (rule bit_word_eqI) (auto simp: bit_unsigned_iff)

interpretation AnnounceBroadcast: control_message "[]" AnnounceBroadcast_body AnnounceBroadcast_Len
  AnnounceBroadcast_Encode AnnounceBroadcast_fields AnnounceBroadcast_Decode "\<lambda>_. True"
proof unfold_locales
  show len: "AnnounceBroadcast_Len m = map_option length (AnnounceBroadcast_body m)" for m
    by (simp add: AnnounceBroadcast_Len_def AnnounceBroadcast_body_def AnnounceBroadcast_Len_hops_enc
        len_body_simps map_conv_bind_option o_def)
  show "AnnounceBroadcast_Encode m =
      do { b \<leftarrow> AnnounceBroadcast_body m; e \<leftarrow> bytes_enc b; Some ([] @ e) }" for m
    by (auto simp: AnnounceBroadcast_Encode_def len AnnounceBroadcast_body_def AnnounceBroadcast_Encode_hops_enc
        enc_body_simps split: Option.bind_splits)
  show "AnnounceBroadcast_Decode m0 src = with_body src m0 (AnnounceBroadcast_fields m0)" for m0 src
    by (simp add: AnnounceBroadcast_Decode_def)
  fix m m0 :: AnnounceBroadcastMessage and b x
  assume b: "AnnounceBroadcast_body m = Some b" "length b \<le> 65536"
  then have "length (am_HopIDs m) \<le> 65536"
    by (auto simp: AnnounceBroadcast_body_def bind_Some_eq dest!: hops_enc_length)
  with b show "fst (AnnounceBroadcast_fields m0 (b @ x)) = (if x = [] then None else Some ErrMessageTooShort) \<and>
      (x = [] \<longrightarrow> snd (AnnounceBroadcast_fields m0 (b @ x)) = m)"
    by (auto simp: AnnounceBroadcast_body_def AnnounceBroadcast_fields_def bind_Some_eq wire_simps
        AnnounceBroadcast_hops_enc AnnounceBroadcast_hops_enc_end unat_of_nat_small)
qed

subsection \<open>SetupMessage (moqt/internal/message/setup.go)\<close>

definition SetupParamProbe :: uint64 where "SetupParamProbe = 0x1"
definition SetupParamPath :: uint64 where "SetupParamPath = 0x2"
definition SetupParamRedirect :: uint64 where "SetupParamRedirect = 0x7d01"

definition ProbeLevelNone :: uint64 where "ProbeLevelNone = 0"
definition ProbeLevelReport :: uint64 where "ProbeLevelReport = 1"
definition ProbeLevelIncrease :: uint64 where "ProbeLevelIncrease = 2"

record SetupParameter =
  p_ID :: uint64
  p_Value :: bytes

record SetupMessage =
  sm_Parameters :: "SetupParameter list"

definition AddProbe :: "SetupMessage \<Rightarrow> uint64 \<Rightarrow> SetupMessage option" where
  "AddProbe sm level =
     do { (value, _) \<leftarrow> WriteVarint [] level;
          Some (sm\<lparr>sm_Parameters := sm_Parameters sm @ [\<lparr>p_ID = SetupParamProbe, p_Value = value\<rparr>]\<rparr>) }"

definition AddPath :: "SetupMessage \<Rightarrow> string \<Rightarrow> SetupMessage" where
  "AddPath sm path =
     sm\<lparr>sm_Parameters := sm_Parameters sm @ [\<lparr>p_ID = SetupParamPath, p_Value = bytes_of_string path\<rparr>]\<rparr>"

definition AddRedirect :: "SetupMessage \<Rightarrow> SetupMessage" where
  "AddRedirect sm =
     sm\<lparr>sm_Parameters := sm_Parameters sm @ [\<lparr>p_ID = SetupParamRedirect, p_Value = []\<rparr>]\<rparr>"

fun ProbeLevel_of :: "SetupParameter list \<Rightarrow> uint64" where
  "ProbeLevel_of [] = ProbeLevelNone"
| "ProbeLevel_of (p # ps) =
     (if p_ID p \<noteq> SetupParamProbe then ProbeLevel_of ps
      else (case ReadVarint (p_Value p) of
              Inl _ \<Rightarrow> ProbeLevelNone
            | Inr (level, _) \<Rightarrow> level))"

definition ProbeLevel :: "SetupMessage \<Rightarrow> uint64" where
  "ProbeLevel sm = ProbeLevel_of (sm_Parameters sm)"

fun FollowsRedirect_of :: "SetupParameter list \<Rightarrow> bool" where
  "FollowsRedirect_of [] = False"
| "FollowsRedirect_of (p # ps) =
     (if p_ID p \<noteq> SetupParamRedirect then FollowsRedirect_of ps
      else if length (p_Value p) = 0 then True
      else (case ReadVarint (p_Value p) of
              Inl _ \<Rightarrow> False
            | Inr (_, n) \<Rightarrow> n = length (p_Value p)))"

definition FollowsRedirect :: "SetupMessage \<Rightarrow> bool" where
  "FollowsRedirect sm = FollowsRedirect_of (sm_Parameters sm)"

fun Path_of :: "SetupParameter list \<Rightarrow> string \<times> bool" where
  "Path_of [] = ([], False)"
| "Path_of (p # ps) =
     (if p_ID p = SetupParamPath then (string_of_bytes (p_Value p), True) else Path_of ps)"

definition Setup_Path :: "SetupMessage \<Rightarrow> string \<times> bool" where
  "Setup_Path sm = Path_of (sm_Parameters sm)"

fun Setup_Len_params :: "nat \<Rightarrow> SetupParameter list \<Rightarrow> nat option" where
  "Setup_Len_params l [] = Some l"
| "Setup_Len_params l (p # ps) =
     do { n \<leftarrow> VarintLen (p_ID p); k \<leftarrow> BytesLen (p_Value p); Setup_Len_params (l + (n + k)) ps }"

definition Setup_Len :: "SetupMessage \<Rightarrow> nat option" where
  "Setup_Len sm =
     do { l \<leftarrow> VarintLen (of_nat (length (sm_Parameters sm)));
          Setup_Len_params l (sm_Parameters sm) }"

fun Setup_Encode_params :: "bytes \<Rightarrow> SetupParameter list \<Rightarrow> bytes option" where
  "Setup_Encode_params b [] = Some b"
| "Setup_Encode_params b (p # ps) =
     do { (b, _) \<leftarrow> WriteVarint b (p_ID p);
          (b, _) \<leftarrow> WriteBytes b (p_Value p);
          Setup_Encode_params b ps }"

definition Setup_Encode :: "SetupMessage \<Rightarrow> bytes option" where
  "Setup_Encode sm =
     do { msgLen \<leftarrow> Setup_Len sm;
          (b, _) \<leftarrow> WriteMessageLength [] (of_nat msgLen);
          (b, _) \<leftarrow> WriteVarint b (of_nat (length (sm_Parameters sm)));
          Setup_Encode_params b (sm_Parameters sm) }"

text \<open>The loop over the parameters: the ones read so far, the set of their IDs, the buffer.\<close>

primrec Setup_loop ::
    "nat \<Rightarrow> SetupMessage \<Rightarrow> SetupParameter list \<Rightarrow> uint64 set \<Rightarrow> bytes \<Rightarrow> SetupMessage decoded" where
  "Setup_loop 0 sm params seen b = finish b (sm\<lparr>sm_Parameters := params\<rparr>)"
| "Setup_loop (Suc k) sm params seen b =
     with_varint b sm (\<lambda>ident b.
     if ident \<in> seen then (Some ErrDuplicateSetupParameter, sm)
     else with_bytes b sm (\<lambda>value b.
     Setup_loop k sm (params @ [\<lparr>p_ID = ident, p_Value = value\<rparr>]) (insert ident seen) b))"

definition Setup_fields :: "SetupMessage \<Rightarrow> bytes \<Rightarrow> SetupMessage decoded" where
  "Setup_fields sm b = with_varint b sm (\<lambda>count b. Setup_loop (unat count) sm [] {} b)"

definition Setup_Decode :: "SetupMessage \<Rightarrow> bytes \<Rightarrow> error option \<times> SetupMessage \<times> bytes" where
  "Setup_Decode sm src = with_body src sm (Setup_fields sm)"

fun params_enc :: "SetupParameter list \<Rightarrow> bytes option" where
  "params_enc [] = Some []"
| "params_enc (p # ps) =
     do { e \<leftarrow> varint (p_ID p); f \<leftarrow> bytes_enc (p_Value p); g \<leftarrow> params_enc ps; Some (e @ f @ g) }"

definition Setup_body :: "SetupMessage \<Rightarrow> bytes option" where
  "Setup_body sm = cat [varint (of_nat (length (sm_Parameters sm))), params_enc (sm_Parameters sm)]"

definition Setup_wf :: "SetupMessage \<Rightarrow> bool" where
  "Setup_wf sm = distinct (map p_ID (sm_Parameters sm))"

lemma Setup_Len_params_enc:
  "Setup_Len_params l ps = map_option (\<lambda>e. l + length e) (params_enc ps)"
  by (induction ps arbitrary: l)
    (simp_all add: len_body_simps option.map_comp o_def split: Option.bind_splits)

lemma Setup_Encode_params_enc:
  "Setup_Encode_params b ps = map_option (\<lambda>e. b @ e) (params_enc ps)"
  by (induction ps arbitrary: b)
    (simp_all add: write_simps flatten_bind option.map_comp o_def split: Option.bind_splits)

lemma params_enc_length: "params_enc ps = Some e \<Longrightarrow> length ps \<le> length e"
  by (induction ps arbitrary: e) (fastforce simp: bind_Some_eq dest!: varint_length bytes_enc_length)+

lemma SetupParameter_fields [simp]: "\<lparr>p_ID = p_ID p, p_Value = p_Value p\<rparr> = p"
  by simp

text \<open>The loop on the encoding of any parameters: all of them, or the first repeated ID.\<close>

lemma Setup_loop_enc:
  "\<lbrakk>params_enc ps = Some e; length e \<le> 65536; seen = p_ID ` set acc; distinct (map p_ID acc)\<rbrakk> \<Longrightarrow>
   Setup_loop (length ps) sm acc seen (e @ x) =
     (if distinct (map p_ID (acc @ ps)) then finish x (sm\<lparr>sm_Parameters := acc @ ps\<rparr>)
      else (Some ErrDuplicateSetupParameter, sm))"
proof (induction ps arbitrary: e acc seen)
  case (Cons p ps)
  then obtain e1 e2 e3 where e: "varint (p_ID p) = Some e1" "bytes_enc (p_Value p) = Some e2"
    "params_enc ps = Some e3" "e = e1 @ e2 @ e3" by (auto simp: bind_Some_eq)
  have "length e2 \<le> 65536" "length e3 \<le> 65536" using e(4) Cons.prems(2) by simp_all
  show ?case
  proof (cases "p_ID p \<in> seen")
    case False
    with Cons.prems(3,4) have "Setup_loop (length ps) sm (acc @ [p]) (insert (p_ID p) seen) (e3 @ x) =
        (if distinct (map p_ID ((acc @ [p]) @ ps)) then finish x (sm\<lparr>sm_Parameters := (acc @ [p]) @ ps\<rparr>)
         else (Some ErrDuplicateSetupParameter, sm))"
      using \<open>length e3 \<le> 65536\<close> by (intro Cons.IH [OF e(3)]) auto
    with False e \<open>length e2 \<le> 65536\<close> show ?thesis by (simp add: with_varint_enc with_enc_small)
  qed (use e Cons.prems(3) in \<open>auto simp: with_varint_enc\<close>)
qed simp

lemmas Setup_loop_enc_end = Setup_loop_enc [where x = "[]", simplified]

interpretation Setup: control_message "[]" Setup_body Setup_Len Setup_Encode Setup_fields Setup_Decode Setup_wf
proof unfold_locales
  show len: "Setup_Len m = map_option length (Setup_body m)" for m
    by (simp add: Setup_Len_def Setup_body_def Setup_Len_params_enc len_body_simps map_conv_bind_option o_def)
  show "Setup_Encode m = do { b \<leftarrow> Setup_body m; e \<leftarrow> bytes_enc b; Some ([] @ e) }" for m
    by (auto simp: Setup_Encode_def len Setup_body_def Setup_Encode_params_enc enc_body_simps
        split: Option.bind_splits)
  show "Setup_Decode m0 src = with_body src m0 (Setup_fields m0)" for m0 src
    by (simp add: Setup_Decode_def)
  fix m m0 :: SetupMessage and b x
  assume b: "Setup_body m = Some b" "length b \<le> 65536" "Setup_wf m"
  then have "length (sm_Parameters m) \<le> 65536"
    by (auto simp: Setup_body_def bind_Some_eq dest!: params_enc_length)
  with b show "fst (Setup_fields m0 (b @ x)) = (if x = [] then None else Some ErrMessageTooShort) \<and>
      (x = [] \<longrightarrow> snd (Setup_fields m0 (b @ x)) = m)"
    by (auto simp: Setup_body_def Setup_fields_def Setup_wf_def bind_Some_eq wire_simps
        Setup_loop_enc Setup_loop_enc_end unat_of_nat_small)
qed

section \<open>What the decoders do on every input\<close>

text \<open>
  A decoder that got a body leaves the reader just after it, whatever the fields are: the next
  message on the stream is read from its own first byte.
\<close>

lemma with_body_reader:
  "readBody src = (Inr b, t) \<Longrightarrow> snd (snd (with_body src m k)) = t"
  by (simp add: with_body_def split: prod.split)

lemma with_body_error:
  "readBody src = (Inl e, t) \<Longrightarrow> with_body src m k = (Some e, m, t)"
  by (simp add: with_body_def)

text \<open>The fields of a redirect are assigned together or not at all.\<close>

lemma SubscribeRedirect_fields_error:
  "SubscribeRedirect_fields srm b = (Some e, m) \<Longrightarrow> m = srm"
  by (auto simp: SubscribeRedirect_fields_def with_string_def split: sum.splits if_splits)

lemma Setup_loop_error: "Setup_loop k sm params seen b = (Some e, m) \<Longrightarrow> e \<noteq> ErrMessageTooShort \<Longrightarrow> m = sm"
  by (induction k arbitrary: params seen b)
    (auto simp: with_varint_def with_bytes_def finish_def split: sum.splits if_splits)

section \<open>The parameters of a SETUP\<close>

lemma ReadVarint_varint_end: "varint i = Some e \<Longrightarrow> ReadVarint e = Inr (i, length e)"
  using ReadVarint_varint [of i e "[]"] by simp

lemma setup_param_ids [simp]:
  "SetupParamProbe \<noteq> SetupParamPath" "SetupParamPath \<noteq> SetupParamProbe"
  "SetupParamProbe \<noteq> SetupParamRedirect" "SetupParamRedirect \<noteq> SetupParamProbe"
  "SetupParamPath \<noteq> SetupParamRedirect" "SetupParamRedirect \<noteq> SetupParamPath"
  by (simp_all add: SetupParamProbe_def SetupParamPath_def SetupParamRedirect_def)

lemma Path_of_append: "Path_of (ps @ qs) = (if snd (Path_of ps) then Path_of ps else Path_of qs)"
  by (induction ps) auto

lemma FollowsRedirect_of_append:
  "FollowsRedirect_of (ps @ qs) =
     (if SetupParamRedirect \<in> p_ID ` set ps then FollowsRedirect_of ps else FollowsRedirect_of qs)"
  by (induction ps) auto

lemma ProbeLevel_of_append:
  "ProbeLevel_of (ps @ qs) =
     (if SetupParamProbe \<in> p_ID ` set ps then ProbeLevel_of ps else ProbeLevel_of qs)"
  by (induction ps) auto

text \<open>The definitions that evaluate an encoding.\<close>

lemmas wire_eval =
  WriteVarint_def VarintLen_def maxVarInt_defs WriteMessageLength_def WriteString_def WriteBytes_def
  WriteStringArray_def StringLen_def BytesLen_def StringArrayLen_def bytes_of_string_def byte_of_char_def varint_def 
  string_enc_def bytes_enc_def

section \<open>Properties\<close>

text \<open>C22 A SETUP that Encode wrote is decoded to the same parameters, whatever the receiver held, with
  the reader left after it, exactly when no parameter ID repeats; with a repeated ID Decode returns
  ErrDuplicateSetupParameter and leaves the receiver alone.\<close>
theorem setup_message_roundtrip:
  assumes "Setup_Encode sm = Some e" "Setup_Len sm = Some n" "n \<le> 65536"
  shows "Setup_Decode sm0 (e @ r) =
    (if distinct (map p_ID (sm_Parameters sm)) then (None, sm, r)
     else (Some ErrDuplicateSetupParameter, sm0, r))"
proof -
  obtain b where b: "Setup_body sm = Some b" "length b = n" "bytes_enc b = Some e"
    using Setup.encodeE [OF assms(1,2)] by auto
  then obtain v f where v: "varint (of_nat (length (sm_Parameters sm))) = Some v"
    "params_enc (sm_Parameters sm) = Some f" "b = v @ f"
    by (auto simp: Setup_body_def bind_Some_eq)
  then have "length f \<le> 65536" "length (sm_Parameters sm) \<le> 65536"
    using b(2) assms(3) params_enc_length [OF v(2)] by auto
  with b v assms(3) show ?thesis
    by (simp add: Setup_Decode_def with_body_def readBody_enc Setup_fields_def with_varint_enc
        Setup_loop_enc_end unat_of_nat_small finish_def)
qed

text \<open>The parameters that AddProbe, AddPath and AddRedirect put into a SETUP without parameters
  are what ProbeLevel, Path and FollowsRedirect read out of it.\<close>
lemma setup_parameters:
  assumes "AddProbe \<lparr>sm_Parameters = []\<rparr> level = Some sm"
  shows "ProbeLevel (AddRedirect (AddPath sm path)) = level \<and>
    Setup_Path (AddRedirect (AddPath sm path)) = (path, True) \<and>
    FollowsRedirect (AddRedirect (AddPath sm path)) \<and>
    \<not> FollowsRedirect (AddPath sm path) \<and>
    Setup_wf (AddRedirect (AddPath sm path))"
  using assms
  by (auto simp: AddProbe_def AddPath_def AddRedirect_def ProbeLevel_def Setup_Path_def FollowsRedirect_def
      Setup_wf_def bind_Some_eq WriteVarint_varint ReadVarint_varint_end)

text \<open>A SUBSCRIBE that Encode wrote, of at most MaxMessageSize bytes, is decoded to the same message
  from the front of any stream, and the rest of the stream is left to the next reader.\<close>
lemma subscribe_message_roundtrip:
  assumes "Subscribe_Encode s = Some e" "Subscribe_Len s = Some n" "n \<le> 65536"
  shows "Subscribe_Decode s0 (e @ r) = (None, s, r)"
  using Subscribe.roundtrip [OF assms] by simp

text \<open>A SUBSCRIBE cut short anywhere is refused with io.EOF or io.ErrUnexpectedEOF and changes
  nothing in the receiver; it is io.EOF when nothing arrived, and also when the stream ends
  right after the length, with none of the body read.\<close>
lemma subscribe_message_truncated:
  assumes "Subscribe_Encode s = Some e" "Subscribe_Len s = Some n" "n \<le> 65536" "k < length e"
  shows "Subscribe_Decode s0 (take k e) =
    (Some (if k = 0 \<or> k = length e - n then EOF else UnexpectedEOF), s0, [])"
  using Subscribe.truncated [OF assms(1,2,3), of k s0] assms(4) by simp

text \<open>A SUBSCRIBE whose body is longer than MaxMessageSize is written by Encode all the same, and
  Decode refuses it without reading the body.\<close>
lemma subscribe_message_too_large:
  assumes "Subscribe_Encode s = Some e" "Subscribe_Len s = Some n" "65536 < n" "n < 2 ^ 62"
  shows "\<exists>rest. Subscribe_Decode s0 (e @ r) = (Some ErrMessageTooLarge, s0, rest)"
  using Subscribe.too_large [OF assms, of s0 r] by simp

text \<open>A run of ANNOUNCE_BROADCAST messages on one stream, hop IDs and all, is read back message by message.\<close>
lemma announce_broadcast_stream:
  assumes "AnnounceBroadcast.encode_all ms = Some e"
    "\<forall>m\<in>set ms. \<exists>n. AnnounceBroadcast_Len m = Some n \<and> n \<le> 65536"
  shows "AnnounceBroadcast.decode_all (length ms) m0 (e @ r) = Inr (ms, r)"
  using AnnounceBroadcast.stream_roundtrip [OF assms(1)] assms(2) by simp

text \<open>An AUTH_OK is written with its Type in front: ReadAuthReplyType takes the Type off and Decode
  then reads the same grant, patterns and expiry.\<close>
lemma auth_ok_roundtrip:
  assumes "AuthOk_Encode m = Some e" "AuthOk_Len m = Some n" "n \<le> 65536"
  shows "\<exists>rest. ReadAuthReplyType (e @ r) = (Inr AuthReplyOK, rest) \<and> AuthOk_Decode m0 rest = (None, m, r)"
proof -
  obtain b f where b: "AuthOk_body m = Some b" "length b = n" "bytes_enc b = Some f" "e = [0] @ f"
    using assms(1,2) by (rule AuthOk.encodeE)
  have "ReadAuthReplyType (e @ r) = (Inr AuthReplyOK, f @ r)"
    using ReadMessageLength_varint [OF auth_types(1), of "f @ r"] b(4) by (simp add: ReadAuthReplyType_def)
  moreover have "AuthOk_Decode m0 (f @ r) = (None, m, r)"
    using AuthOk.roundtrip [OF assms(1-3), of m0 r] b(4) by simp
  ultimately show ?thesis by blast
qed

text \<open>A SUBSCRIBE_REDIRECT that is refused, for whatever reason and on whatever input, leaves the
  receiver as it was: no half of a redirect is ever seen.\<close>
lemma redirect_decode_atomic:
  assumes "SubscribeRedirect_Decode m src = (Some e, m', rest)"
  shows "m' = m"
  using assms SubscribeRedirect_fields_error
  by (auto simp: SubscribeRedirect_Decode_def with_body_def split: prod.splits sum.splits)

text \<open>The status byte of an ANNOUNCE_BROADCAST is the varint on the wire modulo 256, so every
  multiple of 256 is taken for ENDED.\<close>
lemma announce_status_truncated:
  assumes "varint v = Some e" "string_enc suffix = Some f" "length (e @ f) \<le> 65000"
    "bytes_enc (e @ f @ [0]) = Some w"
  shows "AnnounceBroadcast_Decode m0 (w @ r) =
    (None, m0\<lparr>am_AnnounceStatus := ucast v, am_BroadcastPathSuffix := suffix, am_HopIDs := []\<rparr>, r)"
proof -
  have "varint 0 = Some [0]" by (simp add: varint_def WriteVarint_def)
  then have "with_varint [0] m k = k 0 []" for m :: AnnounceBroadcastMessage and k
    using with_varint_enc [of 0 "[0]" "[]"] by simp
  moreover have "length f \<le> 65536" "length (e @ f @ [0]) \<le> 65536" using assms(3) by simp_all
  ultimately show ?thesis
    using readBody_enc [OF assms(4)] assms(1,2)
    by (simp add: AnnounceBroadcast_Decode_def with_body_def AnnounceBroadcast_fields_def
        with_varint_enc with_enc_small finish_def)
qed

section \<open>The properties at concrete messages\<close>

lemma setup_message_roundtrip_witness:
  "Setup_Decode \<lparr>sm_Parameters = []\<rparr> [4, 1, 1, 1, 2, 9] =
     (None, \<lparr>sm_Parameters = [\<lparr>p_ID = 1, p_Value = [2]\<rparr>]\<rparr>, [9])"
  using setup_message_roundtrip [of "\<lparr>sm_Parameters = [\<lparr>p_ID = 1, p_Value = [2]\<rparr>]\<rparr>" "[4, 1, 1, 1, 2]" 4 "\<lparr>sm_Parameters = []\<rparr>" "[9]"]
  by (simp add: Setup_Encode_def Setup_Len_def wire_eval)

definition example_subscribe :: SubscribeMessage where
  "example_subscribe = \<lparr>s_SubscribeID = 4, s_BroadcastPath = ''/a'', s_TrackName = ''v'', s_SubscriberPriority = 200,
     s_SubscriberOrdered = 1, s_SubscriberMaxLatency = 0, s_GroupStart = 0, s_GroupEnd = 300\<rparr>"

lemma example_subscribe:
  "Subscribe_Encode example_subscribe = Some [12, 4, 2, 47, 97, 1, 118, 200, 1, 0, 0, 65, 44]"
  "Subscribe_Len example_subscribe = Some 12"
  by (simp_all add: example_subscribe_def Subscribe_Encode_def Subscribe_Len_def wire_eval)

end
