(* ===== verification/Frames.thy ===== *)
theory Frames
  imports Wire
begin

text \<open>
  Frames and the groups that carry them (moqt/frame.go, moqt/group_writer.go,
  moqt/group_reader.go).

  A frame owns one buffer: 16 bytes for the wire prefix and then the payload, so that a frame is
  written with one Write. \<open>fr_buf\<close> is that buffer (empty for the nil buffer of a zero-value
  Frame) and \<open>fr_len\<close> the length of the payload; the payload is the part of the buffer after
  the header (the code's invariant that \<open>f.body\<close> is a subslice of \<open>f.buf\<close>), and what the buffer
  has room for beyond the header is its capacity. The scratch array \<open>f.header\<close> is not state.
\<close>

section \<open>The frame buffer\<close>

definition frameHeaderSize :: nat where "frameHeaderSize = 16"
definition frameReadChunk :: nat where "frameReadChunk = 64 * 1024"

record Frame =
  fr_Timestamp :: uint64
  fr_buf :: bytes
  fr_len :: nat

definition Frame_Body :: "Frame \<Rightarrow> bytes" where
  "Frame_Body f = take (fr_len f) (drop frameHeaderSize (fr_buf f))"

definition Frame_Len :: "Frame \<Rightarrow> nat" where
  "Frame_Len f = fr_len f"

definition Frame_Cap :: "Frame \<Rightarrow> nat" where
  "Frame_Cap f = length (fr_buf f) - frameHeaderSize"

definition zeroFrame :: Frame where
  "zeroFrame = \<lparr>fr_Timestamp = 0, fr_buf = [], fr_len = 0\<rparr>"

text \<open>\<open>overlay buf i xs\<close> is \<open>copy(buf[i:], xs)\<close> for \<open>xs\<close> that fits.\<close>

definition overlay :: "bytes \<Rightarrow> nat \<Rightarrow> bytes \<Rightarrow> bytes" where
  "overlay buf i xs = take i buf @ xs @ drop (i + length xs) buf"

definition Frame_init :: "nat \<Rightarrow> Frame \<Rightarrow> Frame" where
  "Frame_init cap f =
     f\<lparr>fr_buf := overlay (replicate (frameHeaderSize + cap) 0) frameHeaderSize (Frame_Body f)\<rparr>"

definition NewFrame :: "nat \<Rightarrow> Frame" where
  "NewFrame cap = Frame_init cap zeroFrame"

definition Frame_Reset :: "Frame \<Rightarrow> Frame" where
  "Frame_Reset f = f\<lparr>fr_len := 0\<rparr>"

definition Frame_append :: "bytes \<Rightarrow> Frame \<Rightarrow> Frame" where
  "Frame_append b f =
     (let f = (if length b + Frame_Len f > Frame_Cap f
               then Frame_init (max (Frame_Len f + length b) (2 * Frame_Cap f)) f else f)
      in f\<lparr>fr_buf := overlay (fr_buf f) (frameHeaderSize + Frame_Len f) b, fr_len := Frame_Len f + length b\<rparr>)"

definition Frame_Write :: "bytes \<Rightarrow> Frame \<Rightarrow> nat \<times> Frame" where
  "Frame_Write p f = (length p, Frame_append p f)"

definition Frame_Clone :: "Frame \<Rightarrow> Frame" where
  "Frame_Clone f = Frame_append (Frame_Body f) ((NewFrame (Frame_Cap f))\<lparr>fr_Timestamp := fr_Timestamp f\<rparr>)"

section \<open>Frames on the wire\<close>

definition maxFrameTimestampDelta :: int where "maxFrameTimestampDelta = 2 ^ 61 - 1"
definition minFrameTimestampDelta :: int where "minFrameTimestampDelta = - (2 ^ 61)"

text \<open>
  The bytes handed to the writer, or the error, and the frame, whose header area now holds the
  prefix; None for the panic of slicing a nil buffer.
\<close>

definition Frame_encode :: "uint64 \<Rightarrow> Frame \<Rightarrow> ((error + bytes) \<times> Frame) option" where
  "Frame_encode prevTimestamp f =
     (let signed = fr_Timestamp f - prevTimestamp in
      if sint signed > maxFrameTimestampDelta \<or> sint signed < minFrameTimestampDelta
      then Some (Inl ErrTimestampOutOfRange, f)
      else do {
        let delta = ZigzagEncode signed;
        let l = (of_nat (Frame_Len f) :: uint64);
        (prefix, _) \<leftarrow> WriteVarint [] delta;
        (prefix, _) \<leftarrow> WriteMessageLength prefix l;
        let start = frameHeaderSize - length prefix;
        if start > length (fr_buf f) then None
        else do {
          let f = f\<lparr>fr_buf := overlay (fr_buf f) start prefix\<rparr>;
          let end' = frameHeaderSize + Frame_Len f;
          Some (Inr (take (end' - start) (drop start (fr_buf f))), f) } })"

lemma length_overlay [simp]: "i + length xs \<le> length buf \<Longrightarrow> length (overlay buf i xs) = length buf"
  by (simp add: overlay_def)

text \<open>What the code keeps true of a frame, the zero value included.\<close>

definition frame_inv :: "Frame \<Rightarrow> bool" where
  "frame_inv f \<longleftrightarrow> Frame_Len f \<le> Frame_Cap f"

lemma Frame_init_simps [simp]:
  "fr_len (Frame_init cap f) = fr_len f" "fr_Timestamp (Frame_init cap f) = fr_Timestamp f"
  "Frame_Len (Frame_init cap f) = Frame_Len f"
  by (simp_all add: Frame_init_def Frame_Len_def)

lemma Frame_Body_le: "length (Frame_Body f) \<le> Frame_Len f"
  by (simp add: Frame_Body_def Frame_Len_def)

lemma Frame_init_Cap: "Frame_Len f \<le> cap \<Longrightarrow> Frame_Cap (Frame_init cap f) = cap"
  using Frame_Body_le [of f] by (simp add: Frame_init_def Frame_Cap_def)

text \<open>
  One round of the loop that reads the payload: the buffer grows when it is full, then what fits
  of the payload is read into it, \<open>n\<close> bytes or as many as there are.
\<close>

definition Frame_grow :: "nat \<Rightarrow> Frame \<Rightarrow> Frame" where
  "Frame_grow remaining f =
     (if Frame_Len f = Frame_Cap f
      then Frame_init (min (Frame_Len f + remaining) (max frameReadChunk (2 * Frame_Cap f))) f
      else f)"

definition Frame_fill :: "nat \<Rightarrow> bytes \<Rightarrow> Frame \<Rightarrow> Frame" where
  "Frame_fill n src f =
     f\<lparr>fr_buf := overlay (fr_buf f) (frameHeaderSize + Frame_Len f) (take n src), fr_len := Frame_Len f + n\<rparr>"

lemma Frame_grow_room:
  "remaining \<noteq> 0 \<Longrightarrow> Frame_Len f \<le> Frame_Cap f \<Longrightarrow> Frame_Len (Frame_grow remaining f) < Frame_Cap (Frame_grow remaining f)"
  by (auto simp: Frame_grow_def Frame_init_Cap frameReadChunk_def)

text \<open>
  The loop: the bytes still to come, the frame, the reader. The capacity is never below the
  length (\<open>frame_inv\<close>); the test for it only tells the function definition so.
\<close>

function Frame_read :: "nat \<Rightarrow> Frame \<Rightarrow> bytes \<Rightarrow> error option \<times> Frame \<times> bytes" where
  "Frame_read remaining f src =
     (if remaining = 0 \<or> \<not> frame_inv f then (None, f, src)
      else
        let f = Frame_grow remaining f;
            n = min remaining (Frame_Cap f - Frame_Len f)
        in case ReadFull n src of
             (Inl e, rest) \<Rightarrow> (Some (if e = EOF then UnexpectedEOF else e), Frame_fill n src f, rest)
           | (Inr _, rest) \<Rightarrow> Frame_read (remaining - n) (Frame_fill n src f) rest)"
  by pat_completeness auto
termination
  by (relation "measure fst")
    (use Frame_grow_room in \<open>auto simp: frame_inv_def\<close>)

declare Frame_read.simps [simp del]

definition Frame_decode :: "uint64 \<Rightarrow> Frame \<Rightarrow> bytes \<Rightarrow> error option \<times> Frame \<times> bytes" where
  "Frame_decode prevTimestamp f src =
     (case ReadMessageLength src of
        (Inl e, src) \<Rightarrow> (Some e, f, src)
      | (Inr delta, src) \<Rightarrow>
          let timestamp = prevTimestamp + ZigzagDecode delta in
          if sint timestamp < 0 then (Some ErrTimestampOutOfRange, f, src)
          else
            let f = f\<lparr>fr_Timestamp := timestamp\<rparr> in
            (case ReadMessageLength src of
               (Inl e, src) \<Rightarrow> (Some (if e = EOF then UnexpectedEOF else e), f, src)
             | (Inr num, src) \<Rightarrow>
                 if num = 0 then (None, f\<lparr>fr_len := 0\<rparr>, src)
                 else if num > MaxFrameSize then (Some ErrMessageTooLarge, f, src)
                 else Frame_read (unat num) (f\<lparr>fr_len := 0\<rparr>) src))"

section \<open>The buffer operations\<close>

lemma frame_inv_zero [simp]: "frame_inv zeroFrame"
  by (simp add: frame_inv_def zeroFrame_def Frame_Len_def Frame_Cap_def)

lemma Frame_Cap_zero [simp]: "Frame_Cap zeroFrame = 0"
  by (simp add: zeroFrame_def Frame_Cap_def)

lemma frame_inv_init [simp]: "Frame_Len f \<le> cap \<Longrightarrow> frame_inv (Frame_init cap f)"
  by (simp add: frame_inv_def Frame_init_Cap)

lemma frame_inv_NewFrame [simp]: "frame_inv (NewFrame cap)"
  by (simp add: NewFrame_def zeroFrame_def Frame_Len_def)

lemma frame_inv_Reset [simp]: "frame_inv (Frame_Reset f)"
  by (simp add: frame_inv_def Frame_Reset_def Frame_Len_def)

lemma frame_inv_len0 [simp]: "frame_inv (f\<lparr>fr_len := 0\<rparr>)"
  by (simp add: frame_inv_def Frame_Len_def)

lemma Frame_Body_len0 [simp]: "Frame_Body (f\<lparr>fr_len := 0\<rparr>) = []"
  by (simp add: Frame_Body_def)

lemma Frame_Body_Reset [simp]: "Frame_Body (Frame_Reset f) = []"
  by (simp add: Frame_Reset_def)

lemma Frame_Body_stamp [simp]: "Frame_Body (f\<lparr>fr_Timestamp := t\<rparr>) = Frame_Body f"
  by (simp add: Frame_Body_def)

lemma Frame_Cap_simps [simp]:
  "Frame_Cap (f\<lparr>fr_Timestamp := t\<rparr>) = Frame_Cap f" "Frame_Cap (f\<lparr>fr_len := n\<rparr>) = Frame_Cap f"
  by (simp_all add: Frame_Cap_def)

lemma Frame_Len_simps [simp]:
  "Frame_Len (f\<lparr>fr_Timestamp := t\<rparr>) = Frame_Len f" "Frame_Len (f\<lparr>fr_len := n\<rparr>) = n"
  "Frame_Len (f\<lparr>fr_buf := b\<rparr>) = Frame_Len f"
  by (simp_all add: Frame_Len_def)

lemma frame_inv_stamp [simp]: "frame_inv (f\<lparr>fr_Timestamp := t\<rparr>) = frame_inv f"
  by (simp add: frame_inv_def)

lemma length_Frame_Body: "frame_inv f \<Longrightarrow> length (Frame_Body f) = Frame_Len f"
  by (simp add: frame_inv_def Frame_Body_def Frame_Len_def Frame_Cap_def)

lemma Frame_Body_init [simp]:
  assumes "frame_inv f" "Frame_Len f \<le> cap"
  shows "Frame_Body (Frame_init cap f) = Frame_Body f"
  using length_Frame_Body [OF assms(1)] assms(2)
  by (simp add: Frame_init_def Frame_Body_def [of "f\<lparr>fr_buf := _\<rparr>"] overlay_def Frame_Len_def)

text \<open>Writing behind the payload, into room the buffer has.\<close>

lemma Frame_put_behind:
  assumes "frame_inv f" "Frame_Len f + length xs \<le> Frame_Cap f"
  defines "g \<equiv> f\<lparr>fr_buf := overlay (fr_buf f) (frameHeaderSize + Frame_Len f) xs, fr_len := Frame_Len f + length xs\<rparr>"
  shows "Frame_Body g = Frame_Body f @ xs \<and> frame_inv g \<and> Frame_Cap g = Frame_Cap f"
proof (cases "xs = []")
  case True
  then show ?thesis using assms by (simp add: overlay_def Frame_Len_def)
next
  case False
  then have "0 < length xs" by simp
  then have "frameHeaderSize + Frame_Len f + length xs \<le> length (fr_buf f)"
    using assms(2) unfolding Frame_Cap_def by linarith
  then show ?thesis
    using assms(1,2) by (simp add: g_def frame_inv_def Frame_Body_def Frame_Cap_def Frame_Len_def overlay_def drop_take)
qed

lemma Frame_append:
  assumes "frame_inv f"
  shows "Frame_Body (Frame_append b f) = Frame_Body f @ b" "frame_inv (Frame_append b f)"
    "fr_Timestamp (Frame_append b f) = fr_Timestamp f"
    "length b + Frame_Len f \<le> Frame_Cap f \<Longrightarrow> Frame_Cap (Frame_append b f) = Frame_Cap f"
proof -
  let ?g = "if length b + Frame_Len f > Frame_Cap f
            then Frame_init (max (Frame_Len f + length b) (2 * Frame_Cap f)) f else f"
  have "frame_inv ?g" "Frame_Len ?g + length b \<le> Frame_Cap ?g" "Frame_Body ?g = Frame_Body f"
    "Frame_Len ?g = Frame_Len f"
    using assms by (auto simp: Frame_init_Cap)
  with Frame_put_behind [of ?g b]
  show "Frame_Body (Frame_append b f) = Frame_Body f @ b" "frame_inv (Frame_append b f)"
    "fr_Timestamp (Frame_append b f) = fr_Timestamp f"
    "length b + Frame_Len f \<le> Frame_Cap f \<Longrightarrow> Frame_Cap (Frame_append b f) = Frame_Cap f"
    by (auto simp: Frame_append_def Let_def)
qed

lemma NewFrame_simps [simp]:
  "Frame_Body (NewFrame cap) = []" "Frame_Cap (NewFrame cap) = cap" "Frame_Len (NewFrame cap) = 0"
  "frameHeaderSize \<le> length (fr_buf (NewFrame cap))"
  by (simp_all add: NewFrame_def zeroFrame_def Frame_Len_def Frame_init_Cap Frame_Body_def)
    (simp_all add: Frame_init_def Frame_Body_def overlay_def)

lemma Frame_Clone:
  assumes "frame_inv f"
  shows "Frame_Body (Frame_Clone f) = Frame_Body f" "fr_Timestamp (Frame_Clone f) = fr_Timestamp f"
    "Frame_Cap (Frame_Clone f) = Frame_Cap f"
  using assms length_Frame_Body [OF assms]
    Frame_append [of "(NewFrame (Frame_Cap f))\<lparr>fr_Timestamp := fr_Timestamp f\<rparr>" "Frame_Body f"]
  by (auto simp: Frame_Clone_def frame_inv_def)

section \<open>Reading a payload\<close>

lemma Frame_grow:
  assumes "frame_inv f"
  shows "Frame_Body (Frame_grow k f) = Frame_Body f" "frame_inv (Frame_grow k f)"
    "fr_Timestamp (Frame_grow k f) = fr_Timestamp f" "Frame_Len (Frame_grow k f) = Frame_Len f"
    "Frame_Cap (Frame_grow k f) \<le> max (Frame_Cap f) (max frameReadChunk (2 * Frame_Len f))"
  using assms by (auto simp: Frame_grow_def Frame_init_Cap frame_inv_def)

lemma Frame_fill:
  assumes "frame_inv f" "Frame_Len f + n \<le> Frame_Cap f"
  shows "n \<le> length src \<Longrightarrow> Frame_Body (Frame_fill n src f) = Frame_Body f @ take n src"
    "frame_inv (Frame_fill n src f)" "Frame_Len (Frame_fill n src f) = Frame_Len f + n"
    "Frame_Cap (Frame_fill n src f) = Frame_Cap f" "fr_Timestamp (Frame_fill n src f) = fr_Timestamp f"
proof -
  have l: "length (overlay (fr_buf f) (frameHeaderSize + Frame_Len f) (take n src)) = length (fr_buf f)
      \<or> n = 0"
    using assms(2) by (cases "n = 0") (auto simp: Frame_Cap_def)
  then show c: "Frame_Cap (Frame_fill n src f) = Frame_Cap f"
    by (auto simp: Frame_fill_def Frame_Cap_def overlay_def)
  then show "frame_inv (Frame_fill n src f)"
    using assms(2) by (simp add: frame_inv_def Frame_fill_def)
  show "n \<le> length src \<Longrightarrow> Frame_Body (Frame_fill n src f) = Frame_Body f @ take n src"
    using Frame_put_behind [of f "take n src"] assms by (simp add: Frame_fill_def min.absorb2)
qed (simp_all add: Frame_fill_def)

lemma Frame_read_whole:
  "\<lbrakk>frame_inv f; remaining \<le> length src\<rbrakk> \<Longrightarrow>
   \<exists>g. Frame_read remaining f src = (None, g, drop remaining src) \<and>
     Frame_Body g = Frame_Body f @ take remaining src \<and> frame_inv g \<and> fr_Timestamp g = fr_Timestamp f"
proof (induction remaining f src rule: Frame_read.induct)
  case (1 remaining f src)
  let ?f = "Frame_grow remaining f"
  let ?n = "min remaining (Frame_Cap ?f - Frame_Len ?f)"
  show ?case
  proof (cases "remaining = 0")
    case False
    have R: "ReadFull ?n src = (Inr (take ?n src), drop ?n src)"
      using 1(3) False by (auto simp: ReadFull_def)
    have "Frame_Len ?f + ?n \<le> Frame_Cap ?f"
      using Frame_grow(2) [OF 1(2), of remaining] by (simp add: frame_inv_def)
    note F = Frame_fill [OF Frame_grow(2) [OF 1(2)] this, of src] Frame_grow [OF 1(2)]
    have "\<exists>g. Frame_read (remaining - ?n) (Frame_fill ?n src ?f) (drop ?n src) =
          (None, g, drop (remaining - ?n) (drop ?n src)) \<and>
        Frame_Body g = Frame_Body (Frame_fill ?n src ?f) @ take (remaining - ?n) (drop ?n src) \<and>
        frame_inv g \<and> fr_Timestamp g = fr_Timestamp (Frame_fill ?n src ?f)"
      using False 1(2,3) R F by (intro 1(1)) (auto intro: diff_le_mono)
    moreover have "take ?n src @ take (remaining - ?n) (drop ?n src) = take remaining src"
      by (metis le_add_diff_inverse min.cobounded1 take_add)
    ultimately show ?thesis
      using False 1(2,3) R F by (subst Frame_read.simps) (auto simp: Let_def)
  qed (use 1(2) in \<open>simp add: Frame_read.simps [of 0]\<close>)
qed

text \<open>
  A payload cut short: always a truncated frame, and the buffer has not grown beyond twice what
  arrived (or one chunk, or what it already was).
\<close>

lemma Frame_read_short:
  "\<lbrakk>frame_inv f; length src < remaining\<rbrakk> \<Longrightarrow>
   \<exists>g. Frame_read remaining f src = (Some UnexpectedEOF, g, []) \<and> frame_inv g \<and>
     Frame_Cap g \<le> max (Frame_Cap f) (max frameReadChunk (2 * (Frame_Len f + length src)))"
proof (induction remaining f src rule: Frame_read.induct)
  case (1 remaining f src)
  let ?f = "Frame_grow remaining f"
  let ?n = "min remaining (Frame_Cap ?f - Frame_Len ?f)"
  have le: "Frame_Len ?f + ?n \<le> Frame_Cap ?f"
    using Frame_grow(2) [OF 1(2), of remaining] by (simp add: frame_inv_def)
  note F = Frame_fill [OF Frame_grow(2) [OF 1(2)] le, of src] Frame_grow [OF 1(2), of remaining]
  have cap: "Frame_Cap ?f \<le> max (Frame_Cap f) (max frameReadChunk (2 * (Frame_Len f + length src)))"
    using F(10) by (rule order_trans) auto
  have n: "?n \<noteq> 0" using Frame_grow_room [of remaining f] 1(2,3) by (auto simp: frame_inv_def)
  show ?case
  proof (cases "length src < ?n")
    case True
    then have "fst (ReadFull ?n src) \<in> {Inl EOF, Inl UnexpectedEOF}" "snd (ReadFull ?n src) = []"
      using n by (auto simp: ReadFull_def)
    then show ?thesis
      using 1(2,3) F(2,4) cap by (cases "ReadFull ?n src") (auto simp: Frame_read.simps [of remaining] Let_def)
  next
    case False
    then have R: "ReadFull ?n src = (Inr (take ?n src), drop ?n src)" using n by (auto simp: ReadFull_def)
    have "\<exists>g. Frame_read (remaining - ?n) (Frame_fill ?n src ?f) (drop ?n src) = (Some UnexpectedEOF, g, []) \<and>
        frame_inv g \<and> Frame_Cap g \<le> max (Frame_Cap (Frame_fill ?n src ?f))
          (max frameReadChunk (2 * (Frame_Len (Frame_fill ?n src ?f) + length (drop ?n src))))"
      using 1(2,3) R F False by (intro 1(1)) (auto intro: diff_less_mono)
    then obtain g where g: "Frame_read (remaining - ?n) (Frame_fill ?n src ?f) (drop ?n src) = (Some UnexpectedEOF, g, [])"
      "frame_inv g" "Frame_Cap g \<le> max (Frame_Cap (Frame_fill ?n src ?f))
          (max frameReadChunk (2 * (Frame_Len (Frame_fill ?n src ?f) + length (drop ?n src))))"
      by blast
    have "Frame_Len (Frame_fill ?n src ?f) + length (drop ?n src) = Frame_Len f + length src"
      using False trans [OF F(3) arg_cong [where f = "\<lambda>k. k + ?n", OF F(9)]] unfolding length_drop by linarith
    with g(3) have "Frame_Cap g \<le> max (Frame_Cap ?f) (max frameReadChunk (2 * (Frame_Len f + length src)))"
      unfolding F(4) by (simp only:)
    then have cg: "Frame_Cap g \<le> max (Frame_Cap f) (max frameReadChunk (2 * (Frame_Len f + length src)))"
      using cap by (meson max.bounded_iff max.cobounded2 order_trans)
    have "Frame_read remaining f src = (Some UnexpectedEOF, g, [])"
      using R 1(2,3) g(1) by (subst Frame_read.simps) (simp only: Let_def, simp)
    with g(2) cg show ?thesis by blast
  qed
qed

section \<open>Encoding and decoding\<close>

text \<open>A frame with a buffer of its own: what NewFrame makes and every operation keeps.\<close>

definition frame_ready :: "Frame \<Rightarrow> bool" where
  "frame_ready f \<longleftrightarrow> frame_inv f \<and> frameHeaderSize \<le> length (fr_buf f)"

lemma zigzag_fits:
  assumes "sint d \<le> maxFrameTimestampDelta" "minFrameTimestampDelta \<le> sint d"
  shows "ZigzagEncode d \<le> maxVarInt8"
proof -
  have "uint (ZigzagEncode d) \<le> 2 ^ 62 - 1"
    using assms by (simp add: uint_ZigzagEncode maxFrameTimestampDelta_def minFrameTimestampDelta_def)
  then show ?thesis by (simp add: maxVarInt8_def word_le_def)
qed

lemma varint_length_le: "varint i = Some e \<Longrightarrow> length e \<le> 8"
  using varint_length [of i e] by auto

text \<open>The bytes of a frame: zigzag delta, length, payload.\<close>

lemma Frame_encode_bytes:
  assumes "frame_ready f" "Frame_Len f < 2 ^ 62"
    "sint (fr_Timestamp f - prev) \<le> maxFrameTimestampDelta"
    "minFrameTimestampDelta \<le> sint (fr_Timestamp f - prev)"
  obtains d l g where
    "varint (ZigzagEncode (fr_Timestamp f - prev)) = Some d" "varint (of_nat (Frame_Len f)) = Some l"
    "Frame_encode prev f = Some (Inr (d @ l @ Frame_Body f), g)"
    "Frame_Body g = Frame_Body f" "frame_ready g" "fr_Timestamp g = fr_Timestamp f"
proof -
  obtain d where d: "varint (ZigzagEncode (fr_Timestamp f - prev)) = Some d"
    using varint_fits zigzag_fits assms(3,4) by blast
  have "of_nat (Frame_Len f) \<le> maxVarInt8"
    using assms(2) by (simp add: maxVarInt8_def word_le_nat_alt unat_of_nat)
  then obtain l where l: "varint (of_nat (Frame_Len f)) = Some l" using varint_fits by blast
  let ?start = "frameHeaderSize - length (d @ l)"
  let ?buf = "overlay (fr_buf f) ?start (d @ l)"
  have len: "length (d @ l) \<le> frameHeaderSize"
    using varint_length_le [OF d] varint_length_le [OF l] by (simp add: frameHeaderSize_def)
  have buf: "frameHeaderSize \<le> length (fr_buf f)" "frame_inv f" using assms(1) by (simp_all add: frame_ready_def)
  have split: "?buf = take ?start (fr_buf f) @ (d @ l) @ drop frameHeaderSize (fr_buf f)"
    using len by (simp add: overlay_def)
  have hd: "drop frameHeaderSize ?buf = drop frameHeaderSize (fr_buf f)"
    using len buf unfolding split by simp
  let ?g = "f\<lparr>fr_buf := ?buf\<rparr>"
  have g: "Frame_Body ?g = Frame_Body f" "frame_ready ?g" "fr_Timestamp ?g = fr_Timestamp f"
  proof -
    show "Frame_Body ?g = Frame_Body f" using hd by (simp add: Frame_Body_def)
    have "length ?buf = length (fr_buf f)" using len buf(1) by (intro length_overlay) linarith
    then show "frame_ready ?g" using buf by (simp add: frame_ready_def frame_inv_def Frame_Cap_def)
  qed simp
  have "drop ?start ?buf = (d @ l) @ drop frameHeaderSize (fr_buf f)"
    using len buf unfolding split by simp
  then have "take (frameHeaderSize + Frame_Len f - ?start) (drop ?start ?buf) = d @ l @ Frame_Body f"
    using len by (simp add: Frame_Body_def Frame_Len_def)
  then have "Frame_encode prev f = Some (Inr (d @ l @ Frame_Body f), ?g)"
    using d l len buf assms(3,4)
    by (simp add: Frame_encode_def Let_def not_less WriteVarint_varint WriteMessageLength_def)
  with d l g that show ?thesis by blast
qed

lemma Frame_encode_None:
  "Frame_encode prev f = Some (Inr e, g) \<Longrightarrow>
   sint (fr_Timestamp f - prev) \<le> maxFrameTimestampDelta \<and> minFrameTimestampDelta \<le> sint (fr_Timestamp f - prev)"
  by (auto simp: Frame_encode_def Let_def split: if_splits)

text \<open>What a decoder makes of a frame, whatever its buffer held before.\<close>

lemma Frame_decode_bytes:
  assumes "varint (ZigzagEncode (ts - prev)) = Some d" "varint (of_nat (length p)) = Some l"
    "frame_inv f" "length p \<le> 50 * 1024 * 1024" "0 \<le> sint ts"
  obtains g where "Frame_decode prev f ((d @ l @ p) @ r) = (None, g, r)"
    "Frame_Body g = p" "fr_Timestamp g = ts" "frame_inv g"
proof -
  have n: "unat (of_nat (length p) :: uint64) = length p" using assms(4) by (intro unat_of_nat_small) simp
  have num: "of_nat (length p) = (0 :: uint64) \<longleftrightarrow> p = []" "\<not> of_nat (length p) > MaxFrameSize"
    using n assms(4) by (auto simp: MaxFrameSize_def word_less_nat_alt unat_eq_zero [symmetric])
  have R: "ReadMessageLength ((d @ l @ p) @ r) = (Inr (ZigzagEncode (ts - prev)), l @ p @ r)"
    "ReadMessageLength (l @ p @ r) = (Inr (of_nat (length p)), p @ r)"
    using ReadMessageLength_varint [OF assms(1), of "l @ p @ r"] ReadMessageLength_varint [OF assms(2), of "p @ r"]
    by simp_all
  let ?f = "f\<lparr>fr_Timestamp := ts, fr_len := 0\<rparr>"
  show ?thesis
  proof (cases "p = []")
    case True
    then show ?thesis using R num assms(5) by (intro that [of ?f]) (simp_all add: Frame_decode_def Let_def)
  next
    case False
    obtain g where g: "Frame_read (length p) ?f (p @ r) = (None, g, drop (length p) (p @ r))"
      "Frame_Body g = Frame_Body ?f @ take (length p) (p @ r)" "frame_inv g" "fr_Timestamp g = fr_Timestamp ?f"
      using Frame_read_whole [of ?f "length p" "p @ r"] by auto
    then show ?thesis using R num n False assms(5)
      by (intro that [of g]) (simp_all add: Frame_decode_def Let_def)
  qed
qed

section \<open>Groups\<close>

text \<open>
  A group on the sending side: its sequence, the frames sent, the timestamp the next delta is
  taken from, and what the stream has been given. \<open>werr\<close> is what the transport's Write
  returns for this frame; nothing else of the transport is modelled.
\<close>

record GroupWriter =
  gw_sequence :: uint64
  gw_frameCount :: uint64
  gw_prevTimestamp :: uint64
  gw_stream :: bytes

definition newGroupWriter :: "uint64 \<Rightarrow> GroupWriter" where
  "newGroupWriter sequence = \<lparr>gw_sequence = sequence, gw_frameCount = 0, gw_prevTimestamp = 0, gw_stream = []\<rparr>"

definition WriteFrame :: "error option \<Rightarrow> Frame option \<Rightarrow> GroupWriter \<Rightarrow>
    (error option \<times> Frame option \<times> GroupWriter) option" where
  "WriteFrame werr frame sgs =
     (case frame of
        None \<Rightarrow> Some (None, None, sgs)
      | Some f \<Rightarrow>
          (case Frame_encode (gw_prevTimestamp sgs) f of
             None \<Rightarrow> None
           | Some (Inl e, f) \<Rightarrow> Some (Some e, Some f, sgs)
           | Some (Inr b, f) \<Rightarrow>
               (case werr of
                  Some e \<Rightarrow> Some (Some e, Some f, sgs)
                | None \<Rightarrow>
                    Some (None, Some f,
                      sgs\<lparr>gw_prevTimestamp := fr_Timestamp f, gw_frameCount := gw_frameCount sgs + 1,
                          gw_stream := gw_stream sgs @ b\<rparr>))))"

text \<open>A group on the receiving side. \<open>gr_stopped\<close> says whether \<open>stop\<close> was called.\<close>

record GroupReader =
  gr_sequence :: uint64
  gr_frameCount :: nat
  gr_prevTimestamp :: uint64
  gr_stream :: bytes
  gr_stopped :: bool

definition newGroupReader :: "uint64 \<Rightarrow> bytes \<Rightarrow> GroupReader" where
  "newGroupReader sequence stream =
     \<lparr>gr_sequence = sequence, gr_frameCount = 0, gr_prevTimestamp = 0, gr_stream = stream, gr_stopped = False\<rparr>"

definition ReadFrame :: "Frame \<Rightarrow> GroupReader \<Rightarrow> error option \<times> Frame \<times> GroupReader" where
  "ReadFrame frame s =
     (case Frame_decode (gr_prevTimestamp s) frame (gr_stream s) of
        (Some e, frame, src) \<Rightarrow> (Some e, frame, s\<lparr>gr_stream := src, gr_stopped := True\<rparr>)
      | (None, frame, src) \<Rightarrow>
          (None, frame,
           s\<lparr>gr_stream := src, gr_prevTimestamp := fr_Timestamp frame, gr_frameCount := gr_frameCount s + 1\<rparr>))"

text \<open>
  \<open>Frames\<close>: the timestamps and payloads it yields with one reused buffer, until the first
  error; the number bounds the frames the consumer takes.
\<close>

fun Frames_loop :: "nat \<Rightarrow> Frame \<Rightarrow> GroupReader \<Rightarrow> (uint64 \<times> bytes) list \<times> error option \<times> GroupReader" where
  "Frames_loop 0 buf s = ([], None, s)"
| "Frames_loop (Suc n) buf s =
     (case ReadFrame buf s of
        (Some e, buf, s) \<Rightarrow> ([], Some e, s)
      | (None, buf, s) \<Rightarrow>
          (case Frames_loop n buf s of (fs, e, s) \<Rightarrow> ((fr_Timestamp buf, Frame_Body buf) # fs, e, s)))"

definition Frames :: "nat \<Rightarrow> Frame option \<Rightarrow> GroupReader \<Rightarrow> (uint64 \<times> bytes) list \<times> error option \<times> GroupReader" where
  "Frames n buf s = Frames_loop n (case buf of None \<Rightarrow> NewFrame 0 | Some f \<Rightarrow> f) s"

text \<open>Writing one frame after another; None unless each is written.\<close>

fun write_frames :: "Frame list \<Rightarrow> GroupWriter \<Rightarrow> GroupWriter option" where
  "write_frames [] w = Some w"
| "write_frames (f # fs) w =
     (case WriteFrame None (Some f) w of Some (None, _, w) \<Rightarrow> write_frames fs w | _ \<Rightarrow> None)"

text \<open>A frame a reader takes as well: a timestamp below 2^63, at most MaxFrameSize bytes.\<close>

definition frame_readable :: "Frame \<Rightarrow> bool" where
  "frame_readable f \<longleftrightarrow> frame_ready f \<and> 0 \<le> sint (fr_Timestamp f) \<and> Frame_Len f \<le> 50 * 1024 * 1024"

lemma WriteFrame_frame:
  assumes "WriteFrame None (Some f) w = Some (None, f', w')" "frame_ready f" "Frame_Len f < 2 ^ 62"
  obtains d l where
    "varint (ZigzagEncode (fr_Timestamp f - gw_prevTimestamp w)) = Some d"
    "varint (of_nat (length (Frame_Body f))) = Some l"
    "w' = w\<lparr>gw_prevTimestamp := fr_Timestamp f, gw_frameCount := gw_frameCount w + 1,
            gw_stream := gw_stream w @ d @ l @ Frame_Body f\<rparr>"
proof -
  from assms(1) obtain e g where e: "Frame_encode (gw_prevTimestamp w) f = Some (Inr e, g)"
    by (auto simp: WriteFrame_def split: option.splits sum.splits)
  then obtain d l g' where
    "varint (ZigzagEncode (fr_Timestamp f - gw_prevTimestamp w)) = Some d" "varint (of_nat (Frame_Len f)) = Some l"
    "Frame_encode (gw_prevTimestamp w) f = Some (Inr (d @ l @ Frame_Body f), g')"
    "fr_Timestamp g' = fr_Timestamp f"
    using Frame_encode_bytes [OF assms(2,3)] Frame_encode_None [OF e] by metis
  then show ?thesis
    using assms(1,2) length_Frame_Body [of f] by (intro that) (auto simp: WriteFrame_def frame_ready_def)
qed

lemma ReadFrame_frame:
  assumes "varint (ZigzagEncode (fr_Timestamp f - gr_prevTimestamp s)) = Some d"
    "varint (of_nat (length (Frame_Body f))) = Some l" "frame_readable f" "frame_inv buf"
    "gr_stream s = (d @ l @ Frame_Body f) @ r"
  obtains g where "ReadFrame buf s =
      (None, g, s\<lparr>gr_stream := r, gr_prevTimestamp := fr_Timestamp f, gr_frameCount := gr_frameCount s + 1\<rparr>)"
    "Frame_Body g = Frame_Body f" "fr_Timestamp g = fr_Timestamp f" "frame_inv g"
proof -
  have p: "length (Frame_Body f) \<le> 50 * 1024 * 1024" "0 \<le> sint (fr_Timestamp f)"
    using assms(3) length_Frame_Body [of f] by (simp_all add: frame_readable_def frame_ready_def)
  obtain g where "Frame_decode (gr_prevTimestamp s) buf (gr_stream s) = (None, g, r)"
    "Frame_Body g = Frame_Body f" "fr_Timestamp g = fr_Timestamp f" "frame_inv g"
    using Frame_decode_bytes [OF assms(1,2,4) p] assms(5) by metis
  then show ?thesis by (intro that [of g]) (simp_all add: ReadFrame_def)
qed

text \<open>
  The bytes \<open>out\<close> are the frames \<open>fs\<close> for a reader whose last timestamp is \<open>prev\<close>: it
  yields them in order and goes on with what follows on the stream.
\<close>

definition reads_back :: "Frame list \<Rightarrow> uint64 \<Rightarrow> bytes \<Rightarrow> bool" where
  "reads_back fs prev out \<longleftrightarrow>
     (\<forall>buf s r. frame_inv buf \<and> gr_prevTimestamp s = prev \<and> gr_stream s = out @ r \<longrightarrow>
       (\<exists>buf' s'. gr_stream s' = r \<and> gr_frameCount s' = gr_frameCount s + length fs \<and>
          (\<forall>k. Frames_loop (length fs + k) buf s =
             (case Frames_loop k buf' s' of
                (xs, e, t) \<Rightarrow> (map (\<lambda>f. (fr_Timestamp f, Frame_Body f)) fs @ xs, e, t)))))"

lemma reads_backD:
  assumes "reads_back fs (gr_prevTimestamp s) out" "frame_inv buf" "gr_stream s = out @ r"
  obtains buf' s' where "gr_stream s' = r" "gr_frameCount s' = gr_frameCount s + length fs"
    "\<And>k. Frames_loop (length fs + k) buf s =
       (case Frames_loop k buf' s' of
          (xs, e, t) \<Rightarrow> (map (\<lambda>f. (fr_Timestamp f, Frame_Body f)) fs @ xs, e, t))"
proof -
  have "\<exists>buf' s'. gr_stream s' = r \<and> gr_frameCount s' = gr_frameCount s + length fs \<and>
      (\<forall>k. Frames_loop (length fs + k) buf s =
             (case Frames_loop k buf' s' of
                (xs, e, t) \<Rightarrow> (map (\<lambda>f. (fr_Timestamp f, Frame_Body f)) fs @ xs, e, t)))"
    using assms unfolding reads_back_def by (elim allE [of _ buf] allE [of _ s] allE [of _ r] impE) simp_all
  then show ?thesis by (elim exE conjE) (rule that, simp_all)
qed

lemma reads_back_Nil: "reads_back [] prev []"
  unfolding reads_back_def by fastforce

lemma reads_back_Cons:
  assumes "varint (ZigzagEncode (fr_Timestamp f - prev)) = Some d" "varint (of_nat (length (Frame_Body f))) = Some l"
    "frame_readable f" "reads_back fs (fr_Timestamp f) out"
  shows "reads_back (f # fs) prev ((d @ l @ Frame_Body f) @ out)"
  unfolding reads_back_def
proof (intro allI impI)
  fix buf :: Frame and s :: GroupReader and r :: bytes
  assume s: "frame_inv buf \<and> gr_prevTimestamp s = prev \<and> gr_stream s = ((d @ l @ Frame_Body f) @ out) @ r"
  let ?s = "s\<lparr>gr_stream := out @ r, gr_prevTimestamp := fr_Timestamp f, gr_frameCount := gr_frameCount s + 1\<rparr>"
  obtain g where g: "ReadFrame buf s = (None, g, ?s)"
    "Frame_Body g = Frame_Body f" "fr_Timestamp g = fr_Timestamp f" "frame_inv g"
    using ReadFrame_frame [of f s d l buf "out @ r"] assms s by auto
  obtain buf' s' where s': "gr_stream s' = r" "gr_frameCount s' = gr_frameCount ?s + length fs"
    "\<And>k. Frames_loop (length fs + k) g ?s =
       (case Frames_loop k buf' s' of
          (xs, e, t) \<Rightarrow> (map (\<lambda>f. (fr_Timestamp f, Frame_Body f)) fs @ xs, e, t))"
    by (rule reads_backD [of fs ?s out g r]) (simp_all add: assms g)
  show "\<exists>buf' s'. gr_stream s' = r \<and> gr_frameCount s' = gr_frameCount s + length (f # fs) \<and>
      (\<forall>k. Frames_loop (length (f # fs) + k) buf s =
         (case Frames_loop k buf' s' of
            (xs, e, t) \<Rightarrow> (map (\<lambda>f. (fr_Timestamp f, Frame_Body f)) (f # fs) @ xs, e, t)))"
    using s' g by (intro exI [of _ buf'] exI [of _ s']) (auto split: prod.split)
qed

text \<open>Everything written to a group is read back from it.\<close>

lemma write_frames_read:
  "\<lbrakk>write_frames fs w = Some w'; \<forall>f\<in>set fs. frame_readable f\<rbrakk> \<Longrightarrow>
   \<exists>out. gw_stream w' = gw_stream w @ out \<and> reads_back fs (gw_prevTimestamp w) out"
proof (induction fs arbitrary: w)
  case Nil
  then show ?case using reads_back_Nil by simp
next
  case (Cons f fs)
  then obtain f' w1 where w1: "WriteFrame None (Some f) w = Some (None, f', w1)" "write_frames fs w1 = Some w'"
    by (auto split: option.splits prod.splits)
  have f: "frame_ready f" "Frame_Len f < 2 ^ 62" "frame_readable f" "\<forall>f\<in>set fs. frame_readable f"
    using Cons.prems(2) by (auto simp: frame_readable_def)
  obtain d l where dl: "varint (ZigzagEncode (fr_Timestamp f - gw_prevTimestamp w)) = Some d"
    "varint (of_nat (length (Frame_Body f))) = Some l"
    "w1 = w\<lparr>gw_prevTimestamp := fr_Timestamp f, gw_frameCount := gw_frameCount w + 1,
            gw_stream := gw_stream w @ d @ l @ Frame_Body f\<rparr>"
    using WriteFrame_frame [OF w1(1) f(1,2)] .
  obtain out where out: "gw_stream w' = gw_stream w1 @ out" "reads_back fs (gw_prevTimestamp w1) out"
    using Cons.IH [OF w1(2) f(4)] by blast
  then show ?case
    using reads_back_Cons [OF dl(1,2) f(3)] dl(3)
    by (intro exI [of _ "(d @ l @ Frame_Body f) @ out"]) simp
qed

lemma Frames_loop_EOF:
  "gr_stream s = [] \<Longrightarrow> Frames_loop (Suc n) buf s = ([], Some EOF, s\<lparr>gr_stream := [], gr_stopped := True\<rparr>)"
  by (simp add: ReadFrame_def Frame_decode_def)

section \<open>Properties\<close>

text \<open>C13 Whatever frames a GroupWriter accepts (timestamps below 2^63, payloads up to MaxFrameSize), the
  reader of the finished group yields exactly their timestamps and payloads, in order, through one
  reused buffer, and then io.EOF; the frame counter counts them.\<close>
theorem group_roundtrip:
  assumes "write_frames fs (newGroupWriter q) = Some w" "\<forall>f\<in>set fs. frame_readable f" "n > length fs"
  shows "\<exists>s. Frames n None (newGroupReader q (gw_stream w)) =
      (map (\<lambda>f. (fr_Timestamp f, Frame_Body f)) fs, Some EOF, s) \<and> gr_frameCount s = length fs \<and> gr_stopped s"
proof -
  let ?s = "newGroupReader q (gw_stream w)"
  have R: "reads_back fs (gr_prevTimestamp ?s) (gw_stream w)"
    using write_frames_read [OF assms(1,2)] by (auto simp: newGroupWriter_def newGroupReader_def)
  have "gr_stream ?s = gw_stream w @ []" by (simp add: newGroupReader_def)
  from reads_backD [OF R frame_inv_NewFrame [of 0] this]
  obtain buf' s' where s': "gr_stream s' = []" "gr_frameCount s' = gr_frameCount ?s + length fs"
    "\<And>k. Frames_loop (length fs + k) (NewFrame 0) ?s =
      (case Frames_loop k buf' s' of (xs, e, t) \<Rightarrow> (map (\<lambda>f. (fr_Timestamp f, Frame_Body f)) fs @ xs, e, t))"
    by blast
  obtain k where "n = length fs + Suc k" using assms(3) by (auto dest: less_imp_Suc_add)
  then have "Frames n None ?s = (map (\<lambda>f. (fr_Timestamp f, Frame_Body f)) fs, Some EOF, s'\<lparr>gr_stream := [], gr_stopped := True\<rparr>)"
    using s'(3) [of "Suc k"] Frames_loop_EOF [OF s'(1), of k buf'] by (simp only: Frames_def option.case prod.case append_Nil2)
  then show ?thesis using s'(1,2) by (simp add: newGroupReader_def)
qed

text \<open>Encode refuses exactly the timestamps whose signed 64-bit distance to the previous one does not
  fit 62 zigzag bits; it never panics on a frame with a buffer, and then hands the transport the
  delta, the length and the payload, leaving the payload as it was.\<close>
lemma frame_encode_total:
  assumes "frame_ready f" "Frame_Len f < 2 ^ 62"
  shows "\<exists>g. Frame_Body g = Frame_Body f \<and> frame_ready g \<and>
    (if sint (fr_Timestamp f - prev) \<in> {- (2 ^ 61)..2 ^ 61 - 1}
     then \<exists>d l. varint (ZigzagEncode (fr_Timestamp f - prev)) = Some d \<and> varint (of_nat (Frame_Len f)) = Some l \<and>
       Frame_encode prev f = Some (Inr (d @ l @ Frame_Body f), g)
     else Frame_encode prev f = Some (Inl ErrTimestampOutOfRange, g))"
proof (cases "sint (fr_Timestamp f - prev) \<in> {- (2 ^ 61)..2 ^ 61 - 1}")
  case True
  then have "sint (fr_Timestamp f - prev) \<le> maxFrameTimestampDelta" "minFrameTimestampDelta \<le> sint (fr_Timestamp f - prev)"
    by (simp_all add: maxFrameTimestampDelta_def minFrameTimestampDelta_def)
  from Frame_encode_bytes [OF assms this] True show ?thesis by metis
next
  case False
  then have "Frame_encode prev f = Some (Inl ErrTimestampOutOfRange, f)"
    by (auto simp: Frame_encode_def maxFrameTimestampDelta_def minFrameTimestampDelta_def)
  with False assms show ?thesis by (intro exI [of _ f]) (simp only: if_False simp_thms)
qed

text \<open>C36 A frame whose payload is cut short is io.ErrUnexpectedEOF, never the io.EOF that ends a group, and
  the peer that declared it has made the buffer grow to no more than one chunk or twice the bytes it
  really sent.\<close>
theorem frame_truncated_bounded:
  assumes "varint (ZigzagEncode (ts - prev)) = Some d" "varint (of_nat n) = Some l" "0 \<le> sint ts"
    "n \<le> 50 * 1024 * 1024" "length p < n" "frame_inv f"
  shows "\<exists>g. Frame_decode prev f (d @ l @ p) = (Some UnexpectedEOF, g, []) \<and>
    Frame_Cap g \<le> max (Frame_Cap f) (max (64 * 1024) (2 * length p))"
proof -
  have u: "unat (of_nat n :: uint64) = n" using assms(4) by (intro unat_of_nat_small) simp
  have num: "of_nat n \<noteq> (0 :: uint64)" "\<not> of_nat n > MaxFrameSize"
    using u assms(4,5) by (auto simp: MaxFrameSize_def word_less_nat_alt unat_eq_zero [symmetric])
  obtain g where "Frame_read n (f\<lparr>fr_Timestamp := ts, fr_len := 0\<rparr>) p = (Some UnexpectedEOF, g, [])"
    "Frame_Cap g \<le> max (Frame_Cap f) (max frameReadChunk (2 * length p))"
    using Frame_read_short [of "f\<lparr>fr_Timestamp := ts, fr_len := 0\<rparr>" p n] assms(5) by auto
  then show ?thesis
    using ReadMessageLength_varint [OF assms(1), of "l @ p"] ReadMessageLength_varint [OF assms(2), of p] u num assms(3)
    by (intro exI [of _ g]) (simp add: Frame_decode_def Let_def frameReadChunk_def)
qed

text \<open>A timestamp of 2^63 or more can be written and is then refused by every reader as
  ErrTimestampOutOfRange.\<close>
lemma large_timestamp_unreadable:
  assumes "frame_ready f" "Frame_Len f < 2 ^ 62" "sint (fr_Timestamp f) < 0"
    "Frame_encode prev f = Some (Inr b, g)"
  shows "\<exists>rest. Frame_decode prev f0 (b @ r) = (Some ErrTimestampOutOfRange, f0, rest)"
proof -
  note enc = Frame_encode_None [OF assms(4)]
  obtain d l g' where "varint (ZigzagEncode (fr_Timestamp f - prev)) = Some d" "b = d @ l @ Frame_Body f"
    using Frame_encode_bytes [OF assms(1,2) conjunct1 [OF enc] conjunct2 [OF enc]] assms(4) by (metis Pair_inject option.inject sum.inject(2))
  then show ?thesis
    using ReadMessageLength_varint [of _ d "l @ Frame_Body f @ r"] assms(3) by (simp add: Frame_decode_def Let_def)
qed

text \<open>Encoding a zero-value Frame panics: it has no buffer for the header to go into, also after it
  has been the target of the decoding of an empty frame.\<close>
lemma zero_frame_encode_panics:
  "Frame_encode 0 zeroFrame = None \<and>
   Frame_decode 0 zeroFrame [0, 0] = (None, zeroFrame, [])"
  by (simp add: Frame_encode_def Frame_decode_def zeroFrame_def Frame_Len_def maxFrameTimestampDelta_def
      minFrameTimestampDelta_def ZigzagEncode_def ZigzagDecode_def signed_shift WriteVarint_def WriteMessageLength_def
      maxVarInt1_def frameHeaderSize_def varint_width_def)

text \<open>A Clone has the timestamp, the payload and the capacity of the frame it was made of.\<close>
lemma clone_equal:
  assumes "frame_inv f"
  shows "Frame_Body (Frame_Clone f) = Frame_Body f \<and> fr_Timestamp (Frame_Clone f) = fr_Timestamp f \<and>
    Frame_Cap (Frame_Clone f) = Frame_Cap f"
  using Frame_Clone [OF assms] by blast

section \<open>The properties at concrete frames\<close>

definition example_frame :: Frame where
  "example_frame = \<lparr>fr_Timestamp = 3, fr_buf = replicate 16 0 @ [7, 8, 0], fr_len = 2\<rparr>"

lemma example_frame: "frame_readable example_frame" "frame_ready example_frame" "frame_inv example_frame"
  "Frame_Len example_frame = 2" "Frame_Body example_frame = [7, 8]" "fr_Timestamp example_frame = 3"
  by (simp_all add: example_frame_def frame_readable_def frame_ready_def frame_inv_def Frame_Len_def Frame_Cap_def
      Frame_Body_def frameHeaderSize_def)

lemma group_roundtrip_witness:
  "\<exists>w s. write_frames [example_frame, example_frame] (newGroupWriter 5) = Some w \<and>
     Frames 9 None (newGroupReader 5 (gw_stream w)) = ([(3, [7, 8]), (3, [7, 8])], Some EOF, s)"
proof -
  have "write_frames [example_frame, example_frame] (newGroupWriter 5) \<noteq> None" by code_simp
  then obtain w where w: "write_frames [example_frame, example_frame] (newGroupWriter 5) = Some w" by blast
  show ?thesis using group_roundtrip [OF w, of 9] w example_frame by auto
qed

lemma frame_truncated_bounded_witness:
  "\<exists>g. Frame_decode 0 zeroFrame [6, 3, 7, 8] = (Some UnexpectedEOF, g, []) \<and> Frame_Cap g \<le> 65536"
proof -
  have "varint (ZigzagEncode (3 - 0)) = Some [6]" "varint (of_nat 3) = Some [3]" by code_simp+
  then show ?thesis
    using frame_truncated_bounded [of 3 0 "[6]" 3 "[3]" "[7, 8]" zeroFrame] by simp
qed

end
