(* ===== verification/GoStrings.thy ===== *)
theory GoStrings
  imports Prelude "HOL-Library.Sublist"
begin

text \<open>
  The functions of Go's \<open>strings\<close> and \<open>unicode/utf8\<close> packages that the path, grant and catalog
  code uses, on strings as sequences of bytes, with the facts about splitting at a separator
  the path proofs share. The Unicode tables (\<open>unicode.IsLetter\<close>, \<open>unicode.IsDigit\<close>) are data
  outside the repository and a parameter of the definitions that consult them.
\<close>

section \<open>Prefixes, suffixes, cutting\<close>

definition HasPrefix_str :: "string \<Rightarrow> string \<Rightarrow> bool" where
  "HasPrefix_str s p = (length p \<le> length s \<and> take (length p) s = p)"

definition HasSuffix_str :: "string \<Rightarrow> string \<Rightarrow> bool" where
  "HasSuffix_str s t = (length t \<le> length s \<and> drop (length s - length t) s = t)"

definition CutPrefix :: "string \<Rightarrow> string \<Rightarrow> string \<times> bool" where
  "CutPrefix s p = (if HasPrefix_str s p then (drop (length p) s, True) else (s, False))"

definition CutSuffix :: "string \<Rightarrow> string \<Rightarrow> string \<times> bool" where
  "CutSuffix s t = (if HasSuffix_str s t then (take (length s - length t) s, True) else (s, False))"

definition TrimSuffix :: "string \<Rightarrow> string \<Rightarrow> string" where
  "TrimSuffix s t = (if HasSuffix_str s t then take (length s - length t) s else s)"

text \<open>\<open>strings.Cut\<close> at a one-byte separator: before, after, found.\<close>

fun Cut :: "char \<Rightarrow> string \<Rightarrow> string \<times> string \<times> bool" where
  "Cut sep [] = ([], [], False)"
| "Cut sep (c # cs) =
     (if c = sep then ([], cs, True)
      else case Cut sep cs of (before, after, found) \<Rightarrow> (c # before, after, found))"

definition ContainsAny :: "string \<Rightarrow> string \<Rightarrow> bool" where
  "ContainsAny s chars = list_ex (\<lambda>c. c \<in> set chars) s"

definition Count_byte :: "string \<Rightarrow> char \<Rightarrow> nat" where
  "Count_byte s c = length (filter (\<lambda>x. x = c) s)"

definition IndexByte :: "string \<Rightarrow> char \<Rightarrow> nat" where
  "IndexByte s c = length (takeWhile (\<lambda>x. x \<noteq> c) s)"

text \<open>None for the -1 of the code.\<close>

fun LastIndexByte :: "string \<Rightarrow> char \<Rightarrow> nat option" where
  "LastIndexByte [] c = None"
| "LastIndexByte (x # xs) c =
     (case LastIndexByte xs c of
        Some i \<Rightarrow> Some (Suc i)
      | None \<Rightarrow> if x = c then Some 0 else None)"

lemma HasPrefix_prefix [simp]: "HasPrefix_str s p \<longleftrightarrow> prefix p s"
proof
  assume "HasPrefix_str s p"
  then have "s = p @ drop (length p) s" by (metis HasPrefix_str_def append_take_drop_id)
  then show "prefix p s" by (rule prefixI)
next
  assume "prefix p s"
  then show "HasPrefix_str s p" by (auto simp: HasPrefix_str_def prefix_def)
qed

lemma HasSuffix_suffix [simp]: "HasSuffix_str s t \<longleftrightarrow> suffix t s"
proof
  assume "HasSuffix_str s t"
  then have "s = take (length s - length t) s @ t" by (metis HasSuffix_str_def append_take_drop_id)
  then show "suffix t s" by (rule suffixI)
next
  assume "suffix t s"
  then show "HasSuffix_str s t" by (auto simp: HasSuffix_str_def suffix_def)
qed

lemma Cut_append: "c \<notin> set s \<Longrightarrow> Cut c (s @ c # t) = (s, t, True)"
  by (induction s) auto

lemma Cut_none: "c \<notin> set s \<Longrightarrow> Cut c s = (s, [], False)"
  by (induction s) auto

lemma Cut_cases:
  obtains (found) s' t where "s = s' @ c # t" "c \<notin> set s'" "Cut c s = (s', t, True)"
  | (not_found) "c \<notin> set s" "Cut c s = (s, [], False)"
proof (cases "c \<in> set s")
  case True
  then obtain s' t where "s = s' @ c # t" "c \<notin> set s'" by (meson split_list_first)
  then show ?thesis using found Cut_append by metis
qed (use not_found Cut_none in metis)

lemma LastIndexByte_None: "LastIndexByte s c = None \<longleftrightarrow> c \<notin> set s"
  by (induction s) (auto split: option.splits)

lemma LastIndexByte_append: "c \<notin> set t \<Longrightarrow> LastIndexByte (s @ c # t) c = Some (length s)"
  by (induction s) (auto simp: LastIndexByte_None [symmetric])

section \<open>Splitting at a separator\<close>

text \<open>\<open>strings.Split\<close> and \<open>strings.Join\<close> with a one-byte separator.\<close>

fun Split :: "char \<Rightarrow> string \<Rightarrow> string list" where
  "Split sep [] = [[]]"
| "Split sep (c # cs) =
     (if c = sep then [] # Split sep cs
      else (case Split sep cs of [] \<Rightarrow> [[c]] | p # ps \<Rightarrow> (c # p) # ps))"

fun Join :: "char \<Rightarrow> string list \<Rightarrow> string" where
  "Join sep [] = []"
| "Join sep [p] = p"
| "Join sep (p # q # ps) = p @ sep # Join sep (q # ps)"

lemma Split_neq_Nil [simp]: "Split sep s \<noteq> []"
  by (induction s) (auto split: list.split)

lemma Split_append: "Split sep (s @ sep # t) = Split sep s @ Split sep t"
proof (induction s)
  case (Cons c s)
  then show ?case by (cases "Split sep s") auto
qed simp

lemma Split_none: "sep \<notin> set s \<Longrightarrow> Split sep s = [s]"
  by (induction s) auto

lemma Split_piece: "p \<in> set (Split sep s) \<Longrightarrow> sep \<notin> set p"
proof (induction s arbitrary: p)
  case (Cons c s)
  then show ?case by (cases "Split sep s") (auto split: if_splits)
qed simp

lemma Join_Cons: "ps \<noteq> [] \<Longrightarrow> Join sep (p # ps) = p @ sep # Join sep ps"
  by (cases ps) auto

lemma Join_append: "ps \<noteq> [] \<Longrightarrow> qs \<noteq> [] \<Longrightarrow> Join sep (ps @ qs) = Join sep ps @ sep # Join sep qs"
proof (induction ps)
  case (Cons p ps)
  then show ?case by (cases "ps = []") (auto simp: Join_Cons)
qed simp

lemma Join_Split [simp]: "Join sep (Split sep s) = s"
proof (induction s)
  case (Cons c s)
  then show ?case
    by (cases "Split sep s"; cases "tl (Split sep s)") (auto simp: Join_Cons)
qed simp

lemma Split_Join:
  "ps \<noteq> [] \<Longrightarrow> \<forall>p\<in>set ps. sep \<notin> set p \<Longrightarrow> Split sep (Join sep ps) = ps"
proof (induction ps)
  case (Cons p ps)
  then show ?case
    by (cases "ps = []") (auto simp: Join_Cons Split_append Split_none)
qed simp

lemma Split_inject: "Split sep s = Split sep t \<longleftrightarrow> s = t"
  by (metis Join_Split)

lemma length_Split: "length (Split sep s) = Suc (Count_byte s sep)"
proof (induction s)
  case (Cons c s)
  then show ?case by (cases "Split sep s") (auto simp: Count_byte_def)
qed (simp add: Count_byte_def)

lemma Cut_Split:
  "Cut sep s = (before, after, found) \<Longrightarrow>
   Split sep s = (if found then before # Split sep after else [before]) \<and> (\<not> found \<longrightarrow> after = [])"
  by (rule Cut_cases [where s = s and c = sep]) (auto simp: Split_append Split_none)

section \<open>UTF-8\<close>

text \<open>
  The first rune of a string as \<open>range\<close> and \<open>utf8.DecodeRuneInString\<close> read it: its code point and
  its width; an invalid or incomplete sequence is U+FFFD of width 1.
\<close>

definition RuneError :: nat where "RuneError = 0xFFFD"

definition byte_at :: "string \<Rightarrow> nat \<Rightarrow> nat" where
  "byte_at s i = (if i < length s then of_char (s ! i) else 0)"

definition cont_in :: "nat \<Rightarrow> nat \<Rightarrow> string \<Rightarrow> nat \<Rightarrow> bool" where
  "cont_in lo hi s i = (i < length s \<and> lo \<le> byte_at s i \<and> byte_at s i \<le> hi)"

abbreviation "cont \<equiv> cont_in 0x80 0xBF"

definition rune2 :: "string \<Rightarrow> bool" where
  "rune2 s = (0xC2 \<le> byte_at s 0 \<and> byte_at s 0 \<le> 0xDF \<and> cont s 1)"

definition rune3 :: "string \<Rightarrow> bool" where
  "rune3 s = (let b0 = byte_at s 0 in
     0xE0 \<le> b0 \<and> b0 \<le> 0xEF \<and>
     cont_in (if b0 = 0xE0 then 0xA0 else 0x80) (if b0 = 0xED then 0x9F else 0xBF) s 1 \<and> cont s 2)"

definition rune4 :: "string \<Rightarrow> bool" where
  "rune4 s = (let b0 = byte_at s 0 in
     0xF0 \<le> b0 \<and> b0 \<le> 0xF4 \<and>
     cont_in (if b0 = 0xF0 then 0x90 else 0x80) (if b0 = 0xF4 then 0x8F else 0xBF) s 1 \<and> cont s 2 \<and> cont s 3)"

definition DecodeRune :: "string \<Rightarrow> nat \<times> nat" where
  "DecodeRune s =
     (let b0 = byte_at s 0; x = (\<lambda>i. byte_at s i mod 64) in
      if b0 < 0x80 then (b0, 1)
      else if rune2 s then ((b0 mod 32) * 64 + x 1, 2)
      else if rune3 s then ((b0 mod 16) * 4096 + x 1 * 64 + x 2, 3)
      else if rune4 s then ((b0 mod 8) * 262144 + x 1 * 4096 + x 2 * 64 + x 3, 4)
      else (RuneError, 1))"

lemma rune_length:
  "rune2 s \<Longrightarrow> 2 \<le> length s" "rune3 s \<Longrightarrow> 3 \<le> length s" "rune4 s \<Longrightarrow> 4 \<le> length s"
  by (simp_all add: rune2_def rune3_def rune4_def cont_in_def Let_def)

lemma DecodeRune_width:
  "s \<noteq> [] \<Longrightarrow> 1 \<le> snd (DecodeRune s) \<and> snd (DecodeRune s) \<le> length s \<and> snd (DecodeRune s) \<le> 4"
  by (simp add: DecodeRune_def Let_def rune_length Suc_le_eq)

text \<open>The runes of a string.\<close>

function runes :: "string \<Rightarrow> nat list" where
  "runes s = (if s = [] then [] else fst (DecodeRune s) # runes (drop (snd (DecodeRune s)) s))"
  by pat_completeness auto
termination
  by (relation "measure length") (auto intro!: diff_less dest!: DecodeRune_width)

declare runes.simps [simp del]

text \<open>\<open>utf8.ValidString\<close>: no sequence is taken for the error rune at width 1.\<close>

function ValidString :: "string \<Rightarrow> bool" where
  "ValidString s =
     (if s = [] then True
      else DecodeRune s \<noteq> (RuneError, 1) \<and> ValidString (drop (snd (DecodeRune s)) s))"
  by pat_completeness auto
termination
  by (relation "measure length") (auto intro!: diff_less dest!: DecodeRune_width)

declare ValidString.simps [simp del]

text \<open>\<open>utf8.RuneStart\<close>: not a continuation byte.\<close>

definition RuneStart :: "char \<Rightarrow> bool" where
  "RuneStart c = (of_char c div 64 \<noteq> (2 :: nat))"

text \<open>
  \<open>strings.ToValidUTF8\<close>: each run of invalid bytes becomes one replacement; the flag says whether
  the byte before was invalid.
\<close>

function ToValid :: "string \<Rightarrow> bool \<Rightarrow> string \<Rightarrow> string" where
  "ToValid rep invalid s =
     (if s = [] then []
      else if DecodeRune s = (RuneError, 1)
      then (if invalid then [] else rep) @ ToValid rep True (drop 1 s)
      else take (snd (DecodeRune s)) s @ ToValid rep False (drop (snd (DecodeRune s)) s))"
  by pat_completeness auto
termination
  by (relation "measure (\<lambda>(rep, invalid, s). length s)") (auto intro!: diff_less dest!: DecodeRune_width)

declare ToValid.simps [simp del]

definition ToValidUTF8 :: "string \<Rightarrow> string \<Rightarrow> string" where
  "ToValidUTF8 s rep = ToValid rep False s"

text \<open>A rune is decoded from its own bytes alone.\<close>

lemma byte_at_take: "i < n \<Longrightarrow> byte_at (take n s) i = byte_at s i"
  by (simp add: byte_at_def)

lemma cont_in_take: "i < n \<Longrightarrow> cont_in lo hi (take n s) i = cont_in lo hi s i"
  by (auto simp: cont_in_def byte_at_take)

lemma rune_take:
  "2 \<le> n \<Longrightarrow> rune2 (take n s) = rune2 s" "3 \<le> n \<Longrightarrow> rune3 (take n s) = rune3 s"
  "4 \<le> n \<Longrightarrow> rune4 (take n s) = rune4 s"
  by (simp_all add: rune2_def rune3_def rune4_def Let_def byte_at_take cont_in_take)

lemma rune_exclusive: "rune2 s \<Longrightarrow> \<not> rune3 s" "rune2 s \<Longrightarrow> \<not> rune4 s" "rune3 s \<Longrightarrow> \<not> rune4 s"
  by (auto simp: rune2_def rune3_def rune4_def Let_def)

text \<open>A string that starts with a valid rune of \<open>n\<close> bytes.\<close>

definition leads :: "nat \<Rightarrow> string \<Rightarrow> bool" where
  "leads n s \<longleftrightarrow> n = 1 \<and> s \<noteq> [] \<and> byte_at s 0 < 0x80 \<or> n = 2 \<and> rune2 s \<or> n = 3 \<and> rune3 s \<or> n = 4 \<and> rune4 s"

lemma leads_not_ascii: "rune2 s \<or> rune3 s \<or> rune4 s \<Longrightarrow> 0x80 \<le> byte_at s 0"
  by (auto simp: rune2_def rune3_def rune4_def Let_def)

lemma valid_rune_leads:
  "s \<noteq> [] \<Longrightarrow> DecodeRune s \<noteq> (RuneError, 1) \<Longrightarrow> leads (snd (DecodeRune s)) s"
  by (auto simp: DecodeRune_def leads_def Let_def split: if_splits)

lemma leads_valid_rune:
  "leads n s \<Longrightarrow> snd (DecodeRune s) = n \<and> DecodeRune s \<noteq> (RuneError, 1) \<and> s \<noteq> []"
proof -
  assume "leads n s"
  then consider "n = 1" "s \<noteq> []" "byte_at s 0 < 0x80" | "n = 2" "rune2 s" | "n = 3" "rune3 s" | "n = 4" "rune4 s"
    by (auto simp: leads_def)
  then show ?thesis
  proof cases
    case 1 then show ?thesis by (simp add: DecodeRune_def RuneError_def)
  next
    case 2 then show ?thesis using leads_not_ascii [of s] rune_length(1) [of s]
      by (auto simp: DecodeRune_def Let_def)
  next
    case 3 then show ?thesis using leads_not_ascii [of s] rune_length(2) [of s] rune_exclusive [of s]
      by (auto simp: DecodeRune_def Let_def)
  next
    case 4 then show ?thesis using leads_not_ascii [of s] rune_length(3) [of s] rune_exclusive [of s]
      by (auto simp: DecodeRune_def Let_def)
  qed
qed

lemma leads_length: "leads n s \<Longrightarrow> 1 \<le> n \<and> n \<le> length s"
  using leads_valid_rune [of n s] DecodeRune_width [of s] by auto

lemma leads_take: "leads n s \<Longrightarrow> n \<le> k \<Longrightarrow> leads n (take k s)"
  using leads_length [of n s] by (auto simp: leads_def rune_take byte_at_take)

lemma leads_take_iff: "leads n (take n u) \<longleftrightarrow> leads n u"
  by (auto simp: leads_def rune_take byte_at_take)

lemma leads_append: "leads n s \<Longrightarrow> leads n (take n s @ t)"
proof -
  assume l: "leads n s"
  then have "take n (take n s @ t) = take n s" using leads_length by simp
  then show ?thesis using l leads_take_iff by metis
qed

text \<open>The bytes after the first are continuation bytes.\<close>

lemma cont_RuneStart: "cont_in lo hi s i \<Longrightarrow> 0x80 \<le> lo \<Longrightarrow> hi \<le> 0xBF \<Longrightarrow> \<not> RuneStart (s ! i)"
  by (auto simp: cont_in_def byte_at_def RuneStart_def split: if_splits)

lemma rune_continue:
  "rune2 s \<Longrightarrow> cont s 1" "rune3 s \<Longrightarrow> cont s 1 \<and> cont s 2" "rune4 s \<Longrightarrow> cont s 1 \<and> cont s 2 \<and> cont s 3"
  by (auto simp: rune2_def rune3_def rune4_def Let_def cont_in_def split: if_splits)

lemma leads_continue: "leads n s \<Longrightarrow> 0 < i \<Longrightarrow> i < n \<Longrightarrow> \<not> RuneStart (s ! i)"
proof -
  assume "leads n s" "0 < i" "i < n"
  moreover from this have "n \<le> 4" by (auto simp: leads_def)
  moreover from this \<open>i < n\<close> have "i < 4" by simp
  then have "i = 0 \<or> i = 1 \<or> i = 2 \<or> i = 3" by linarith
  ultimately consider "n = 2" "rune2 s" "i = 1" | "n = 3" "rune3 s" "i = 1 \<or> i = 2"
    | "n = 4" "rune4 s" "i = 1 \<or> i = 2 \<or> i = 3"
    by (auto simp: leads_def)
  then have "cont s i"
    by cases (auto dest: rune_continue)
  then show ?thesis by (rule cont_RuneStart) simp_all
qed

lemma ValidString_leads: "leads n s \<Longrightarrow> ValidString s = ValidString (drop n s)"
  using leads_valid_rune [of n s] by (subst ValidString.simps) auto

lemma ValidString_step:
  "ValidString s \<Longrightarrow> s = [] \<or> (\<exists>n. leads n s \<and> ValidString (drop n s))"
  by (subst (asm) ValidString.simps) (auto dest: valid_rune_leads split: if_splits)

lemma ValidString_Nil [simp]: "ValidString []"
  by (simp add: ValidString.simps)

lemma ValidString_put:
  "leads n s \<Longrightarrow> ValidString t \<Longrightarrow> ValidString (take n s @ t)"
  using ValidString_leads [OF leads_append, of n s t] leads_length [of n s] by simp

text \<open>Cutting a valid string before a byte that starts a rune leaves a valid string.\<close>

lemma ValidString_cut:
  "ValidString s \<Longrightarrow> k < length s \<Longrightarrow> RuneStart (s ! k) \<Longrightarrow> ValidString (take k s)"
proof (induction "length s" arbitrary: s k rule: less_induct)
  case less
  show ?case
  proof (cases "k = 0")
    case False
    obtain n where n: "leads n s" "ValidString (drop n s)"
      using ValidString_step [OF less.prems(1)] less.prems(2) by auto
    have nk: "n \<le> k" using leads_continue [OF n(1), of k] less.prems(3) False by (meson not_le_imp_less gr0I)
    note len = leads_length [OF n(1)]
    have "ValidString (take (k - n) (drop n s))"
      using less.prems n nk len by (intro less.hyps) auto
    then have "ValidString (take n s @ take (k - n) (drop n s))" by (rule ValidString_put [OF n(1)])
    then show ?thesis using nk by (metis le_add_diff_inverse take_add)
  qed simp
qed

lemma ValidString_append: "ValidString r \<Longrightarrow> ValidString t \<Longrightarrow> ValidString (r @ t)"
proof (induction "length r" arbitrary: r rule: less_induct)
  case less
  show ?case
  proof (cases "r = []")
    case False
    then obtain n where n: "leads n r" "ValidString (drop n r)" using ValidString_step less.prems(1) by auto
    have "ValidString (drop n r @ t)" using n less.prems(2) leads_length [OF n(1)] by (intro less.hyps) auto
    then have "ValidString (take n r @ drop n r @ t)" by (rule ValidString_put [OF n(1)])
    then show ?thesis by (simp only: append.assoc [symmetric] append_take_drop_id)
  qed (use less.prems(2) in simp)
qed

lemma ToValid_valid: "ValidString rep \<Longrightarrow> ValidString (ToValid rep invalid s)"
proof (induction rep invalid s rule: ToValid.induct)
  case (1 rep invalid s)
  show ?case
  proof (cases "s = [] \<or> DecodeRune s = (RuneError, 1)")
    case True
    then show ?thesis using 1 by (subst ToValid.simps) (auto intro: ValidString_append)
  next
    case False
    then show ?thesis
      using 1 valid_rune_leads [of s] by (subst ToValid.simps) (auto intro: ValidString_put)
  qed
qed

lemma ToValid_id: "ValidString s \<Longrightarrow> ToValid rep invalid s = s"
proof (induction "length s" arbitrary: invalid s rule: less_induct)
  case less
  show ?case
  proof (cases "s = []")
    case False
    then obtain n where n: "leads n s" "ValidString (drop n s)" using ValidString_step less.prems by auto
    then have "ToValid rep False (drop n s) = drop n s"
      using leads_length [OF n(1)] False by (intro less.hyps) auto
    then show ?thesis using False leads_valid_rune [OF n(1)] by (subst ToValid.simps) auto
  qed (simp add: ToValid.simps)
qed

end
