(* ===== verification/Paths.thy ===== *)
theory Paths
  imports GoStrings
begin

text \<open>
  Broadcast paths and the patterns that name sets of them: moqt/broadcast_path.go,
  moqt/path_pattern.go, and the validity checks and segment functions of moqt/mux.go.

  The specification of matching is over the list of segments of a path
  (\<open>segs_match\<close>); the code cuts the path at one slash after the other.
\<close>

type_synonym BroadcastPath = string

section \<open>Broadcast paths\<close>

definition HasPrefix :: "BroadcastPath \<Rightarrow> string \<Rightarrow> bool" where
  "HasPrefix bc p = (if length bc < length p then False else HasPrefix_str bc p)"

definition GetSuffix :: "BroadcastPath \<Rightarrow> string \<Rightarrow> string \<times> bool" where
  "GetSuffix bc p = (if \<not> HasPrefix bc p then ([], False) else (drop (length p) bc, True))"

definition Extension :: "BroadcastPath \<Rightarrow> string" where
  "Extension bc = (case LastIndexByte bc CHR ''.'' of Some i \<Rightarrow> drop i bc | None \<Rightarrow> [])"

definition Equal :: "BroadcastPath \<Rightarrow> BroadcastPath \<Rightarrow> bool" where
  "Equal bc target = (bc = target)"

definition isValidPath :: "BroadcastPath \<Rightarrow> bool" where
  "isValidPath path = (length path > 0 \<and> path ! 0 = CHR ''/'')"

definition isValidPrefix :: "string \<Rightarrow> bool" where
  "isValidPrefix p =
     (if length p = 0 then False
      else p ! 0 = CHR ''/'' \<and> (length p = 1 \<or> p ! (length p - 1) = CHR ''/''))"

section \<open>Segments\<close>

text \<open>The loop both functions end with: the segments so far, the current one, the bytes to come.\<close>

fun segments_loop :: "string list \<Rightarrow> string \<Rightarrow> string \<Rightarrow> string list" where
  "segments_loop segments cur [] = segments @ [cur]"
| "segments_loop segments cur (c # cs) =
     (if c = CHR ''/'' then segments_loop (segments @ [cur]) [] cs
      else segments_loop segments (cur @ [c]) cs)"

definition cut_segments :: "string \<Rightarrow> string list" where
  "cut_segments str =
     (let n = Count_byte str CHR ''/'' in
      if n = 0 then [str]
      else if n = 1 then (let idx = IndexByte str CHR ''/'' in [take idx str, drop (idx + 1) str])
      else segments_loop [] [] str)"

definition prefixSegments :: "string \<Rightarrow> string list" where
  "prefixSegments p =
     (if length p \<le> 2 then []
      else cut_segments (take (length p - 2) (drop 1 p)))"

definition pathSegments :: "BroadcastPath \<Rightarrow> string list \<times> string" where
  "pathSegments p =
     (if length p \<le> 1 then (if p = ''/'' then ([], []) else ([], p))
      else
        (case LastIndexByte p CHR ''/'' of
           None \<Rightarrow> ([], drop 1 p)
         | Some i \<Rightarrow>
             if i = 0 then ([], drop 1 p)
             else (cut_segments (take (i - 1) (drop 1 p)), drop (i + 1) p)))"

section \<open>Patterns\<close>

datatype path_error = ErrInvalidPathPattern

text \<open>The Unicode tables the wildcard names are checked with.\<close>

record unicode =
  u_IsLetter :: "nat \<Rightarrow> bool"
  u_IsDigit :: "nat \<Rightarrow> bool"

datatype segKind = segInvalid | segLiteral | segWildcard | segRest | segAnchor

record patternSeg =
  ps_kind :: segKind
  ps_lit :: string

record PathPattern =
  pp_raw :: string
  pp_segs :: "patternSeg list option"
  pp_trailing :: bool

definition zeroPattern :: PathPattern where
  "zeroPattern = \<lparr>pp_raw = [], pp_segs = None, pp_trailing = False\<rparr>"

definition isWildcardName :: "unicode \<Rightarrow> string \<Rightarrow> bool" where
  "isWildcardName U s =
     (s \<noteq> [] \<and>
      (case runes s of
         [] \<Rightarrow> True
       | c # cs \<Rightarrow> (u_IsLetter U c \<or> c = 95) \<and> list_all (\<lambda>c. u_IsLetter U c \<or> c = 95 \<or> u_IsDigit U c) cs))"

definition parseWildcard :: "unicode \<Rightarrow> string \<Rightarrow> string \<times> segKind" where
  "parseWildcard U seg =
     (case CutPrefix seg ''{'' of
        (inner, ok) \<Rightarrow>
          if \<not> ok then (if ContainsAny seg ''{}'' then ([], segInvalid) else ([], segLiteral))
          else
            (case CutSuffix inner ''}'' of
               (inner, ok) \<Rightarrow>
                 if \<not> ok then ([], segInvalid)
                 else if inner = ''$'' then ([], segAnchor)
                 else
                   (case CutSuffix inner ''...'' of
                      (name, ok) \<Rightarrow>
                        let kind = (if ok then segRest else segWildcard);
                            name = (if ok then name else inner)
                        in if \<not> isWildcardName U name then ([], segInvalid) else (name, kind))))"

definition segs_of :: "PathPattern \<Rightarrow> patternSeg list" where
  "segs_of p = (case pp_segs p of None \<Rightarrow> [] | Some l \<Rightarrow> l)"

lemma Cut_shorter: "Cut c s = (seg, next', True) \<Longrightarrow> length next' < length s"
  by (rule Cut_cases [where s = s and c = c]) auto

function (sequential) parse_segs ::
    "unicode \<Rightarrow> PathPattern \<Rightarrow> string list \<Rightarrow> string \<Rightarrow> path_error + PathPattern" where
  "parse_segs U p names segs =
     (case Cut CHR ''/'' segs of
        (seg, next', found) \<Rightarrow>
          let (name, kind) = parseWildcard U seg;
              last = (\<not> found \<and> \<not> pp_trailing p)
          in if kind = segInvalid \<or> kind = segAnchor \<and> \<not> last \<or> kind = segRest \<and> \<not> last \<or>
                name \<noteq> [] \<and> name \<in> set names
             then Inl ErrInvalidPathPattern
             else
               let names = (if name \<noteq> [] then names @ [name] else names);
                   ps = \<lparr>ps_kind = kind, ps_lit = (if kind = segLiteral then seg else [])\<rparr>;
                   p = p\<lparr>pp_segs := Some (segs_of p @ [ps])\<rparr>
               in if \<not> found then Inr p else parse_segs U p names next')"
  by pat_completeness auto
termination
  by (relation "measure (\<lambda>(U, p, names, segs). length segs)") (auto dest!: sym [of "(_, _, _)"] Cut_shorter)

declare parse_segs.simps [simp del]

definition ParsePathPattern :: "unicode \<Rightarrow> string \<Rightarrow> path_error + PathPattern" where
  "ParsePathPattern U s =
     (if \<not> isValidPath s then Inl ErrInvalidPathPattern
      else if \<not> ContainsAny s ''{}'' then Inr \<lparr>pp_raw = s, pp_segs = None, pp_trailing = False\<rparr>
      else parse_segs U \<lparr>pp_raw = s, pp_segs = None, pp_trailing = HasSuffix_str s ''/''\<rparr> []
             (TrimSuffix (drop 1 s) ''/''))"

fun matchSegs :: "patternSeg list \<Rightarrow> bool \<Rightarrow> string \<Rightarrow> bool" where
  "matchSegs [] trailing rest = False"
| "matchSegs (seg # segs) trailing rest =
     (case ps_kind seg of
        segAnchor \<Rightarrow> rest = []
      | segRest \<Rightarrow> True
      | _ \<Rightarrow>
          (case Cut CHR ''/'' rest of
             (got, after, found) \<Rightarrow>
               if (if ps_kind seg = segWildcard then got = [] else got \<noteq> ps_lit seg) then False
               else if segs = [] then found = trailing
               else if \<not> found then False
               else matchSegs segs trailing after))"

definition matchSegments :: "PathPattern \<Rightarrow> BroadcastPath \<Rightarrow> bool" where
  "matchSegments p path =
     (if \<not> isValidPath path then False else matchSegs (segs_of p) (pp_trailing p) (drop 1 path))"

definition Match :: "PathPattern \<Rightarrow> BroadcastPath \<Rightarrow> bool" where
  "Match p path =
     (if pp_segs p \<noteq> None then matchSegments p path
      else if isValidPrefix (pp_raw p) then HasPrefix path (pp_raw p)
      else pp_raw p \<noteq> [] \<and> path = pp_raw p)"

definition isValidGrantRoot :: "string \<Rightarrow> bool" where
  "isValidGrantRoot root = (isValidPrefix root \<and> \<not> ContainsAny root ''{}'')"

definition joinPattern :: "unicode \<Rightarrow> string \<Rightarrow> string \<Rightarrow> path_error + PathPattern" where
  "joinPattern U root pattern =
     (if \<not> HasPrefix_str pattern ''/'' then Inl ErrInvalidPathPattern
      else ParsePathPattern U (TrimSuffix root ''/'' @ pattern))"

definition ParseGrantPattern :: "unicode \<Rightarrow> string \<Rightarrow> string \<Rightarrow> path_error + PathPattern" where
  "ParseGrantPattern U root pattern =
     (if \<not> isValidGrantRoot root then Inl ErrInvalidPathPattern else joinPattern U root pattern)"

section \<open>Segments are the pieces between slashes\<close>

abbreviation "slash \<equiv> CHR ''/''"

lemma segments_loop_Split:
  "segments_loop segments cur str = segments @ (cur @ hd (Split slash str)) # tl (Split slash str)"
  by (induction segments cur str rule: segments_loop.induct) (auto split: list.split)

lemma Count_byte_0: "Count_byte s c = 0 \<longleftrightarrow> c \<notin> set s"
  by (auto simp: Count_byte_def filter_empty_conv)

lemma IndexByte_append: "c \<notin> set s \<Longrightarrow> IndexByte (s @ c # t) c = length s"
  by (auto simp: IndexByte_def takeWhile_append)

text \<open>The special cases for no and for one slash compute what the loop does.\<close>

lemma cut_segments_Split: "cut_segments str = Split slash str"
proof -
  consider "Count_byte str slash = 0" | "Count_byte str slash = 1" | "Count_byte str slash > 1" by linarith
  then show ?thesis
  proof cases
    case 1
    then show ?thesis by (simp add: cut_segments_def Count_byte_0 Split_none)
  next
    case 2
    then have "slash \<in> set str" using Count_byte_0 [of str slash] by auto
    then obtain x y where xy: "str = x @ slash # y" "slash \<notin> set x" by (meson split_list_first)
    then have "slash \<notin> set y" using 2 Count_byte_0 [of x slash] Count_byte_0 [of y slash] by (simp add: Count_byte_def)
    with xy 2 show ?thesis by (simp add: cut_segments_def IndexByte_append Split_append Split_none)
  next
    case 3
    then show ?thesis
      by (simp add: cut_segments_def segments_loop_Split)
  qed
qed

lemma isValidPath_Cons: "isValidPath q \<longleftrightarrow> (\<exists>s. q = slash # s)"
  by (cases q) (auto simp: isValidPath_def)

lemma isValidPrefix_cases: "isValidPrefix p \<longleftrightarrow> p = [slash] \<or> (\<exists>x. p = slash # x @ [slash])"
proof
  assume "isValidPrefix p"
  then obtain t where t: "p = slash # t" "t = [] \<or> t ! (length t - 1) = slash"
    by (cases p) (auto simp: isValidPrefix_def nth_Cons' split: if_splits)
  then show "p = [slash] \<or> (\<exists>x. p = slash # x @ [slash])"
    by (cases t rule: rev_cases) auto
qed (auto simp: isValidPrefix_def nth_append)

lemma pathSegments_Split:
  assumes "isValidPath q"
  shows "pathSegments q = (butlast (Split slash (tl q)), last (Split slash (tl q)))"
proof -
  obtain s where q: "q = slash # s" using assms by (auto simp: isValidPath_Cons)
  show ?thesis
  proof (cases "slash \<in> set s")
    case False
    then have "LastIndexByte s slash = None" by (simp add: LastIndexByte_None)
    with False q show ?thesis by (simp add: pathSegments_def Split_none)
  next
    case True
    then obtain x y where xy: "s = x @ slash # y" "slash \<notin> set y" by (meson split_list_last)
    then have "LastIndexByte q slash = Some (Suc (length x))"
      using LastIndexByte_append [of slash y "slash # x"] q by simp
    with xy q show ?thesis
      by (simp add: pathSegments_def cut_segments_Split Split_append Split_none)
  qed
qed

text \<open>The prefix "//" is the one whose empty segment is lost.\<close>

lemma prefixSegments_Split:
  assumes "isValidPrefix p" "p \<noteq> ''//''"
  shows "prefixSegments p = butlast (Split slash (tl p))"
proof -
  consider "p = [slash]" | x where "p = slash # x @ [slash]" "x \<noteq> []"
    using assms by (auto simp: isValidPrefix_cases)
  then show ?thesis
  proof cases
    case (2 x)
    then show ?thesis
      using Split_append [of slash x "[]"] by (simp add: prefixSegments_def cut_segments_Split not_le)
  qed (simp add: prefixSegments_def)
qed

text \<open>A prefix and the segments beneath it.\<close>

lemma prefix_Split_iff:
  "prefix (x @ [slash]) s \<longleftrightarrow> prefix (Split slash x) (butlast (Split slash s))"
proof
  assume "prefix (x @ [slash]) s"
  then obtain y where "s = x @ slash # y" by (auto simp: prefix_def)
  then show "prefix (Split slash x) (butlast (Split slash s))"
    by (simp add: Split_append butlast_append)
next
  assume "prefix (Split slash x) (butlast (Split slash s))"
  then obtain zs where "butlast (Split slash s) = Split slash x @ zs" by (auto simp: prefix_def)
  then have "Split slash s = Split slash x @ zs @ [last (Split slash s)]"
    by (metis Split_neq_Nil append.assoc append_butlast_last_id)
  then have "Join slash (Split slash s) = Join slash (Split slash x) @ slash # Join slash (zs @ [last (Split slash s)])"
    by (metis Join_append Split_neq_Nil append_is_Nil_conv list.distinct(1))
  then show "prefix (x @ [slash]) s" by (auto simp: prefix_def)
qed

section \<open>What Match accepts\<close>

definition seg_ok :: "patternSeg \<Rightarrow> string \<Rightarrow> bool" where
  "seg_ok ps got = (if ps_kind ps = segWildcard then got \<noteq> [] else got = ps_lit ps)"

text \<open>Matching over the segments of the path.\<close>

fun segs_match :: "patternSeg list \<Rightarrow> bool \<Rightarrow> string list \<Rightarrow> bool" where
  "segs_match [] trailing gs = False"
| "segs_match (p # ps) trailing gs =
     (if ps_kind p = segAnchor then gs = [[]]
      else if ps_kind p = segRest then True
      else (case gs of
              [] \<Rightarrow> False
            | g # gs \<Rightarrow> seg_ok p g \<and> (if ps = [] then (gs \<noteq> []) = trailing else gs \<noteq> [] \<and> segs_match ps trailing gs)))"

lemma Split_singleton_Nil: "Split slash rest = [[]] \<longleftrightarrow> rest = []"
  by (metis Join.simps(2) Join_Split Split.simps(1))

lemma matchSegs_Split: "matchSegs segs trailing rest = segs_match segs trailing (Split slash rest)"
proof (induction segs arbitrary: rest)
  case (Cons p ps)
  obtain got after found where cut: "Cut slash rest = (got, after, found)" by (metis prod_cases3)
  note s = Cut_Split [OF cut]
  show ?case
    using Cons cut s Split_singleton_Nil [of rest]
    by (cases "ps_kind p"; cases found) (auto simp: seg_ok_def)
qed simp

text \<open>Patterns of literals and wildcards: the segments one by one, then the end or more.\<close>

lemma segs_match_plain:
  "\<forall>p\<in>set ps. ps_kind p \<notin> {segAnchor, segRest} \<Longrightarrow> ps \<noteq> [] \<Longrightarrow>
   segs_match ps trailing gs \<longleftrightarrow>
     list_all2 seg_ok ps (take (length ps) gs) \<and>
     (if trailing then length ps < length gs else length ps = length gs)"
proof (induction ps arbitrary: gs)
  case (Cons p ps)
  show ?case
  proof (cases gs)
    case (Cons g gs')
    with Cons.prems Cons.IH [of gs'] show ?thesis
      by (cases "ps = []"; cases "gs' = []") (auto simp: list_all2_Cons)
  qed (use Cons.prems in auto)
qed simp

section \<open>What ParsePathPattern accepts\<close>

definition kind_of :: "unicode \<Rightarrow> string \<Rightarrow> segKind" where
  "kind_of U s = snd (parseWildcard U s)"

definition name_of :: "unicode \<Rightarrow> string \<Rightarrow> string" where
  "name_of U s = fst (parseWildcard U s)"

definition seg_of :: "unicode \<Rightarrow> string \<Rightarrow> patternSeg" where
  "seg_of U s = \<lparr>ps_kind = kind_of U s, ps_lit = (if kind_of U s = segLiteral then s else [])\<rparr>"

definition names_of :: "unicode \<Rightarrow> string list \<Rightarrow> string list" where
  "names_of U ss = filter (\<lambda>n. n \<noteq> []) (map (name_of U) ss)"

text \<open>The rules: every segment well formed, "{$}" and "{name...}" last, no name twice.\<close>

definition pattern_ok :: "unicode \<Rightarrow> bool \<Rightarrow> string list \<Rightarrow> bool" where
  "pattern_ok U trailing ss \<longleftrightarrow>
     (\<forall>s\<in>set ss. kind_of U s \<noteq> segInvalid) \<and>
     (\<forall>s\<in>set (if trailing then ss else butlast ss). kind_of U s \<notin> {segAnchor, segRest}) \<and>
     distinct (names_of U ss)"

lemma pattern_ok_Cons:
  "ss \<noteq> [] \<Longrightarrow> pattern_ok U trailing (s # ss) \<longleftrightarrow>
     kind_of U s \<noteq> segInvalid \<and> kind_of U s \<notin> {segAnchor, segRest} \<and>
     (name_of U s \<noteq> [] \<longrightarrow> name_of U s \<notin> set (names_of U ss)) \<and> pattern_ok U trailing ss"
  by (auto simp: pattern_ok_def names_of_def)

lemma parse_segs_iff:
  "parse_segs U p names s =
     (let ss = Split slash s in
      if pattern_ok U (pp_trailing p) ss \<and> set names \<inter> set (names_of U ss) = {}
      then Inr (p\<lparr>pp_segs := Some (segs_of p @ map (seg_of U) ss)\<rparr>) else Inl ErrInvalidPathPattern)"
proof (induction U p names s rule: parse_segs.induct)
  case (1 U p names s)
  obtain seg next' found where cut: "Cut slash s = (seg, next', found)" by (metis prod_cases3)
  obtain name kind where w: "parseWildcard U seg = (name, kind)" by fastforce
  then have nk: "name = name_of U seg" "kind = kind_of U seg" by (simp_all add: name_of_def kind_of_def)
  note step = parse_segs.simps [of U p names s]
  have ps: "\<lparr>ps_kind = kind, ps_lit = if kind = segLiteral then seg else []\<rparr> = seg_of U seg"
    by (simp add: seg_of_def nk)
  show ?case
  proof (cases found)
    case False
    then have "Split slash s = [seg]" using Cut_Split [OF cut] by simp
    moreover have "pattern_ok U (pp_trailing p) [seg] \<longleftrightarrow>
        kind \<noteq> segInvalid \<and> (pp_trailing p \<longrightarrow> kind \<notin> {segAnchor, segRest})"
      by (simp add: pattern_ok_def names_of_def nk)
    moreover have "set names \<inter> set (names_of U [seg]) = {} \<longleftrightarrow> \<not> (name \<noteq> [] \<and> name \<in> set names)"
      by (simp add: names_of_def nk)
    moreover have "parse_segs U p names s =
        (if kind = segInvalid \<or> kind = segAnchor \<and> pp_trailing p \<or> kind = segRest \<and> pp_trailing p \<or>
            name \<noteq> [] \<and> name \<in> set names
         then Inl ErrInvalidPathPattern else Inr (p\<lparr>pp_segs := Some (segs_of p @ [seg_of U seg])\<rparr>))"
      using False by (simp add: step cut w Let_def ps)
    ultimately show ?thesis by simp
  next
    case True
    then have S: "Split slash s = seg # Split slash next'" using Cut_Split [OF cut] by simp
    show ?thesis
    proof (cases "kind = segInvalid \<or> kind = segAnchor \<or> kind = segRest \<or> name \<noteq> [] \<and> name \<in> set names")
      case True
      then have "parse_segs U p names s = Inl ErrInvalidPathPattern"
        using \<open>found\<close> by (simp add: step cut w Let_def)
      moreover have "\<not> (pattern_ok U (pp_trailing p) (Split slash s) \<and> set names \<inter> set (names_of U (Split slash s)) = {})"
        using True unfolding S pattern_ok_Cons [OF Split_neq_Nil] by (auto simp: names_of_def nk)
      ultimately show ?thesis by (simp add: Let_def)
    next
      case False
      let ?names = "if name \<noteq> [] then names @ [name] else names"
      let ?p = "p\<lparr>pp_segs := Some (segs_of p @ [seg_of U seg])\<rparr>"
      have rec: "parse_segs U p names s = parse_segs U ?p ?names next'"
        using False \<open>found\<close> by (auto simp add: step cut w Let_def ps)
      have IH: "parse_segs U ?p ?names next' =
         (let ss = Split slash next' in
          if pattern_ok U (pp_trailing ?p) ss \<and> set ?names \<inter> set (names_of U ss) = {}
          then Inr (?p\<lparr>pp_segs := Some (segs_of ?p @ map (seg_of U) ss)\<rparr>) else Inl ErrInvalidPathPattern)"
        by (rule 1 [OF cut [symmetric] refl refl w [symmetric] refl _ refl refl refl, unfolded ps])
          (use False \<open>found\<close> in auto)
      have "pattern_ok U (pp_trailing p) (Split slash s) \<and> set names \<inter> set (names_of U (Split slash s)) = {} \<longleftrightarrow>
          pattern_ok U (pp_trailing ?p) (Split slash next') \<and> set ?names \<inter> set (names_of U (Split slash next')) = {}"
        using False unfolding S pattern_ok_Cons [OF Split_neq_Nil] by (auto simp: names_of_def nk)
      then show ?thesis
        unfolding rec IH Let_def by (simp add: S segs_of_def)
    qed
  qed
qed

section \<open>Grants stay beneath their root\<close>

lemma kind_of_plain: "\<not> ContainsAny s ''{}'' \<Longrightarrow> kind_of U s = segLiteral"
proof -
  assume a: "\<not> ContainsAny s ''{}''"
  then have "\<not> prefix ''{'' s" by (cases s) (auto simp: ContainsAny_def)
  with a show ?thesis by (simp add: kind_of_def parseWildcard_def CutPrefix_def)
qed

lemma ContainsAny_append [simp]: "ContainsAny (s @ t) cs \<longleftrightarrow> ContainsAny s cs \<or> ContainsAny t cs"
  by (auto simp: ContainsAny_def)

lemma ContainsAny_Cons: "ContainsAny (c # t) cs \<longleftrightarrow> c \<in> set cs \<or> ContainsAny t cs"
  by (auto simp: ContainsAny_def)

lemma Split_chars: "p \<in> set (Split c s) \<Longrightarrow> set p \<subseteq> set s"
proof (induction s arbitrary: p)
  case (Cons x s)
  obtain q qs where q: "Split c s = q # qs" using Split_neq_Nil [of c s] by (cases "Split c s") auto
  then have "set q \<subseteq> set s" "\<And>r. r \<in> set qs \<Longrightarrow> set r \<subseteq> set s" using Cons.IH by auto
  moreover have "p = [] \<or> p = x # q \<or> p = q \<or> p \<in> set qs"
    using Cons.prems q by (cases "x = c") auto
  ultimately show ?case by auto
qed simp

lemma segs_match_literals:
  "\<lbrakk>segs_match (map (seg_of U) xs @ ys) trailing gs; ys \<noteq> []; gs \<noteq> []; \<forall>s\<in>set xs. \<not> ContainsAny s ''{}''\<rbrakk> \<Longrightarrow>
   \<exists>gs'. gs = xs @ gs' \<and> gs' \<noteq> []"
proof (induction xs arbitrary: gs)
  case Nil
  then show ?case by (cases ys) (auto split: if_splits)
next
  case (Cons x xs)
  then show ?case
    by (auto simp: seg_of_def seg_ok_def kind_of_plain split: list.splits if_splits)
qed

lemma root_cases:
  assumes "isValidGrantRoot root"
  obtains (top) "root = [slash]"
  | (deep) x where "root = slash # x @ [slash]" "\<not> ContainsAny x ''{}''"
  using assms by (auto simp: isValidGrantRoot_def isValidPrefix_cases ContainsAny_Cons)

lemma TrimSuffix_slash: "TrimSuffix (s @ [slash]) ''/'' = s"
  by (simp add: TrimSuffix_def suffix_def)

lemma TrimSuffix_append: "t \<noteq> [] \<Longrightarrow> TrimSuffix (s @ t) ''/'' = s @ TrimSuffix t ''/''"
proof (cases t rule: rev_cases)
  case (snoc ys y)
  have "suffix [c] (xs @ [y]) \<longleftrightarrow> y = c" for xs c by (auto simp: suffix_def)
  from this [of slash "s @ ys"] this [of slash ys] snoc show ?thesis by (simp add: TrimSuffix_def)
qed simp

lemma ParseGrantPattern_raw:
  assumes "ParseGrantPattern U root pattern = Inr p"
  obtains pt where "pattern = slash # pt" "isValidGrantRoot root" "ParsePathPattern U (root @ pt) = Inr p"
proof -
  have r: "isValidGrantRoot root" and h: "prefix ''/'' pattern"
    and pp: "ParsePathPattern U (TrimSuffix root ''/'' @ pattern) = Inr p"
    using assms by (auto simp: ParseGrantPattern_def joinPattern_def split: if_splits)
  obtain pt where pt: "pattern = slash # pt" using h by (auto simp: prefix_def)
  have e: "TrimSuffix root ''/'' @ pattern = root @ pt"
    using r
  proof (cases rule: root_cases)
    case top
    then show ?thesis using pt TrimSuffix_slash [of "[]"] by simp
  next
    case (deep x)
    then show ?thesis using pt TrimSuffix_slash [of "slash # x"] by simp
  qed
  from pp have "ParsePathPattern U (root @ pt) = Inr p" unfolding e .
  with r pt that show ?thesis by blast
qed

lemma ParsePathPattern_eq:
  "ParsePathPattern U s =
     (if \<not> isValidPath s then Inl ErrInvalidPathPattern
      else if \<not> ContainsAny s ''{}'' then Inr \<lparr>pp_raw = s, pp_segs = None, pp_trailing = False\<rparr>
      else let trailing = suffix ''/'' s; ss = Split slash (TrimSuffix (tl s) ''/'') in
        if pattern_ok U trailing ss
        then Inr \<lparr>pp_raw = s, pp_segs = Some (map (seg_of U) ss), pp_trailing = trailing\<rparr>
        else Inl ErrInvalidPathPattern)"
  by (simp add: ParsePathPattern_def parse_segs_iff segs_of_def Let_def drop_Suc)

lemma HasPrefix_iff [simp]: "HasPrefix q p \<longleftrightarrow> prefix p q"
  using prefix_length_le [of p q] by (auto simp: HasPrefix_def)

lemma grant_pattern_under:
  assumes "ParseGrantPattern U root pattern = Inr p" "Match p path"
  shows "HasPrefix path root"
proof -
  obtain pt where pt: "pattern = slash # pt" "isValidGrantRoot root" "ParsePathPattern U (root @ pt) = Inr p"
    using assms(1) by (rule ParseGrantPattern_raw)
  show ?thesis
  proof (cases "ContainsAny (root @ pt) ''{}''")
    case False
    with pt(3) have "p = \<lparr>pp_raw = root @ pt, pp_segs = None, pp_trailing = False\<rparr>"
      by (auto simp: ParsePathPattern_eq split: if_splits)
    then show ?thesis using assms(2) by (auto simp: Match_def prefix_def split: if_splits)
  next
    case True
    define ss where "ss = Split slash (TrimSuffix (tl (root @ pt)) ''/'')"
    from True pt(3) have p: "pp_segs p = Some (map (seg_of U) ss)"
      by (auto simp: ParsePathPattern_eq Let_def ss_def split: if_splits)
    with assms(2) have m: "isValidPath path" "segs_match (map (seg_of U) ss) (pp_trailing p) (Split slash (tl path))"
      by (auto simp: Match_def matchSegments_def segs_of_def matchSegs_Split drop_Suc split: if_splits)
    from pt(2) show ?thesis
    proof (cases rule: root_cases)
      case top
      with m(1) show ?thesis by (auto simp: isValidPath_Cons)
    next
      case (deep x)
      then have "pt \<noteq> []" using True by (auto simp: ContainsAny_def)
      then have "ss = Split slash x @ Split slash (TrimSuffix pt ''/'')"
        using deep TrimSuffix_append [of pt "x @ [slash]"] by (simp add: ss_def Split_append)
      moreover have "\<forall>s\<in>set (Split slash x). \<not> ContainsAny s ''{}''"
        using deep(2) Split_chars [of _ slash x] by (fastforce simp: ContainsAny_def list_ex_iff)
      moreover have "map (seg_of U) (Split slash (TrimSuffix pt ''/'')) \<noteq> []" by (simp only: map_is_Nil_conv Split_neq_Nil) simp
      ultimately have "\<exists>gs'. Split slash (tl path) = Split slash x @ gs' \<and> gs' \<noteq> []"
        using m(2) by (intro segs_match_literals [of U "Split slash x" "map (seg_of U) (Split slash (TrimSuffix pt ''/''))"])
          (simp_all only: map_append Split_neq_Nil not_False_eq_True)
      then obtain gs' where "Split slash (tl path) = Split slash x @ gs'" "gs' \<noteq> []" by blast
      then have "prefix (x @ [slash]) (tl path)" by (simp add: prefix_Split_iff butlast_append)
      with deep(1) m(1) show ?thesis by (auto simp: isValidPath_Cons)
    qed
  qed
qed

section \<open>Properties\<close>

lemma segments_prefix:
  assumes "isValidPrefix p" "p \<noteq> ''//''" "isValidPath q"
  shows "HasPrefix q p \<longleftrightarrow> prefix (prefixSegments p) (fst (pathSegments q))"
proof -
  obtain s where q: "q = slash # s" using assms(3) by (auto simp: isValidPath_Cons)
  from assms(1) have "p = [slash] \<or> (\<exists>x. p = slash # x @ [slash])" by (simp add: isValidPrefix_cases)
  then show ?thesis
  proof (elim disjE exE)
    assume "p = [slash]"
    then show ?thesis using q by (simp add: prefixSegments_def)
  next
    fix x assume "p = slash # x @ [slash]"
    then show ?thesis
      using prefixSegments_Split [OF assms(1,2)] pathSegments_Split [OF assms(3)] q Split_append [of slash x "[]"]
        prefix_Split_iff [of x s] by simp
  qed
qed

text \<open>For every valid prefix but "//", a path has the prefix as a string exactly when the segments of
  the prefix lead the segments of the path's directory: walking the announcement tree by
  prefixSegments and pathSegments, with their shortcuts for one and two segments, is the same as
  comparing strings.\<close>
lemma prefix_segments_sound:
  assumes "isValidPrefix p" "p \<noteq> ''//''" "isValidPath q"
  shows "HasPrefix q p \<longleftrightarrow> prefix (prefixSegments p) (fst (pathSegments q))"
  by (rule segments_prefix [OF assms])

text \<open>The prefix "//" is valid, but prefixSegments gives it the segments of "/": the path "/a", which
  does not have it as a prefix, is under it in the tree, and "//a", which does, is elsewhere.\<close>
lemma double_slash_prefix:
  "isValidPrefix ''//'' \<and> prefixSegments ''//'' = prefixSegments ''/'' \<and>
   \<not> HasPrefix ''/a'' ''//'' \<and> prefix (prefixSegments ''//'') (fst (pathSegments ''/a'')) \<and>
   pathSegments ''//a'' = ([''''], ''a'')"
  by code_simp

text \<open>C23 A pattern parsed relative to a root matches only paths beneath that root: a grant reaches nothing
  outside it, whatever wildcards its patterns use.\<close>
theorem grant_pattern_confined:
  assumes "ParseGrantPattern U root pattern = Inr p" "Match p path"
  shows "HasPrefix path root"
  using assms by (rule grant_pattern_under)


text \<open>C35 A parsed pattern of literals and "{name}" wildcards matches a path exactly when its segments
  match the path's segment by segment, a wildcard any one that is not empty, and the path then
  ends, or, for a pattern ending in "/", goes on.\<close>
theorem match_by_segments:
  assumes "pp_segs p = Some ps" "ps \<noteq> []" "\<forall>s\<in>set ps. ps_kind s \<notin> {segAnchor, segRest}"
  shows "Match p path \<longleftrightarrow> isValidPath path \<and>
    (let gs = Split slash (tl path) in
     list_all2 seg_ok ps (take (length ps) gs) \<and>
     (if pp_trailing p then length ps < length gs else length ps = length gs))"
  using assms segs_match_plain [OF assms(3,2)]
  by (simp add: Match_def matchSegments_def segs_of_def matchSegs_Split drop_Suc Let_def)

section \<open>The properties at concrete paths\<close>

definition ascii :: unicode where
  "ascii = \<lparr>u_IsLetter = (\<lambda>c. 65 \<le> c \<and> c \<le> 90 \<or> 97 \<le> c \<and> c \<le> 122), u_IsDigit = (\<lambda>c. 48 \<le> c \<and> c \<le> 57)\<rparr>"

lemma grant_pattern_confined_witness:
  "\<exists>p. ParseGrantPattern ascii ''/room/1/'' ''/{x}/cam'' = Inr p \<and> HasPrefix ''/room/1/bob/cam'' ''/room/1/''"
proof -
  let ?p = "\<lparr>pp_raw = ''/room/1/{x}/cam'', pp_segs = Some [\<lparr>ps_kind = segLiteral, ps_lit = ''room''\<rparr>,
    \<lparr>ps_kind = segLiteral, ps_lit = ''1''\<rparr>, \<lparr>ps_kind = segWildcard, ps_lit = ''''\<rparr>,
    \<lparr>ps_kind = segLiteral, ps_lit = ''cam''\<rparr>], pp_trailing = False\<rparr>"
  have "ParseGrantPattern ascii ''/room/1/'' ''/{x}/cam'' = Inr ?p" "Match ?p ''/room/1/bob/cam''"
    by code_simp+
  then show ?thesis using grant_pattern_confined by blast
qed

lemma match_by_segments_witness:
  "Match \<lparr>pp_raw = ''/{x}/'', pp_segs = Some [\<lparr>ps_kind = segWildcard, ps_lit = ''''\<rparr>], pp_trailing = True\<rparr> ''/a/b''"
  by (subst match_by_segments [of _ "[\<lparr>ps_kind = segWildcard, ps_lit = ''''\<rparr>]"])
    (simp_all add: isValidPath_def seg_ok_def Let_def)

end
