(* ===== verification/Sequences.thy ===== *)
theory Sequences
  imports Wire
begin

text \<open>
  Group sequences and their wire form (moqt/group_sequence.go), the urgency of a track
  (moqt/track_priority.go) and the set of settled group sequences a track reader keeps
  (\<open>settledGroups\<close> in moqt/track_reader.go).

  The set is specified by the locale \<open>settled_set\<close>: what \<open>add\<close> and \<open>covers\<close> promise a client in
  terms of the sequences in the set. The sorted list of ranges of the code is its interpretation.
\<close>

type_synonym GroupSequence = uint64

section \<open>Sequences\<close>

definition MinGroupSequence :: GroupSequence where "MinGroupSequence = 0"
definition MaxGroupSequence :: GroupSequence where "MaxGroupSequence = 0x3FFFFFFFFFFFFFFF"

definition Next :: "GroupSequence \<Rightarrow> GroupSequence" where
  "Next gs =
     (if gs = MinGroupSequence then 1
      else if gs = MaxGroupSequence then MinGroupSequence
      else gs + 1)"

definition groupSequenceToWire :: "GroupSequence \<Rightarrow> uint64" where
  "groupSequenceToWire gs = (if gs = MinGroupSequence then 0 else gs + 1)"

definition groupSequenceFromWire :: "uint64 \<Rightarrow> GroupSequence" where
  "groupSequenceFromWire v = (if v = 0 then MinGroupSequence else v - 1)"

definition boolToWireFlag :: "bool \<Rightarrow> byte" where
  "boolToWireFlag v = (if v then 1 else 0)"

definition boolFromWireFlag :: "byte \<Rightarrow> bool" where
  "boolFromWireFlag v = (v \<noteq> 0)"

text \<open>The urgency of an int8 and the incremental bit.\<close>

definition urgencyFor :: "byte \<Rightarrow> bool \<Rightarrow> int \<times> bool" where
  "urgencyFor p ordered = (7 - int (unat p) * 7 div 255, \<not> ordered)"

lemmas sequence_defs = MinGroupSequence_def MaxGroupSequence_def

lemma Next_word: "Next gs = (if gs = MaxGroupSequence then 0 else gs + 1)"
  by (simp add: Next_def sequence_defs)

lemma bool_wire_flag [simp]: "boolFromWireFlag (boolToWireFlag v) = v"
  by (simp add: boolFromWireFlag_def boolToWireFlag_def)

section \<open>The interface of a set of settled sequences\<close>

locale settled_set =
  fixes inv :: "'s \<Rightarrow> bool" and members :: "'s \<Rightarrow> GroupSequence set" and empty :: 's
    and add :: "GroupSequence \<Rightarrow> GroupSequence \<Rightarrow> 's \<Rightarrow> 's"
    and covers :: "'s \<Rightarrow> GroupSequence \<Rightarrow> GroupSequence \<Rightarrow> bool"
  assumes inv_empty: "inv empty"
    and members_empty: "members empty = {}"
    and inv_add: "\<lbrakk>inv s; hi \<le> MaxGroupSequence\<rbrakk> \<Longrightarrow> inv (add lo hi s)"
    and add_grows: "\<lbrakk>inv s; hi \<le> MaxGroupSequence\<rbrakk> \<Longrightarrow> members s \<union> {lo..hi} \<subseteq> members (add lo hi s)"
    and covers_iff: "\<lbrakk>inv s; lo \<le> hi\<rbrakk> \<Longrightarrow> covers s lo hi \<longleftrightarrow> {lo..hi} \<subseteq> members s"
begin

text \<open>A history of settled ranges.\<close>

definition adds :: "(GroupSequence \<times> GroupSequence) list \<Rightarrow> 's \<Rightarrow> 's" where
  "adds rs s = fold (\<lambda>(lo, hi). add lo hi) rs s"

lemma adds_inv:
  "\<lbrakk>inv s; \<forall>(lo, hi)\<in>set rs. hi \<le> MaxGroupSequence\<rbrakk> \<Longrightarrow>
   inv (adds rs s) \<and> members s \<union> (\<Union>(lo, hi)\<in>set rs. {lo..hi}) \<subseteq> members (adds rs s)"
proof (induction rs arbitrary: s)
  case (Cons r rs)
  obtain lo hi where r: "r = (lo, hi)" by force
  with Cons.prems have hi: "hi \<le> MaxGroupSequence" by simp
  have "adds (r # rs) s = adds rs (add lo hi s)" by (simp add: adds_def r)
  with Cons.IH [of "add lo hi s"] Cons.prems inv_add [OF Cons.prems(1) hi, of lo]
    add_grows [OF Cons.prems(1) hi, of lo]
  show ?case by (simp add: r) blast
qed (simp add: adds_def)

text \<open>What was settled stays settled, in whatever order the ranges came.\<close>

lemma settled_stays:
  assumes "\<forall>(lo, hi)\<in>set rs. hi \<le> MaxGroupSequence" "(lo, hi) \<in> set rs" "lo \<le> lo'" "lo' \<le> hi'" "hi' \<le> hi"
  shows "covers (adds rs empty) lo' hi'"
proof -
  have "inv (adds rs empty) \<and> (\<Union>(lo, hi)\<in>set rs. {lo..hi}) \<subseteq> members (adds rs empty)"
    using adds_inv [OF inv_empty assms(1)] members_empty by simp
  moreover have "{lo'..hi'} \<subseteq> {lo..hi}" using assms by auto
  ultimately show ?thesis using assms(2,4) covers_iff [of "adds rs empty" lo' hi'] by blast
qed

end

section \<open>Sorted ranges\<close>

record groupRange =
  rg_lo :: GroupSequence
  rg_hi :: GroupSequence

type_synonym settledGroups = "groupRange list"

definition maxSettledRanges :: nat where "maxSettledRanges = 1024"

text \<open>The search for the place of a new range, from the end.\<close>

fun settled_pos :: "settledGroups \<Rightarrow> GroupSequence \<Rightarrow> nat \<Rightarrow> nat" where
  "settled_pos ranges lo 0 = 0"
| "settled_pos ranges lo (Suc i) = (if rg_lo (ranges ! i) > lo then settled_pos ranges lo i else Suc i)"

text \<open>The loop that merges what the range at \<open>i\<close> now touches: the ranges and the \<open>j\<close> it stops at.\<close>

function settled_merge :: "settledGroups \<Rightarrow> nat \<Rightarrow> nat \<Rightarrow> settledGroups \<times> nat" where
  "settled_merge ranges i j =
     (if j < length ranges \<and> rg_lo (ranges ! j) \<le> rg_hi (ranges ! i) + 1
      then settled_merge (ranges[i := (ranges ! i)\<lparr>rg_hi := max (rg_hi (ranges ! i)) (rg_hi (ranges ! j))\<rparr>]) i (j + 1)
      else (ranges, j))"
  by pat_completeness auto
termination by (relation "measure (\<lambda>(ranges, i, j). length ranges - j)") auto

declare settled_merge.simps [simp del]

definition settled_merged :: "nat \<Rightarrow> settledGroups \<Rightarrow> settledGroups" where
  "settled_merged i ranges =
     (case settled_merge ranges i (i + 1) of (ranges, j) \<Rightarrow> take (i + 1) ranges @ drop j ranges)"

text \<open>Past the bound, the oldest gap counts as settled.\<close>

definition settled_bound :: "settledGroups \<Rightarrow> settledGroups" where
  "settled_bound ranges =
     (if length ranges > maxSettledRanges
      then tl (ranges[1 := (ranges ! 1)\<lparr>rg_lo := rg_lo (ranges ! 0)\<rparr>])
      else ranges)"

definition settled_add :: "GroupSequence \<Rightarrow> GroupSequence \<Rightarrow> settledGroups \<Rightarrow> settledGroups" where
  "settled_add lo hi ranges =
     (if hi < lo then ranges
      else
        let i = settled_pos ranges lo (length ranges);
            ranges = take i ranges @ \<lparr>rg_lo = lo, rg_hi = hi\<rparr> # drop i ranges;
            i = (if i > 0 \<and> rg_hi (ranges ! (i - 1)) + 1 \<ge> lo then i - 1 else i)
        in settled_bound (settled_merged i ranges))"

definition settled_covers :: "settledGroups \<Rightarrow> GroupSequence \<Rightarrow> GroupSequence \<Rightarrow> bool" where
  "settled_covers ranges lo hi = list_ex (\<lambda>r. rg_lo r \<le> lo \<and> hi \<le> rg_hi r) ranges"

section \<open>The ranges as a list\<close>

text \<open>A range followed by ranges that start no earlier: what it touches is merged into it.\<close>

fun coalesce :: "groupRange \<Rightarrow> groupRange list \<Rightarrow> groupRange list" where
  "coalesce a [] = [a]"
| "coalesce a (b # bs) =
     (if rg_lo b \<le> rg_hi a + 1 then coalesce (a\<lparr>rg_hi := max (rg_hi a) (rg_hi b)\<rparr>) bs else a # b # bs)"

lemma settled_merge_coalesce:
  "length C = k \<Longrightarrow>
   (case settled_merge (A @ a # C @ B) (length A) (length A + 1 + k) of
      (rs, j) \<Rightarrow> take (length A + 1) rs @ drop j rs) = A @ coalesce a B"
proof (induction B arbitrary: a C k)
  case Nil
  then show ?case by (simp add: settled_merge.simps)
next
  case (Cons b B)
  let ?rs = "A @ a # C @ b # B"
  have nth: "?rs ! (length A + 1 + k) = b" "?rs ! length A = a"
    using Cons.prems by (simp_all add: nth_append)
  show ?case
  proof (cases "rg_lo b \<le> rg_hi a + 1")
    case True
    let ?a = "a\<lparr>rg_hi := max (rg_hi a) (rg_hi b)\<rparr>"
    have "settled_merge ?rs (length A) (length A + 1 + k) =
        settled_merge (A @ ?a # (C @ [b]) @ B) (length A) (length A + 1 + Suc k)"
      using True nth Cons.prems by (subst settled_merge.simps) (simp add: list_update_append)
    with Cons.IH [of "C @ [b]" "Suc k" ?a] True Cons.prems show ?thesis by simp
  next
    case False
    with nth Cons.prems show ?thesis by (subst settled_merge.simps) simp
  qed
qed

lemma settled_pos_split:
  "n \<le> length ranges \<Longrightarrow> settled_pos ranges lo n \<le> n \<and>
   (\<forall>i. settled_pos ranges lo n \<le> i \<and> i < n \<longrightarrow> rg_lo (ranges ! i) > lo) \<and>
   (settled_pos ranges lo n > 0 \<longrightarrow> rg_lo (ranges ! (settled_pos ranges lo n - 1)) \<le> lo)"
  by (induction n) (auto simp: less_Suc_eq not_less)

text \<open>The list after an insertion, before the bound on its length is applied.\<close>

definition inserted :: "GroupSequence \<Rightarrow> GroupSequence \<Rightarrow> settledGroups \<Rightarrow> settledGroups" where
  "inserted lo hi ranges =
     (let i = settled_pos ranges lo (length ranges); new = \<lparr>rg_lo = lo, rg_hi = hi\<rparr> in
      if i > 0 \<and> rg_hi (ranges ! (i - 1)) + 1 \<ge> lo
      then take (i - 1) ranges @ coalesce (ranges ! (i - 1)) (new # drop i ranges)
      else take i ranges @ coalesce new (drop i ranges))"


lemma settled_merged_coalesce: "settled_merged (length A) (A @ a # B) = A @ coalesce a B"
  using settled_merge_coalesce [of "[]" 0 A a B] by (simp add: settled_merged_def)

lemma settled_add_inserted:
  "settled_add lo hi ranges = (if hi < lo then ranges else settled_bound (inserted lo hi ranges))"
proof -
  define i where "i = settled_pos ranges lo (length ranges)"
  let ?new = "\<lparr>rg_lo = lo, rg_hi = hi\<rparr>"
  let ?rs = "take i ranges @ ?new # drop i ranges"
  have i: "i \<le> length ranges" using settled_pos_split [of "length ranges" ranges lo] by (simp add: i_def)
  have nth: "?rs ! (i - 1) = ranges ! (i - 1)" if "0 < i" using i that by (simp add: nth_append)
  have here: "settled_merged i ?rs = take i ranges @ coalesce ?new (drop i ranges)"
    using settled_merged_coalesce [of "take i ranges"] i by simp
  have prev: "settled_merged (i - 1) ?rs = take (i - 1) ranges @ coalesce (ranges ! (i - 1)) (?new # drop i ranges)"
    if "0 < i"
    using settled_merged_coalesce [of "take (i - 1) ranges" "ranges ! (i - 1)" "?new # drop i ranges"]
      take_last [OF that i] i that by simp
  show ?thesis
  proof (cases "i > 0 \<and> rg_hi (ranges ! (i - 1)) + 1 \<ge> lo")
    case True
    then show ?thesis
      using nth prev unfolding settled_add_def inserted_def Let_def i_def [symmetric] by (simp only: if_True simp_thms)
  next
    case False
    then have "\<not> (i > 0 \<and> rg_hi (?rs ! (i - 1)) + 1 \<ge> lo)" using nth by auto
    then show ?thesis
      using False here unfolding settled_add_def inserted_def Let_def i_def [symmetric] by (simp only: if_False)
  qed
qed

section \<open>What the ranges stand for\<close>

definition members :: "settledGroups \<Rightarrow> GroupSequence set" where
  "members rs = (\<Union>r\<in>set rs. {rg_lo r..rg_hi r})"

text \<open>Sorted, disjoint, not touching, and every range one of valid sequences.\<close>

definition apart :: "groupRange \<Rightarrow> groupRange \<Rightarrow> bool" where
  "apart a b \<longleftrightarrow> unat (rg_hi a) + 1 < unat (rg_lo b)"

definition range_ok :: "groupRange \<Rightarrow> bool" where
  "range_ok r \<longleftrightarrow> rg_lo r \<le> rg_hi r \<and> rg_hi r \<le> MaxGroupSequence"

definition ranges_inv :: "settledGroups \<Rightarrow> bool" where
  "ranges_inv rs \<longleftrightarrow> sorted_wrt apart rs \<and> (\<forall>r\<in>set rs. range_ok r)"

definition settled_inv :: "settledGroups \<Rightarrow> bool" where
  "settled_inv rs \<longleftrightarrow> ranges_inv rs \<and> length rs \<le> maxSettledRanges"

lemma unat_Suc_sequence: "h \<le> MaxGroupSequence \<Longrightarrow> unat (h + 1) = unat h + 1"
  by (simp add: MaxGroupSequence_def word_le_nat_alt unat_word_ariths)

lemma touches_iff: "range_ok a \<Longrightarrow> lo \<le> rg_hi a + 1 \<longleftrightarrow> unat lo \<le> unat (rg_hi a) + 1"
  by (simp add: range_ok_def word_le_nat_alt [of lo] unat_Suc_sequence)

lemma in_range_iff: "x \<in> {rg_lo r..rg_hi r} \<longleftrightarrow> unat (rg_lo r) \<le> unat x \<and> unat x \<le> unat (rg_hi r)"
  by (simp add: word_le_nat_alt)

lemma members_simps [simp]:
  "members [] = {}" "members (r # rs) = {rg_lo r..rg_hi r} \<union> members rs" "members (rs @ qs) = members rs \<union> members qs"
  by (auto simp: members_def)

lemma ranges_inv_simps [simp]:
  "ranges_inv []" "ranges_inv (r # rs) \<longleftrightarrow> range_ok r \<and> (\<forall>q\<in>set rs. apart r q) \<and> ranges_inv rs"
  by (auto simp: ranges_inv_def)

lemma ranges_inv_append:
  "ranges_inv (A @ B) \<longleftrightarrow> ranges_inv A \<and> ranges_inv B \<and> (\<forall>a\<in>set A. \<forall>b\<in>set B. apart a b)"
  by (auto simp: ranges_inv_def sorted_wrt_append)

text \<open>A range merged with one it touches, that starts no earlier.\<close>

lemma merged_range:
  assumes "range_ok a" "range_ok b" "rg_lo a \<le> rg_lo b" "rg_lo b \<le> rg_hi a + 1"
  shows "range_ok (a\<lparr>rg_hi := max (rg_hi a) (rg_hi b)\<rparr>)"
    "{rg_lo a..max (rg_hi a) (rg_hi b)} = {rg_lo a..rg_hi a} \<union> {rg_lo b..rg_hi b}"
proof -
  show "range_ok (a\<lparr>rg_hi := max (rg_hi a) (rg_hi b)\<rparr>)"
    using assms by (auto simp: range_ok_def max_def)
  have "unat (rg_lo b) \<le> unat (rg_hi a) + 1" using assms touches_iff by blast
  then show "{rg_lo a..max (rg_hi a) (rg_hi b)} = {rg_lo a..rg_hi a} \<union> {rg_lo b..rg_hi b}"
    using assms(1-3) by (auto simp: range_ok_def word_le_nat_alt max_def split: if_splits)
qed

lemma coalesce_inv:
  "\<lbrakk>range_ok a; ranges_inv B; \<forall>b\<in>set B. rg_lo a \<le> rg_lo b\<rbrakk> \<Longrightarrow>
   ranges_inv (coalesce a B) \<and> members (coalesce a B) = {rg_lo a..rg_hi a} \<union> members B \<and>
   (\<forall>r\<in>set (coalesce a B). rg_lo a \<le> rg_lo r) \<and> length (coalesce a B) \<le> Suc (length B)"
proof (induction a B rule: coalesce.induct)
  case (2 a b bs)
  show ?case
  proof (cases "rg_lo b \<le> rg_hi a + 1")
    case True
    note m = merged_range [OF 2(2) _ _ True]
    have "range_ok b" "rg_lo a \<le> rg_lo b" using 2(3,4) by simp_all
    with m 2(1) [OF True] 2(3,4) True show ?thesis by auto
  next
    case False
    then have gap: "unat (rg_hi a) + 1 < unat (rg_lo b)" using touches_iff [OF 2(2)] by auto
    have "\<forall>q\<in>set bs. unat (rg_lo b) \<le> unat (rg_lo q)"
      using 2(3) by (auto simp: apart_def range_ok_def word_le_nat_alt)
    with gap have "\<forall>q\<in>set (b # bs). apart a q" by (auto simp: apart_def)
    with False 2(2-4) show ?thesis by auto
  qed
qed auto

lemma apart_hi: "\<lbrakk>ranges_inv rs; i < j; j < length rs\<rbrakk> \<Longrightarrow> apart (rs ! i) (rs ! j)"
  by (simp add: ranges_inv_def sorted_wrt_iff_nth_less)

lemma inserted_inv:
  assumes "ranges_inv rs" "lo \<le> hi" "hi \<le> MaxGroupSequence"
  shows "ranges_inv (inserted lo hi rs) \<and> members (inserted lo hi rs) = {lo..hi} \<union> members rs \<and>
    length (inserted lo hi rs) \<le> Suc (length rs)"
proof -
  define i where "i = settled_pos rs lo (length rs)"
  define L where "L = take i rs"
  define R where "R = drop i rs"
  let ?new = "\<lparr>rg_lo = lo, rg_hi = hi\<rparr>"
  have i: "i \<le> length rs" and gt: "\<And>k. i \<le> k \<Longrightarrow> k < length rs \<Longrightarrow> rg_lo (rs ! k) > lo"
    and le: "i > 0 \<Longrightarrow> rg_lo (rs ! (i - 1)) \<le> lo"
    using settled_pos_split [of "length rs" rs lo] by (auto simp: i_def)
  have rs: "rs = L @ R" "length L = i" using i by (simp_all add: L_def R_def)
  have inv: "ranges_inv L" "ranges_inv R" "\<forall>a\<in>set L. \<forall>b\<in>set R. apart a b"
    using assms(1) rs by (simp_all add: ranges_inv_append)
  have R: "\<forall>r\<in>set R. lo < rg_lo r" using gt by (auto simp: R_def in_set_conv_nth)
  have new: "range_ok ?new" using assms by (simp add: range_ok_def)
  show ?thesis
  proof (cases "i > 0 \<and> rg_hi (rs ! (i - 1)) + 1 \<ge> lo")
    case True
    define a where "a = rs ! (i - 1)"
    define A where "A = take (i - 1) rs"
    have L: "L = A @ [a]" using conjunct1 [OF True] i take_last [of i rs] by (simp add: L_def A_def a_def)
    then have a: "range_ok a" "ranges_inv A" "\<forall>x\<in>set A. apart x a" using inv(1) by (auto simp: ranges_inv_append)
    let ?a = "a\<lparr>rg_hi := max (rg_hi a) hi\<rparr>"
    have al: "rg_lo a \<le> lo" "lo \<le> rg_hi a + 1" using le True by (simp_all add: a_def)
    note m = merged_range [OF a(1) new, simplified, OF al]
    have R': "\<forall>b\<in>set R. rg_lo ?a \<le> rg_lo b" using R al(1) by fastforce
    note c = coalesce_inv [OF m(1) inv(2) R', simplified]
    have "\<forall>x\<in>set A. \<forall>y\<in>set (coalesce ?a R). apart x y"
      using a(3) c by (fastforce simp: apart_def word_le_nat_alt)
    moreover have "inserted lo hi rs = A @ coalesce ?a R"
      using True al by (simp add: inserted_def Let_def A_def a_def R_def flip: i_def)
    ultimately show ?thesis
      using c a m rs L by (auto simp: ranges_inv_append)
  next
    case False
    have "\<forall>x\<in>set L. unat (rg_hi x) + 1 < unat lo"
    proof (cases "i = 0")
      case False
      define a where "a = rs ! (i - 1)"
      have L: "L = take (i - 1) rs @ [a]" using False i take_last [of i rs] by (simp add: L_def a_def)
      have "range_ok a" "\<forall>x\<in>set (take (i - 1) rs). apart x a" using inv(1) L by (auto simp: ranges_inv_append)
      moreover have "\<not> lo \<le> rg_hi a + 1" using \<open>\<not> (i > 0 \<and> rg_hi (rs ! (i - 1)) + 1 \<ge> lo)\<close> False by (simp add: a_def)
      moreover have "unat (rg_lo a) \<le> unat (rg_hi a)" using \<open>range_ok a\<close> by (simp add: range_ok_def word_le_nat_alt)
      ultimately show ?thesis using L touches_iff [of a lo] by (fastforce simp: apart_def)
    qed (simp add: L_def)
    moreover have R': "\<forall>b\<in>set R. rg_lo ?new \<le> rg_lo b" using R by force
    moreover note c = coalesce_inv [OF new inv(2) R', simplified]
    ultimately have "\<forall>x\<in>set L. \<forall>y\<in>set (coalesce ?new R). apart x y"
      using R by (fastforce simp: apart_def word_le_nat_alt)
    moreover have "inserted lo hi rs = L @ coalesce ?new R"
      using False by (auto simp add: inserted_def Let_def L_def R_def simp flip: i_def)
    ultimately show ?thesis
      using c R inv(1) rs by (fastforce simp: ranges_inv_append)
  qed
qed

lemma settled_bound_inv:
  assumes "ranges_inv rs" "length rs \<le> Suc maxSettledRanges"
  shows "settled_inv (settled_bound rs) \<and> members rs \<subseteq> members (settled_bound rs)"
proof (cases "length rs > maxSettledRanges")
  case True
  then have "1 < length rs" by (simp add: maxSettledRanges_def)
  then obtain a b t where rs: "rs = a # b # t" by (metis One_nat_def length_0_conv list.exhaust list.size(4) less_irrefl less_nat_zero_code add_0)
  then have ab: "apart a b" "range_ok a" "range_ok b" "\<forall>q\<in>set t. apart b q" "ranges_inv t" using assms(1) by auto
  then have "range_ok (b\<lparr>rg_lo := rg_lo a\<rparr>)" "rg_lo a \<le> rg_lo b"
    by (auto simp: range_ok_def apart_def word_le_nat_alt)
  with ab rs assms(2) True show ?thesis
    by (auto simp: settled_bound_def settled_inv_def apart_def range_ok_def word_le_nat_alt)
next
  case False
  with assms show ?thesis by (simp add: settled_bound_def settled_inv_def)
qed

lemma settled_add_inv:
  assumes "settled_inv rs" "hi \<le> MaxGroupSequence"
  shows "settled_inv (settled_add lo hi rs) \<and> members rs \<union> {lo..hi} \<subseteq> members (settled_add lo hi rs)"
proof (cases "hi < lo")
  case True
  with assms show ?thesis by (simp add: settled_add_inserted)
next
  case False
  with inserted_inv [of rs lo hi] settled_bound_inv [of "inserted lo hi rs"] assms show ?thesis
    by (auto simp: settled_add_inserted settled_inv_def not_less)
qed

lemma settled_covers_iff:
  assumes "settled_inv rs" "lo \<le> hi"
  shows "settled_covers rs lo hi \<longleftrightarrow> {lo..hi} \<subseteq> members rs"
proof
  assume "settled_covers rs lo hi"
  then obtain r where "r \<in> set rs" "rg_lo r \<le> lo" "hi \<le> rg_hi r" by (auto simp: settled_covers_def list_ex_iff)
  then show "{lo..hi} \<subseteq> members rs" by (auto simp: members_def intro!: bexI [of _ r])
next
  assume sub: "{lo..hi} \<subseteq> members rs"
  then have "lo \<in> members rs" using assms(2) by auto
  then obtain r where r: "r \<in> set rs" "rg_lo r \<le> lo" "lo \<le> rg_hi r" by (auto simp: members_def)
  have ok: "range_ok r" using r(1) assms(1) by (simp add: settled_inv_def ranges_inv_def)
  have "hi \<le> rg_hi r"
  proof (rule ccontr)
    assume "\<not> hi \<le> rg_hi r"
    let ?x = "rg_hi r + 1"
    have x: "unat ?x = unat (rg_hi r) + 1" using ok by (simp add: range_ok_def unat_Suc_sequence)
    then have "?x \<in> {lo..hi}" using r(3) \<open>\<not> hi \<le> rg_hi r\<close> by (simp add: word_le_nat_alt)
    then obtain q where q: "q \<in> set rs" "?x \<in> {rg_lo q..rg_hi q}" using sub by (auto simp: members_def)
    then have u: "unat (rg_lo q) \<le> unat (rg_hi r) + 1" "unat (rg_hi r) + 1 \<le> unat (rg_hi q)"
      by (simp_all only: in_range_iff x)
    have "q = r \<or> apart q r \<or> apart r q"
      using r(1) q(1) assms(1) apart_hi [of rs] unfolding settled_inv_def in_set_conv_nth
      by (metis linorder_neqE_nat)
    then show False using u ok by (auto simp: apart_def range_ok_def word_le_nat_alt)
  qed
  then show "settled_covers rs lo hi" using r by (auto simp: settled_covers_def list_ex_iff)
qed

text \<open>The ranges are canonical: what they stand for determines them.\<close>

lemma above_apart:
  assumes "\<forall>q\<in>set rs. apart a q" "ranges_inv rs" "x \<in> members rs"
  shows "unat (rg_hi a) + 1 < unat x"
proof -
  obtain q where "q \<in> set rs" "rg_lo q \<le> x" using assms(3) by (auto simp: members_def)
  then show ?thesis using assms(1) by (fastforce simp: apart_def word_le_nat_alt)
qed

lemma head_of_members:
  assumes "ranges_inv (a # rs)" "ranges_inv (b # qs)" "members (a # rs) = members (b # qs)"
  shows "rg_lo b \<le> rg_lo a" "rg_hi b \<le> rg_hi a"
proof -
  have a: "unat (rg_lo a) \<le> unat (rg_hi a)" and b: "unat (rg_lo b) \<le> unat (rg_hi b)" "rg_hi b \<le> MaxGroupSequence"
    "rg_hi a \<le> MaxGroupSequence"
    using assms(1,2) by (auto simp: range_ok_def word_le_nat_alt)
  have up: "unat (rg_hi b) + 1 < unat x" if "x \<in> members qs" for x
    using above_apart that assms(2) by auto
  have "rg_lo a \<in> members (b # qs)" unfolding assms(3) [symmetric] using a by (simp add: word_le_nat_alt)
  then have "rg_lo a \<in> {rg_lo b..rg_hi b} \<union> members qs" by simp
  then show lo: "rg_lo b \<le> rg_lo a" using up b(1) by (force simp: word_le_nat_alt)
  show "rg_hi b \<le> rg_hi a"
  proof (rule ccontr)
    assume "\<not> rg_hi b \<le> rg_hi a"
    then have lt: "unat (rg_hi a) < unat (rg_hi b)" by (simp add: word_le_nat_alt)
    then have s: "unat (rg_hi a + 1) = unat (rg_hi a) + 1" using unat_Suc_sequence b(3) by blast
    then have "rg_hi a + 1 \<in> members (a # rs)" unfolding assms(3) using lt lo a by (simp add: word_le_nat_alt)
    then have "rg_hi a + 1 \<in> {rg_lo a..rg_hi a} \<union> members rs" by simp
    then show False using s above_apart [of rs a "rg_hi a + 1"] assms(1) by (auto simp: word_le_nat_alt)
  qed
qed

lemma ranges_unique: "\<lbrakk>ranges_inv rs; ranges_inv qs; members rs = members qs\<rbrakk> \<Longrightarrow> rs = qs"
proof (induction rs arbitrary: qs)
  case Nil
  then show ?case by (cases qs) (auto simp: range_ok_def)
next
  case (Cons a rs)
  then obtain b qs' where q: "qs = b # qs'" by (cases qs) (auto simp: range_ok_def)
  note h = head_of_members [OF Cons.prems(1) Cons.prems(2) [unfolded q] Cons.prems(3) [unfolded q]]
    head_of_members [OF Cons.prems(2) [unfolded q] Cons.prems(1) Cons.prems(3) [unfolded q, symmetric]]
  have ab: "a = b" by (rule groupRange.equality) (use h in auto)
  have "members rs = members (a # rs) - {rg_lo a..rg_hi a}"
    using above_apart [of rs a] Cons.prems(1) by (fastforce simp: word_le_nat_alt)
  moreover have "members qs' = members (b # qs') - {rg_lo b..rg_hi b}"
    using above_apart [of qs' b] Cons.prems(2) q by (fastforce simp: word_le_nat_alt)
  ultimately have "members rs = members qs'" using Cons.prems(3) q ab by simp
  then show ?case using Cons.IH Cons.prems(1,2) q ab by simp
qed

lemma settled_add_members:
  assumes "settled_inv rs" "hi \<le> MaxGroupSequence" "length rs < maxSettledRanges"
  shows "members (settled_add lo hi rs) = members rs \<union> {lo..hi}"
proof (cases "hi < lo")
  case False
  then have "settled_bound (inserted lo hi rs) = inserted lo hi rs"
    using inserted_inv [of rs lo hi] assms by (simp add: settled_bound_def settled_inv_def not_less)
  then show ?thesis
    using False inserted_inv [of rs lo hi] assms by (auto simp: settled_add_inserted settled_inv_def)
qed (simp add: settled_add_inserted)

text \<open>Adding what is settled already changes nothing.\<close>

lemma settled_add_again:
  assumes "settled_inv rs" "hi \<le> MaxGroupSequence" "{lo..hi} \<subseteq> members rs"
  shows "settled_add lo hi rs = rs"
proof (cases "hi < lo")
  case False
  then have "inserted lo hi rs = rs"
    using inserted_inv [of rs lo hi] assms by (intro ranges_unique) (auto simp: settled_inv_def)
  then show ?thesis using False assms(1) by (simp add: settled_add_inserted settled_bound_def settled_inv_def)
qed (simp add: settled_add_inserted)

text \<open>The code's ranges keep what the interface promises.\<close>

interpretation settled: settled_set settled_inv members "[]" settled_add settled_covers
proof unfold_locales
  show "settled_inv []" by (simp add: settled_inv_def)
  show "members [] = {}" by simp
  show "settled_inv (settled_add lo hi s)" if "settled_inv s" "hi \<le> MaxGroupSequence" for s lo hi
    using settled_add_inv [OF that] by blast
  show "members s \<union> {lo..hi} \<subseteq> members (settled_add lo hi s)"
    if "settled_inv s" "hi \<le> MaxGroupSequence" for s lo hi
    using settled_add_inv [OF that] by blast
  show "settled_covers s lo hi \<longleftrightarrow> {lo..hi} \<subseteq> members s" if "settled_inv s" "lo \<le> hi" for s lo hi
    using settled_covers_iff [OF that] .
qed

section \<open>Properties\<close>

text \<open>C25 Adding a range to the settled groups keeps them sorted, disjoint, merged where they touch and at
  most 1024 ranges long, and until that bound is reached settles exactly the sequences of the range,
  nothing else.\<close>
theorem settled_add_exact:
  assumes "settled_inv rs" "hi \<le> MaxGroupSequence"
  shows "settled_inv (settled_add lo hi rs) \<and> members rs \<union> {lo..hi} \<subseteq> members (settled_add lo hi rs) \<and>
    (length rs < maxSettledRanges \<longrightarrow> members (settled_add lo hi rs) = members rs \<union> {lo..hi})"
  using settled_add_inv [OF assms, of lo] settled_add_members [OF assms, of lo] by blast

text \<open>Whatever ranges have been settled, in whatever order, every part of each of them is covered from
  then on, also after the oldest gaps were given up.\<close>
lemma settled_never_forgotten:
  assumes "\<forall>(lo, hi)\<in>set rs. hi \<le> MaxGroupSequence" "(lo, hi) \<in> set rs" "lo \<le> lo'" "lo' \<le> hi'" "hi' \<le> hi"
  shows "settled_covers (fold (\<lambda>(lo, hi). settled_add lo hi) rs []) lo' hi'"
  using settled.settled_stays [OF assms] by (simp add: settled.adds_def)

text \<open>covers answers for an interval exactly whether every sequence in it is settled.\<close>
lemma settled_covers_exact:
  assumes "settled_inv rs" "lo \<le> hi"
  shows "settled_covers rs lo hi \<longleftrightarrow> {lo..hi} \<subseteq> members rs"
  using assms by (rule settled.covers_iff)

text \<open>A group sequence other than the last of the 64-bit range comes back from its wire form; but the
  wire form of MaxGroupSequence, documented as valid, is 2^62, for which there is no varint, so
  that encoding a SUBSCRIBE with it panics.\<close>
lemma sequence_wire:
  "(gs \<noteq> - 1 \<longrightarrow> groupSequenceFromWire (groupSequenceToWire gs) = gs) \<and>
   VarintLen (groupSequenceToWire MaxGroupSequence) = None \<and>
   (gs < MaxGroupSequence \<longrightarrow> VarintLen (groupSequenceToWire gs) \<noteq> None)"
proof (intro conjI impI)
  assume "gs \<noteq> - 1"
  then have "gs + 1 \<noteq> 0" by (metis add.commute add_eq_0_iff)
  then show "groupSequenceFromWire (groupSequenceToWire gs) = gs"
    by (simp add: groupSequenceFromWire_def groupSequenceToWire_def sequence_defs)
next
  show "VarintLen (groupSequenceToWire MaxGroupSequence) = None"
    by (simp add: VarintLen_def groupSequenceToWire_def sequence_defs maxVarInt_defs)
next
  assume "gs < MaxGroupSequence"
  then have "groupSequenceToWire gs \<le> maxVarInt8"
    by (auto simp: groupSequenceToWire_def sequence_defs maxVarInt8_def word_less_nat_alt word_le_nat_alt unat_word_ariths)
  then show "VarintLen (groupSequenceToWire gs) \<noteq> None"
    using varint_fits by (fastforce simp: VarintLen_varint)
qed

text \<open>The urgency of every priority is one of RFC 9218's eight; a higher priority is never less urgent,
  the lowest is the least urgent and the highest the most; the incremental bit is the negated
  ordering.\<close>
lemma urgency_monotone:
  assumes "p \<le> q"
  shows "fst (urgencyFor q ord) \<le> fst (urgencyFor p ord') \<and> fst (urgencyFor p ord) \<in> {0..7} \<and>
    urgencyFor 0 ord = (7, \<not> ord) \<and> urgencyFor 255 ord = (0, \<not> ord)"
proof -
  have "unat p \<le> unat q" "unat q \<le> 255" using assms unsigned_less [of q, where ?'a = nat] by (simp_all add: word_le_nat_alt)
  moreover have "int (unat p) * 7 div 255 \<le> int (unat q) * 7 div 255"
    using assms by (intro zdiv_mono1) (simp_all add: word_le_def)
  moreover have "int (unat q) * 7 div 255 \<le> 7"
    using unsigned_less [of q, where ?'a = int] by simp
  moreover have "int (unat p) * 7 div 255 \<ge> 0"
    by (subst pos_imp_zdiv_nonneg_iff) simp_all
  ultimately show ?thesis by (auto simp: urgencyFor_def)
qed

section \<open>The properties at concrete values\<close>

lemma settled_add_exact_witness:
  "members (settled_add 2 3 [\<lparr>rg_lo = 1, rg_hi = 1\<rparr>, \<lparr>rg_lo = 4, rg_hi = 4\<rparr>]) = {1..1} \<union> {4..4} \<union> {2..3}"
  using settled_add_exact [of "[\<lparr>rg_lo = 1, rg_hi = 1\<rparr>, \<lparr>rg_lo = 4, rg_hi = 4\<rparr>]" 3 2]
  by (simp add: settled_inv_def range_ok_def apart_def MaxGroupSequence_def maxSettledRanges_def)

end
