(* ===== verification/Codes.thy ===== *)
theory Codes
  imports Prelude
begin

text \<open>
  The error codes of moqt/errors.go, 32-bit numbers on the wire, and their texts. A text is empty
  for a code that is not known.
\<close>

type_synonym code = "32 word"

section \<open>AnnounceErrorCode\<close>

definition AnnounceErrorCodeInternal :: code where "AnnounceErrorCodeInternal = 0x0"
definition AnnounceErrorCodeDuplicated :: code where "AnnounceErrorCodeDuplicated = 0x1"
definition AnnounceErrorCodeInvalidStatus :: code where "AnnounceErrorCodeInvalidStatus = 0x2"
definition UninterestedErrorCode :: code where "UninterestedErrorCode = 0x3"
definition BannedPrefixErrorCode :: code where "BannedPrefixErrorCode = 0x4"
definition AnnounceErrorCodeInvalidPrefix :: code where "AnnounceErrorCodeInvalidPrefix = 0x5"
definition AnnounceErrorCodeUnauthorized :: code where "AnnounceErrorCodeUnauthorized = 0x6"

lemmas AnnounceErrorCode_defs =
  AnnounceErrorCodeInternal_def AnnounceErrorCodeDuplicated_def AnnounceErrorCodeInvalidStatus_def
  UninterestedErrorCode_def BannedPrefixErrorCode_def AnnounceErrorCodeInvalidPrefix_def
  AnnounceErrorCodeUnauthorized_def

definition AnnounceErrorCode_String :: "code \<Rightarrow> string" where
  "AnnounceErrorCode_String code =
     (if code = AnnounceErrorCodeInternal then ''moqt: internal error''
      else if code = AnnounceErrorCodeDuplicated then ''moqt: duplicated broadcast path''
      else if code = AnnounceErrorCodeInvalidStatus then ''moqt: invalid announce status''
      else if code = UninterestedErrorCode then ''moqt: uninterested''
      else if code = BannedPrefixErrorCode then ''moqt: banned prefix''
      else if code = AnnounceErrorCodeInvalidPrefix then ''moqt: invalid prefix''
      else if code = AnnounceErrorCodeUnauthorized then ''moqt: unauthorized''
      else '''')"

section \<open>SubscribeErrorCode\<close>

definition SubscribeErrorCodeInternal :: code where "SubscribeErrorCodeInternal = 0x00"
definition SubscribeErrorCodeInvalidRange :: code where "SubscribeErrorCodeInvalidRange = 0x01"
definition SubscribeErrorCodeDuplicateID :: code where "SubscribeErrorCodeDuplicateID = 0x02"
definition SubscribeErrorCodeNotFound :: code where "SubscribeErrorCodeNotFound = 0x03"
definition SubscribeErrorCodeUnauthorized :: code where "SubscribeErrorCodeUnauthorized = 0x04"
definition SubscribeErrorCodeTimeout :: code where "SubscribeErrorCodeTimeout = 0x05"

lemmas SubscribeErrorCode_defs =
  SubscribeErrorCodeInternal_def SubscribeErrorCodeInvalidRange_def SubscribeErrorCodeDuplicateID_def
  SubscribeErrorCodeNotFound_def SubscribeErrorCodeUnauthorized_def SubscribeErrorCodeTimeout_def

definition SubscribeErrorCode_String :: "code \<Rightarrow> string" where
  "SubscribeErrorCode_String code =
     (if code = SubscribeErrorCodeInternal then ''moqt: internal error''
      else if code = SubscribeErrorCodeInvalidRange then ''moqt: invalid range''
      else if code = SubscribeErrorCodeDuplicateID then ''moqt: duplicated id''
      else if code = SubscribeErrorCodeNotFound then ''moqt: track does not exist''
      else if code = SubscribeErrorCodeUnauthorized then ''moqt: unauthorized''
      else if code = SubscribeErrorCodeTimeout then ''moqt: timeout''
      else '''')"

section \<open>FetchErrorCode\<close>

definition FetchErrorCodeInternal :: code where "FetchErrorCodeInternal = 0x00"
definition FetchErrorCodeTimeout :: code where "FetchErrorCodeTimeout = 0x01"

lemmas FetchErrorCode_defs =
  FetchErrorCodeInternal_def FetchErrorCodeTimeout_def

definition FetchErrorCode_String :: "code \<Rightarrow> string" where
  "FetchErrorCode_String code =
     (if code = FetchErrorCodeInternal then ''moqt: internal error''
      else if code = FetchErrorCodeTimeout then ''moqt: timeout''
      else '''')"

section \<open>ProbeErrorCode\<close>

definition ProbeErrorCodeInternal :: code where "ProbeErrorCodeInternal = 0x00"
definition ProbeErrorCodeTimeout :: code where "ProbeErrorCodeTimeout = 0x01"
definition ProbeErrorCodeNotSupported :: code where "ProbeErrorCodeNotSupported = 0x02"

lemmas ProbeErrorCode_defs =
  ProbeErrorCodeInternal_def ProbeErrorCodeTimeout_def ProbeErrorCodeNotSupported_def

definition ProbeErrorCode_String :: "code \<Rightarrow> string" where
  "ProbeErrorCode_String code =
     (if code = ProbeErrorCodeInternal then ''moqt: internal error''
      else if code = ProbeErrorCodeTimeout then ''moqt: timeout''
      else if code = ProbeErrorCodeNotSupported then ''moqt: not supported''
      else '''')"

section \<open>SessionErrorCode\<close>

definition NoError :: code where "NoError = 0x0"
definition InternalSessionErrorCode :: code where "InternalSessionErrorCode = 0x1"
definition UnauthorizedSessionErrorCode :: code where "UnauthorizedSessionErrorCode = 0x2"
definition ProtocolViolationErrorCode :: code where "ProtocolViolationErrorCode = 0x3"
definition ParameterLengthMismatchErrorCode :: code where "ParameterLengthMismatchErrorCode = 0x5"
definition TooManySubscribeErrorCode :: code where "TooManySubscribeErrorCode = 0x6"
definition GoAwayTimeoutErrorCode :: code where "GoAwayTimeoutErrorCode = 0x10"
definition UnsupportedVersionErrorCode :: code where "UnsupportedVersionErrorCode = 0x12"
definition SetupFailedErrorCode :: code where "SetupFailedErrorCode = 0x13"
definition NotSupportedErrorCode :: code where "NotSupportedErrorCode = 0x30"

lemmas SessionErrorCode_defs =
  NoError_def InternalSessionErrorCode_def UnauthorizedSessionErrorCode_def
  ProtocolViolationErrorCode_def ParameterLengthMismatchErrorCode_def TooManySubscribeErrorCode_def
  GoAwayTimeoutErrorCode_def UnsupportedVersionErrorCode_def SetupFailedErrorCode_def
  NotSupportedErrorCode_def

definition SessionErrorCode_String :: "code \<Rightarrow> string" where
  "SessionErrorCode_String code =
     (if code = NoError then ''moqt: no error''
      else if code = InternalSessionErrorCode then ''moqt: internal error''
      else if code = UnauthorizedSessionErrorCode then ''moqt: unauthorized''
      else if code = ProtocolViolationErrorCode then ''moqt: protocol violation''
      else if code = ParameterLengthMismatchErrorCode then ''moqt: parameter length mismatch''
      else if code = TooManySubscribeErrorCode then ''moqt: too many subscribes''
      else if code = GoAwayTimeoutErrorCode then ''moqt: goaway timeout''
      else if code = UnsupportedVersionErrorCode then ''moqt: unsupported version''
      else if code = SetupFailedErrorCode then ''moqt: setup failed''
      else if code = NotSupportedErrorCode then ''moqt: not supported''
      else '''')"

section \<open>GroupErrorCode\<close>

definition InternalGroupErrorCode :: code where "InternalGroupErrorCode = 0x00"
definition OutOfRangeErrorCode :: code where "OutOfRangeErrorCode = 0x02"
definition ExpiredGroupErrorCode :: code where "ExpiredGroupErrorCode = 0x03"
definition SubscribeCanceledErrorCode :: code where "SubscribeCanceledErrorCode = 0x04"
definition PublishAbortedErrorCode :: code where "PublishAbortedErrorCode = 0x05"
definition ClosedSessionGroupErrorCode :: code where "ClosedSessionGroupErrorCode = 0x06"
definition InvalidSubscribeIDErrorCode :: code where "InvalidSubscribeIDErrorCode = 0x07"
definition UnauthorizedGroupErrorCode :: code where "UnauthorizedGroupErrorCode = 0x08"

lemmas GroupErrorCode_defs =
  InternalGroupErrorCode_def OutOfRangeErrorCode_def ExpiredGroupErrorCode_def
  SubscribeCanceledErrorCode_def PublishAbortedErrorCode_def ClosedSessionGroupErrorCode_def
  InvalidSubscribeIDErrorCode_def UnauthorizedGroupErrorCode_def

definition GroupErrorCode_String :: "code \<Rightarrow> string" where
  "GroupErrorCode_String code =
     (if code = InternalGroupErrorCode then ''moqt: internal error''
      else if code = OutOfRangeErrorCode then ''moqt: out of range''
      else if code = ExpiredGroupErrorCode then ''moqt: group expires''
      else if code = SubscribeCanceledErrorCode then ''moqt: subscribe canceled''
      else if code = PublishAbortedErrorCode then ''moqt: publish aborted''
      else if code = ClosedSessionGroupErrorCode then ''moqt: session closed''
      else if code = InvalidSubscribeIDErrorCode then ''moqt: invalid subscribe id''
      else if code = UnauthorizedGroupErrorCode then ''moqt: unauthorized''
      else '''')"

end
