(* ===== verification/Authorization.thy ===== *)
theory Authorization
  imports Messages Paths Codes "HOL-Library.AList"
begin

text \<open>
  Tokens and what they allow (moqt/auth.go): grants and their wire form, the AuthWriter that
  answers one token, the scope that is the union of the grants in force on a session, and the
  presenter's reading of the answers.

  A writer is named by a number; \<open>0\<close> is the one for the credential the connection carried, which
  has no stream. Durations are int64 nanoseconds. The Unicode tables \<open>U\<close> the wildcard names are
  checked with are a parameter.
\<close>

section \<open>Grants\<close>

definition maxAuthExpires :: uint64 where "maxAuthExpires = 2 ^ 53 - 1"
definition maxAuthReasonLength :: nat where "maxAuthReasonLength = 8192"

definition MaxInt64 :: int where "MaxInt64 = 2 ^ 63 - 1"
definition Millisecond :: int where "Millisecond = 1000000"

record Grant =
  g_Root :: string
  g_Publish :: "string list"
  g_Subscribe :: "string list"
  g_MaxAge :: int

definition noGrant :: Grant where
  "noGrant = \<lparr>g_Root = [], g_Publish = [], g_Subscribe = [], g_MaxAge = 0\<rparr>"

datatype auth_error =
    StreamError error \<comment> \<open>the stream ended\<close>
  | InvalidPathPattern
  | InvalidGrant
  | GrantTooLarge
  | AuthViolation
  | AuthReply code string \<comment> \<open>*AuthError\<close>
  | AuthEnded
  | SendFailed error

definition Milliseconds :: "int \<Rightarrow> int" where
  "Milliseconds d = (if 0 \<le> d then d div Millisecond else - (- d div Millisecond))"

definition Grant_message :: "Grant \<Rightarrow> AuthOkMessage" where
  "Grant_message g =
     (let m = \<lparr>aokm_Root = g_Root g, aokm_PublishPatterns = g_Publish g, aokm_SubscribePatterns = g_Subscribe g,
               aokm_Expires = word_of_int (Milliseconds (g_MaxAge g))\<rparr>
      in if g_MaxAge g > 0 \<and> aokm_Expires m = 0 then m\<lparr>aokm_Expires := 1\<rparr> else m)"

record scopeGrant =
  sg_root :: string
  sg_publish :: "PathPattern list"
  sg_subscribe :: "PathPattern list"

definition noScopeGrant :: scopeGrant where
  "noScopeGrant = \<lparr>sg_root = [], sg_publish = [], sg_subscribe = []\<rparr>"

definition sameScope :: "scopeGrant \<Rightarrow> scopeGrant \<Rightarrow> bool" where
  "sameScope g h =
     (sg_root g = sg_root h \<and>
      list_all2 (\<lambda>p q. pp_raw p = pp_raw q) (sg_publish g) (sg_publish h) \<and>
      list_all2 (\<lambda>p q. pp_raw p = pp_raw q) (sg_subscribe g) (sg_subscribe h))"

fun parsePatterns :: "unicode \<Rightarrow> string \<Rightarrow> string list \<Rightarrow> auth_error + PathPattern list" where
  "parsePatterns U root [] = Inr []"
| "parsePatterns U root (s # ss) =
     (case joinPattern U root s of
        Inl _ \<Rightarrow> Inl InvalidPathPattern
      | Inr p \<Rightarrow> (case parsePatterns U root ss of Inl e \<Rightarrow> Inl e | Inr ps \<Rightarrow> Inr (p # ps)))"

definition parseGrant :: "unicode \<Rightarrow> Grant \<Rightarrow> auth_error + scopeGrant" where
  "parseGrant U g =
     (if g_Root g = [] then
        (if length (g_Publish g) > 0 \<or> length (g_Subscribe g) > 0 then Inl InvalidPathPattern
         else Inr noScopeGrant)
      else if \<not> isValidGrantRoot (g_Root g) then Inl InvalidPathPattern
      else
        (case parsePatterns U (g_Root g) (g_Publish g) of
           Inl e \<Rightarrow> Inl e
         | Inr publish \<Rightarrow>
             (case parsePatterns U (g_Root g) (g_Subscribe g) of
                Inl e \<Rightarrow> Inl e
              | Inr subscribe \<Rightarrow> Inr \<lparr>sg_root = g_Root g, sg_publish = publish, sg_subscribe = subscribe\<rparr>)))"

text \<open>None is the panic of Len on a string of 2^62 bytes.\<close>

definition Grant_check :: "unicode \<Rightarrow> Grant \<Rightarrow> (auth_error + scopeGrant \<times> AuthOkMessage) option" where
  "Grant_check U g =
     (if g_MaxAge g < 0 then Some (Inl InvalidGrant)
      else
        (case parseGrant U g of
           Inl e \<Rightarrow> Some (Inl e)
         | Inr sg \<Rightarrow>
             let m = Grant_message g in
             do { n \<leftarrow> AuthOk_Len m;
                  Some (if n > unat MaxMessageSize then Inl GrantTooLarge else Inr (sg, m)) }))"

definition Grant_Validate :: "unicode \<Rightarrow> Grant \<Rightarrow> auth_error option option" where
  "Grant_Validate U g =
     map_option (\<lambda>r. case r of Inl e \<Rightarrow> Some e | Inr _ \<Rightarrow> None) (Grant_check U g)"

definition grantFromMessage :: "unicode \<Rightarrow> AuthOkMessage \<Rightarrow> auth_error + Grant" where
  "grantFromMessage U m =
     (let g = \<lparr>g_Root = aokm_Root m, g_Publish = aokm_PublishPatterns m, g_Subscribe = aokm_SubscribePatterns m,
               g_MaxAge = sint (aokm_Expires m * word_of_int Millisecond)\<rparr>;
          g = (if aokm_Expires m > word_of_int MaxInt64 div word_of_int Millisecond
               then g\<lparr>g_MaxAge := MaxInt64\<rparr> else g)
      in case parseGrant U g of Inl e \<Rightarrow> Inl e | Inr _ \<Rightarrow> Inr g)"

definition matchAny :: "PathPattern list \<Rightarrow> BroadcastPath \<Rightarrow> bool" where
  "matchAny patterns path = list_ex (\<lambda>p. Match p path) patterns"

section \<open>The scope\<close>

type_synonym writer = nat

text \<open>The grants in force by writer; \<open>sc_changed\<close> counts the calls of \<open>changed\<close>.\<close>

record authScope =
  sc_grants :: "(writer \<times> scopeGrant) list"
  sc_conn :: writer
  sc_ready :: bool
  sc_changed :: nat

definition newAuthScope :: authScope where
  "newAuthScope = \<lparr>sc_grants = [], sc_conn = 0, sc_ready = False, sc_changed = 0\<rparr>"

definition scope_answered :: "writer \<Rightarrow> authScope \<Rightarrow> authScope" where
  "scope_answered w s = (if w = sc_conn s then s\<lparr>sc_ready := True\<rparr> else s)"

definition scope_notify :: "authScope \<Rightarrow> authScope" where
  "scope_notify s = s\<lparr>sc_changed := sc_changed s + 1\<rparr>"

definition scope_set :: "writer \<Rightarrow> scopeGrant \<Rightarrow> authScope \<Rightarrow> authScope" where
  "scope_set w g s =
     (let old = map_of (sc_grants s) w;
          s = s\<lparr>sc_grants := AList.update w g (sc_grants s)\<rparr>;
          s = scope_answered w s
      in case old of
           None \<Rightarrow> scope_notify s
         | Some h \<Rightarrow> if \<not> sameScope h g then scope_notify s else s)"

definition scope_remove :: "writer \<Rightarrow> authScope \<Rightarrow> authScope" where
  "scope_remove w s =
     (let had = (map_of (sc_grants s) w \<noteq> None);
          s = s\<lparr>sc_grants := AList.delete w (sc_grants s)\<rparr>;
          s = scope_answered w s
      in if had then scope_notify s else s)"

text \<open>A nil scope (None) enforces nothing.\<close>

definition anyGrant :: "(scopeGrant \<Rightarrow> bool) \<Rightarrow> authScope option \<Rightarrow> bool" where
  "anyGrant ok s = (case s of None \<Rightarrow> True | Some s \<Rightarrow> list_ex (\<lambda>(w, g). ok g) (sc_grants s))"

definition canList :: "string \<Rightarrow> authScope option \<Rightarrow> bool" where
  "canList pfx = anyGrant (\<lambda>g. sg_root g \<noteq> [] \<and> HasPrefix_str pfx (sg_root g))"

definition canPublish :: "BroadcastPath \<Rightarrow> authScope option \<Rightarrow> bool" where
  "canPublish path = anyGrant (\<lambda>g. matchAny (sg_publish g) path)"

definition canSubscribe :: "BroadcastPath \<Rightarrow> authScope option \<Rightarrow> bool" where
  "canSubscribe path = anyGrant (\<lambda>g. matchAny (sg_subscribe g) path)"

text \<open>
  \<open>wait\<close>: the answers it may give, none while it blocks. With both channels ready the select
  picks either.
\<close>

definition scope_wait :: "authScope option \<Rightarrow> bool \<Rightarrow> bool set" where
  "scope_wait s ctxDone =
     (case s of None \<Rightarrow> {True}
      | Some s \<Rightarrow> (if sc_ready s then {True} else {}) \<union> (if ctxDone then {False} else {}))"

definition mayServe :: "authScope option \<Rightarrow> bool \<Rightarrow> BroadcastPath \<Rightarrow> bool set" where
  "mayServe s ctxDone path =
     (case s of None \<Rightarrow> {True} | Some _ \<Rightarrow> (\<lambda>ok. ok \<and> canSubscribe path s) ` scope_wait s ctxDone)"

section \<open>Answering a token\<close>

text \<open>\<open>aw_expiry\<close> is the generation the armed timer was set for. The generation is a counter.\<close>

record AuthWriter =
  aw_stream :: bool
  aw_ended :: bool
  aw_expiry :: "nat option"
  aw_generation :: nat

datatype auth_reply = ReplyOk AuthOkMessage | ReplyError AuthErrorMessage

text \<open>
  The writers of a session with its scope. \<open>au_timers\<close> are the expiry callbacks that were armed;
  Stop may come too late for one, so that any of them may still run. \<open>au_sent\<close> is what went out on
  the Auth Streams.
\<close>

record auth =
  au_scope :: authScope
  au_writers :: "writer \<Rightarrow> AuthWriter"
  au_timers :: "(writer \<times> nat) list"
  au_sent :: "(writer \<times> auth_reply) list"

definition newAuth :: auth where
  "newAuth =
     \<lparr>au_scope = newAuthScope,
      au_writers = (\<lambda>w. \<lparr>aw_stream = (w \<noteq> 0), aw_ended = False, aw_expiry = None, aw_generation = 0\<rparr>),
      au_timers = [], au_sent = []\<rparr>"

text \<open>\<open>for cut > 0 && !utf8.RuneStart(reason[cut]) { cut-- }\<close>\<close>

fun cut_back :: "string \<Rightarrow> nat \<Rightarrow> nat" where
  "cut_back reason 0 = 0"
| "cut_back reason (Suc k) = (if \<not> RuneStart (reason ! Suc k) then cut_back reason k else Suc k)"

definition authReason :: "string \<Rightarrow> string" where
  "authReason reason =
     (let reason = ToValidUTF8 reason [char_of_byte 0xEF, char_of_byte 0xBF, char_of_byte 0xBD] in
      if length reason \<le> maxAuthReasonLength then reason
      else take (cut_back reason maxAuthReasonLength) reason)"

text \<open>
  \<open>werr\<close> is what the transport returns for the write. A reply that is not written is not sent;
  the stream is closed either way.
\<close>

definition sendAuthError :: "error option \<Rightarrow> writer \<Rightarrow> code \<Rightarrow> string \<Rightarrow> auth \<Rightarrow> auth_error option \<times> auth" where
  "sendAuthError werr w code reason st =
     (case werr of
        Some e \<Rightarrow> (Some (SendFailed e), st)
      | None \<Rightarrow>
          (None, st\<lparr>au_sent := au_sent st @
             [(w, ReplyError \<lparr>aem_Code = ucast code, aem_Reason = authReason reason\<rparr>)]\<rparr>))"

definition update_writer :: "writer \<Rightarrow> (AuthWriter \<Rightarrow> AuthWriter) \<Rightarrow> auth \<Rightarrow> auth" where
  "update_writer w f st = st\<lparr>au_writers := (au_writers st)(w := f (au_writers st w))\<rparr>"

definition endLocked :: "writer \<Rightarrow> auth \<Rightarrow> auth" where
  "endLocked w st =
     (let st = update_writer w (\<lambda>a. a\<lparr>aw_ended := True, aw_expiry := None\<rparr>) st
      in st\<lparr>au_scope := scope_remove w (au_scope st)\<rparr>)"

definition refuseLocked :: "error option \<Rightarrow> writer \<Rightarrow> code \<Rightarrow> string \<Rightarrow> auth \<Rightarrow> auth_error option \<times> auth" where
  "refuseLocked werr w code reason st =
     (let st = endLocked w st in
      if \<not> aw_stream (au_writers st w) then (None, st) else sendAuthError werr w code reason st)"

definition AuthWriter_Refuse :: "error option \<Rightarrow> writer \<Rightarrow> code \<Rightarrow> string \<Rightarrow> auth \<Rightarrow> auth_error option \<times> auth" where
  "AuthWriter_Refuse werr w code reason st =
     (if aw_ended (au_writers st w) then (Some AuthEnded, st) else refuseLocked werr w code reason st)"

definition AuthWriter_end :: "writer \<Rightarrow> auth \<Rightarrow> auth" where
  "AuthWriter_end w st = (if \<not> aw_ended (au_writers st w) then endLocked w st else st)"

definition expireAfterLocked :: "writer \<Rightarrow> int \<Rightarrow> auth \<Rightarrow> auth" where
  "expireAfterLocked w d st =
     (let st = update_writer w (\<lambda>a. a\<lparr>aw_generation := aw_generation a + 1, aw_expiry := None\<rparr>) st in
      if d \<le> 0 then st
      else
        let generation = aw_generation (au_writers st w);
            st = update_writer w (\<lambda>a. a\<lparr>aw_expiry := Some generation\<rparr>) st
        in st\<lparr>au_timers := (w, generation) # au_timers st\<rparr>)"

text \<open>The callback of the timer that was armed for a generation.\<close>

definition expire :: "error option \<Rightarrow> writer \<Rightarrow> nat \<Rightarrow> auth \<Rightarrow> auth" where
  "expire werr w generation st =
     (if aw_ended (au_writers st w) \<or> aw_generation (au_writers st w) \<noteq> generation then st
      else snd (refuseLocked werr w UnauthorizedSessionErrorCode ''grant expired'' st))"

text \<open>AuthWriter.Grant; None is the panic of Len on a string of 2^62 bytes.\<close>

definition AuthWriter_Grant ::
    "unicode \<Rightarrow> error option \<Rightarrow> writer \<Rightarrow> Grant \<Rightarrow> auth \<Rightarrow> (auth_error option \<times> auth) option" where
  "AuthWriter_Grant U werr w g st =
     (case Grant_check U g of
        None \<Rightarrow> None
      | Some (Inl e) \<Rightarrow>
          Some (if e \<noteq> GrantTooLarge then (Some e, st)
                else if aw_ended (au_writers st w) then (Some AuthEnded, st)
                else (Some GrantTooLarge, snd (refuseLocked werr w NotSupportedErrorCode ''grant too large'' st)))
      | Some (Inr (sg, m)) \<Rightarrow>
          Some (if aw_ended (au_writers st w) then (Some AuthEnded, st)
                else
                  let st = st\<lparr>au_scope := scope_set w sg (au_scope st)\<rparr>;
                      st = expireAfterLocked w (g_MaxAge g) st
                  in if \<not> aw_stream (au_writers st w) then (None, st)
                     else (case werr of
                             Some e \<Rightarrow> (Some (SendFailed e), st)
                           | None \<Rightarrow> (None, st\<lparr>au_sent := au_sent st @ [(w, ReplyOk m)]\<rparr>))))"

text \<open>
  safeServeAuth: the calls a handler makes on its writer, in order, and then, whether it returned
  or panicked, the end of the grant.
\<close>

datatype handler_call = CallGrant Grant | CallRefuse code string

fun serve_calls :: "unicode \<Rightarrow> error option \<Rightarrow> writer \<Rightarrow> handler_call list \<Rightarrow> auth \<Rightarrow> auth" where
  "serve_calls U werr w [] st = st"
| "serve_calls U werr w (CallGrant g # cs) st =
     (case AuthWriter_Grant U werr w g st of None \<Rightarrow> st | Some (_, st) \<Rightarrow> serve_calls U werr w cs st)"
| "serve_calls U werr w (CallRefuse code reason # cs) st =
     serve_calls U werr w cs (snd (AuthWriter_Refuse werr w code reason st))"

definition safeServeAuth :: "unicode \<Rightarrow> error option \<Rightarrow> writer \<Rightarrow> handler_call list \<Rightarrow> auth \<Rightarrow> auth" where
  "safeServeAuth U werr w calls st = AuthWriter_end w (serve_calls U werr w calls st)"

section \<open>Steps\<close>

text \<open>
  What may happen to the writers of a session, in any order: a handler grants or refuses, a timer
  callback runs (its Stop may have come too late), a handler returns or a presenter withdraws.
\<close>

inductive auth_step :: "unicode \<Rightarrow> auth \<Rightarrow> auth \<Rightarrow> bool" for U where
  grant: "AuthWriter_Grant U werr w g st = Some (r, st') \<Longrightarrow> auth_step U st st'"
| refuse: "AuthWriter_Refuse werr w code reason st = (r, st') \<Longrightarrow> auth_step U st st'"
| expire: "(w, generation) \<in> set (au_timers st) \<Longrightarrow> auth_step U st (expire werr w generation st)"
| withdraw: "auth_step U st (AuthWriter_end w st)"

inductive auth_reach :: "unicode \<Rightarrow> auth \<Rightarrow> bool" for U where
  init: "auth_reach U newAuth"
| step: "auth_reach U st \<Longrightarrow> auth_step U st st' \<Longrightarrow> auth_reach U st'"

inductive_cases auth_stepE: "auth_step U st st'"

section \<open>Presenting a token\<close>

text \<open>decodeViolation: the end of the stream is not the peer's message; anything else is a violation.\<close>

definition decodeViolation :: "error \<Rightarrow> auth_error" where
  "decodeViolation e = (if e = EOF then StreamError e else AuthViolation)"

definition isProtocolViolation :: "auth_error \<Rightarrow> bool" where
  "isProtocolViolation e = (e = AuthViolation \<or> e = InvalidPathPattern)"

definition zeroAuthOk :: AuthOkMessage where
  "zeroAuthOk = \<lparr>aokm_Root = [], aokm_PublishPatterns = [], aokm_SubscribePatterns = [], aokm_Expires = 0\<rparr>"

definition zeroAuthError :: AuthErrorMessage where
  "zeroAuthError = \<lparr>aem_Code = 0, aem_Reason = []\<rparr>"

definition readAuthReply :: "unicode \<Rightarrow> bytes \<Rightarrow> (auth_error + Grant) \<times> bytes" where
  "readAuthReply U r =
     (case ReadAuthReplyType r of
        (Inl e, r) \<Rightarrow> (Inl (StreamError e), r)
      | (Inr t, r) \<Rightarrow>
          if t = AuthReplyOK then
            (case AuthOk_Decode zeroAuthOk r of
               (Some e, _, r) \<Rightarrow> (Inl (decodeViolation e), r)
             | (None, m, r) \<Rightarrow>
                 if aokm_Expires m > maxAuthExpires then (Inl AuthViolation, r)
                 else (grantFromMessage U m, r))
          else if t = AuthReplyError then
            (case AuthError_Decode zeroAuthError r of
               (Some e, _, r) \<Rightarrow> (Inl (decodeViolation e), r)
             | (None, m, r) \<Rightarrow>
                 if aem_Code m > 0xFFFFFFFF \<or> length (aem_Reason m) > maxAuthReasonLength \<or>
                    \<not> ValidString (aem_Reason m)
                 then (Inl AuthViolation, r)
                 else (Inl (AuthReply (ucast (aem_Code m)) (aem_Reason m)), r))
          else (Inl AuthViolation, r))"

text \<open>
  readReplies on what the stream delivers until it ends: the grant in force at the end, the cause the
  credential's context is cancelled with (None for nil), whether the session is closed for a
  violation. A reply takes at least one byte, so the length of the stream bounds the loop.
\<close>

fun readReplies :: "unicode \<Rightarrow> nat \<Rightarrow> Grant \<Rightarrow> bytes \<Rightarrow> Grant \<times> auth_error option \<times> bool" where
  "readReplies U 0 grant r = (grant, None, False)"
| "readReplies U (Suc fuel) grant r =
     (case readAuthReply U r of
        (Inr g, r) \<Rightarrow> readReplies U fuel g r
      | (Inl (AuthReply code reason), _) \<Rightarrow> (grant, Some (AuthReply code reason), False)
      | (Inl e, _) \<Rightarrow> (grant, None, e \<noteq> StreamError EOF \<and> isProtocolViolation e))"

section \<open>The scope as a union\<close>

definition scope_ok :: "unicode \<Rightarrow> authScope \<Rightarrow> bool" where
  "scope_ok U s \<longleftrightarrow> distinct (map fst (sc_grants s)) \<and>
     (\<forall>w g. map_of (sc_grants s) w = Some g \<longrightarrow>
        (\<forall>p\<in>set (sg_publish g) \<union> set (sg_subscribe g). \<exists>pattern. ParseGrantPattern U (sg_root g) pattern = Inr p))"

lemma anyGrant_iff:
  "distinct (map fst (sc_grants s)) \<Longrightarrow>
   anyGrant ok (Some s) \<longleftrightarrow> (\<exists>w g. map_of (sc_grants s) w = Some g \<and> ok g)"
  by (auto simp: anyGrant_def list_ex_iff)

lemma scope_set_grants [simp]:
  "map_of (sc_grants (scope_set w g s)) = (map_of (sc_grants s))(w \<mapsto> g)"
  "distinct (map fst (sc_grants s)) \<Longrightarrow> distinct (map fst (sc_grants (scope_set w g s)))"
  by (simp_all add: scope_set_def scope_answered_def scope_notify_def Let_def update_conv' distinct_update
      split: option.split)

lemma scope_remove_grants [simp]:
  "map_of (sc_grants (scope_remove w s)) = (map_of (sc_grants s))(w := None)"
  "distinct (map fst (sc_grants s)) \<Longrightarrow> distinct (map fst (sc_grants (scope_remove w s)))"
  by (simp_all add: scope_remove_def scope_answered_def scope_notify_def Let_def delete_conv' distinct_delete)

lemma parsePatterns_Inr:
  "parsePatterns U root ss = Inr ps \<Longrightarrow> isValidGrantRoot root \<Longrightarrow>
   \<forall>p\<in>set ps. \<exists>pattern. ParseGrantPattern U root pattern = Inr p"
  by (induction ss arbitrary: ps) (auto simp: ParseGrantPattern_def split: sum.splits)

lemma parseGrant_Inr:
  "parseGrant U g = Inr sg \<Longrightarrow>
   \<forall>p\<in>set (sg_publish sg) \<union> set (sg_subscribe sg). \<exists>pattern. ParseGrantPattern U (sg_root sg) pattern = Inr p"
  using parsePatterns_Inr [of U "g_Root g"]
  by (auto simp: parseGrant_def noScopeGrant_def split: sum.splits if_splits)

lemma scope_ok_set: "scope_ok U s \<Longrightarrow> parseGrant U g = Inr sg \<Longrightarrow> scope_ok U (scope_set w sg s)"
  using parseGrant_Inr [of U g sg] by (simp add: scope_ok_def)

lemma scope_ok_remove: "scope_ok U s \<Longrightarrow> scope_ok U (scope_remove w s)"
  by (simp add: scope_ok_def)

text \<open>Of parsed patterns, the text says everything.\<close>

lemma parsed_raw: "ParseGrantPattern U root pattern = Inr p \<Longrightarrow> ParsePathPattern U (pp_raw p) = Inr p"
proof -
  assume "ParseGrantPattern U root pattern = Inr p"
  then obtain pt where "ParsePathPattern U (root @ pt) = Inr p" by (rule ParseGrantPattern_raw)
  moreover from this have "pp_raw p = root @ pt"
    by (auto simp: ParsePathPattern_eq Let_def split: if_splits)
  ultimately show ?thesis by simp
qed

lemma parsed_raw_eq:
  "\<lbrakk>ParseGrantPattern U r s = Inr p; ParseGrantPattern U r' s' = Inr q; pp_raw p = pp_raw q\<rbrakk> \<Longrightarrow> p = q"
  by (metis parsed_raw Inr_inject)

lemma same_patterns:
  "\<lbrakk>list_all2 (\<lambda>p q. pp_raw p = pp_raw q) ps qs;
    \<forall>p\<in>set ps. \<exists>s. ParseGrantPattern U r s = Inr p; \<forall>q\<in>set qs. \<exists>s. ParseGrantPattern U r' s = Inr q\<rbrakk> \<Longrightarrow> ps = qs"
proof (induction rule: list_all2_induct)
  case (Cons p ps q qs)
  obtain s s' where "ParseGrantPattern U r s = Inr p" "ParseGrantPattern U r' s' = Inr q"
    using Cons.prems by (metis list.set_intros(1))
  then have "p = q" using Cons.hyps(1) by (rule parsed_raw_eq)
  moreover have "ps = qs" using Cons.prems by (intro Cons.IH) simp_all
  ultimately show ?case by simp
qed simp

text \<open>A grant that counts as the same scope is the same grant.\<close>

lemma sameScope_eq:
  assumes "sameScope g h"
    "\<forall>p\<in>set (sg_publish g) \<union> set (sg_subscribe g). \<exists>s. ParseGrantPattern U (sg_root g) s = Inr p"
    "\<forall>p\<in>set (sg_publish h) \<union> set (sg_subscribe h). \<exists>s. ParseGrantPattern U (sg_root h) s = Inr p"
  shows "g = h"
proof -
  have "sg_publish g = sg_publish h" "sg_subscribe g = sg_subscribe h"
    using assms by (auto simp: sameScope_def intro!: same_patterns)
  then show ?thesis using assms(1) by (simp add: sameScope_def)
qed

lemma scope_set_count:
  "sc_changed (scope_set w g s) = sc_changed s +
     (case map_of (sc_grants s) w of None \<Rightarrow> 1 | Some h \<Rightarrow> if sameScope h g then 0 else 1)"
  by (simp add: scope_set_def scope_notify_def scope_answered_def Let_def split: option.split)

lemma scope_remove_count:
  "sc_changed (scope_remove w s) = sc_changed s + (case map_of (sc_grants s) w of None \<Rightarrow> 0 | Some h \<Rightarrow> 1)"
  by (auto simp: scope_remove_def scope_notify_def scope_answered_def Let_def split: option.split)

lemma scope_set_changed:
  assumes "scope_ok U s" "parseGrant U g = Inr sg" "sc_changed (scope_set w sg s) = sc_changed s"
  shows "map_of (sc_grants (scope_set w sg s)) = map_of (sc_grants s)"
proof (cases "map_of (sc_grants s) w")
  case None
  then show ?thesis using assms(3) by (simp add: scope_set_count)
next
  case (Some h)
  then have "sameScope h sg"
    using assms(3) by (simp add: scope_set_count split: if_splits)
  moreover have "\<forall>p\<in>set (sg_publish h) \<union> set (sg_subscribe h). \<exists>pattern. ParseGrantPattern U (sg_root h) pattern = Inr p"
    using assms(1) Some unfolding scope_ok_def by blast
  ultimately have "h = sg" using parseGrant_Inr [OF assms(2)] by (rule sameScope_eq)
  then show ?thesis using Some by auto
qed

lemma scope_remove_changed:
  "sc_changed (scope_remove w s) = sc_changed s \<Longrightarrow> map_of (sc_grants (scope_remove w s)) = map_of (sc_grants s)"
  by (cases "map_of (sc_grants s) w") (auto simp: scope_remove_count)

lemma changed_mono:
  "sc_changed s \<le> sc_changed (scope_set w g s)" "sc_changed s \<le> sc_changed (scope_remove w s)"
  by (auto simp: scope_set_count scope_remove_count split: option.split)

section \<open>The writers\<close>

text \<open>What an operation on writer \<open>w\<close> may do: nothing to the scope, remove its grant, or set one.\<close>

definition auth_inv :: "unicode \<Rightarrow> auth \<Rightarrow> bool" where
  "auth_inv U st \<longleftrightarrow> scope_ok U (au_scope st) \<and>
     (\<forall>w. aw_ended (au_writers st w) \<longrightarrow> map_of (sc_grants (au_scope st)) w = None)"

lemma endLocked_simps [simp]:
  "au_scope (endLocked w st) = scope_remove w (au_scope st)"
  "aw_ended (au_writers (endLocked w st) v) \<longleftrightarrow> v = w \<or> aw_ended (au_writers st v)"
  "aw_stream (au_writers (endLocked w st) v) = aw_stream (au_writers st v)"
  "au_sent (endLocked w st) = au_sent st"
  by (auto simp: endLocked_def update_writer_def Let_def)

lemma sendAuthError_simps [simp]:
  "au_scope (snd (sendAuthError werr w code reason st)) = au_scope st"
  "au_writers (snd (sendAuthError werr w code reason st)) = au_writers st"
  by (auto simp: sendAuthError_def split: option.split)

lemma refuseLocked_simps [simp]:
  "au_scope (snd (refuseLocked werr w code reason st)) = scope_remove w (au_scope st)"
  "aw_ended (au_writers (snd (refuseLocked werr w code reason st)) v) \<longleftrightarrow> v = w \<or> aw_ended (au_writers st v)"
  by (auto simp: refuseLocked_def Let_def)

lemma expireAfterLocked_simps [simp]:
  "au_scope (expireAfterLocked w d st) = au_scope st"
  "aw_ended (au_writers (expireAfterLocked w d st) v) = aw_ended (au_writers st v)"
  "aw_stream (au_writers (expireAfterLocked w d st) v) = aw_stream (au_writers st v)"
  "au_sent (expireAfterLocked w d st) = au_sent st"
  by (auto simp: expireAfterLocked_def update_writer_def Let_def)

text \<open>
  Each step is one of three things: nothing to scope and ends; the end of a writer with its grant
  removed; a grant set for a writer that has not ended.
\<close>

lemma auth_step_effect:
  assumes "auth_step U st st'"
  obtains (none) "au_scope st' = au_scope st" "\<And>v. aw_ended (au_writers st' v) = aw_ended (au_writers st v)"
  | (ends) w where "au_scope st' = scope_remove w (au_scope st)"
      "\<And>v. aw_ended (au_writers st' v) \<longleftrightarrow> v = w \<or> aw_ended (au_writers st v)"
  | (sets) w g sg where "au_scope st' = scope_set w sg (au_scope st)" "\<not> aw_ended (au_writers st w)"
      "parseGrant U g = Inr sg" "\<And>v. aw_ended (au_writers st' v) = aw_ended (au_writers st v)"
  using assms
proof (cases rule: auth_step.cases)
  case (grant werr w g r)
  then consider "st' = st" | "st' = snd (refuseLocked werr w NotSupportedErrorCode ''grant too large'' st)"
    | sg m where "Grant_check U g = Some (Inr (sg, m))" "\<not> aw_ended (au_writers st w)"
        "au_scope st' = scope_set w sg (au_scope st)" "\<And>v. aw_ended (au_writers st' v) = aw_ended (au_writers st v)"
    by (auto simp: AuthWriter_Grant_def Let_def split: option.splits sum.splits prod.splits if_splits)
  then show ?thesis
  proof cases
    case (3 sg m)
    moreover have "parseGrant U g = Inr sg"
      using 3(1) by (auto simp: Grant_check_def Let_def bind_Some_eq split: if_splits sum.splits)
    ultimately show ?thesis using sets by blast
  qed (use none ends in auto)
next
  case (refuse werr w code reason r)
  then have "st' = snd (AuthWriter_Refuse werr w code reason st)" by simp
  then show ?thesis using none ends by (auto simp: AuthWriter_Refuse_def split: if_splits)
next
  case (expire w generation werr)
  then show ?thesis using none ends by (auto simp: Authorization.expire_def split: if_splits)
next
  case (withdraw w)
  then show ?thesis using none ends by (auto simp: AuthWriter_end_def split: if_splits)
qed

lemma auth_inv_new: "auth_inv U newAuth"
  by (simp add: auth_inv_def newAuth_def newAuthScope_def scope_ok_def)

lemma auth_inv_step: "auth_step U st st' \<Longrightarrow> auth_inv U st \<Longrightarrow> auth_inv U st'"
  by (erule auth_step_effect) (auto simp: auth_inv_def scope_ok_remove scope_ok_set)

lemma auth_inv_reach: "auth_reach U st \<Longrightarrow> auth_inv U st"
  by (induction rule: auth_reach.induct) (auto intro: auth_inv_new auth_inv_step)

lemma ended_step: "auth_step U st st' \<Longrightarrow> aw_ended (au_writers st w) \<Longrightarrow> aw_ended (au_writers st' w)"
  by (erule auth_step_effect) auto

lemma ended_steps: "(auth_step U)\<^sup>*\<^sup>* st st' \<Longrightarrow> aw_ended (au_writers st w) \<Longrightarrow> aw_ended (au_writers st' w)"
  by (induction rule: rtranclp_induct) (auto intro: ended_step)

lemma auth_reach_steps: "(auth_step U)\<^sup>*\<^sup>* st st' \<Longrightarrow> auth_reach U st \<Longrightarrow> auth_reach U st'"
  by (induction rule: rtranclp_induct) (auto intro: auth_reach.step)

section \<open>Timers\<close>

definition timers_inv :: "auth \<Rightarrow> bool" where
  "timers_inv st \<longleftrightarrow> (\<forall>(w, g)\<in>set (au_timers st). g \<le> aw_generation (au_writers st w))"

lemma endLocked_timers [simp]:
  "au_timers (endLocked w st) = au_timers st"
  "aw_generation (au_writers (endLocked w st) v) = aw_generation (au_writers st v)"
  by (auto simp: endLocked_def update_writer_def Let_def)

lemma refuseLocked_timers [simp]:
  "au_timers (snd (refuseLocked werr w code reason st)) = au_timers st"
  "aw_generation (au_writers (snd (refuseLocked werr w code reason st)) v) = aw_generation (au_writers st v)"
  by (auto simp: refuseLocked_def sendAuthError_def Let_def split: option.split)

lemma expireAfterLocked_timers:
  "aw_generation (au_writers (expireAfterLocked w d st) v) = aw_generation (au_writers st v) + (if v = w then 1 else 0)"
  "set (au_timers (expireAfterLocked w d st)) \<subseteq> insert (w, aw_generation (au_writers st w) + 1) (set (au_timers st))"
  by (auto simp: expireAfterLocked_def update_writer_def Let_def)

lemma timers_inv_expireAfter: "timers_inv st \<Longrightarrow> timers_inv (expireAfterLocked w d st)"
  using expireAfterLocked_timers(2) [of w d st] by (fastforce simp: timers_inv_def expireAfterLocked_timers(1))

lemma timers_inv_same:
  "timers_inv st \<Longrightarrow> au_timers st' = au_timers st \<Longrightarrow>
   (\<And>v. aw_generation (au_writers st' v) = aw_generation (au_writers st v)) \<Longrightarrow> timers_inv st'"
  by (simp add: timers_inv_def)

lemma AuthWriter_Grant_cases:
  assumes "AuthWriter_Grant U werr w g st = Some (r, st')"
  obtains (refused) "st' = st" "r \<noteq> None" "\<forall>e. r \<noteq> Some (SendFailed e)"
  | (large) "st' = snd (refuseLocked werr w NotSupportedErrorCode ''grant too large'' st)" "r = Some GrantTooLarge"
  | (set) sg m where "Grant_check U g = Some (Inr (sg, m))" "\<not> aw_ended (au_writers st w)"
      "st' = (expireAfterLocked w (g_MaxAge g) (st\<lparr>au_scope := scope_set w sg (au_scope st)\<rparr>))
         \<lparr>au_sent := au_sent st'\<rparr>" "r = None \<or> (\<exists>e. r = Some (SendFailed e))"
proof -
  have ne: "Grant_check U g \<noteq> Some (Inl (SendFailed e))" for e
  proof -
    have "parsePatterns U root ss \<noteq> Inl (SendFailed e)" for root ss
      by (induction ss) (auto split: sum.splits)
    then have "parseGrant U g \<noteq> Inl (SendFailed e)" by (auto simp: parseGrant_def split: sum.splits if_splits)
    then show ?thesis by (auto simp: Grant_check_def Let_def bind_Some_eq split: sum.splits if_splits)
  qed
  show ?thesis
  proof (cases "Grant_check U g")
    case (Some c)
    show ?thesis
    proof (cases c)
      case (Inl e)
      then show ?thesis
        using assms Some ne refused large by (auto simp: AuthWriter_Grant_def split: if_splits)
    next
      case (Inr p)
      obtain sg m where p: "p = (sg, m)" by force
      show ?thesis
      proof (cases "aw_ended (au_writers st w)")
        case True
        then show ?thesis using assms Some Inr p refused by (auto simp: AuthWriter_Grant_def)
      next
        case False
        then show ?thesis using assms Some Inr p set
          by (auto simp: AuthWriter_Grant_def Let_def split: option.splits if_splits)
      qed
    qed
  qed (use assms in \<open>simp add: AuthWriter_Grant_def\<close>)
qed

lemma timers_inv_step: "auth_step U st st' \<Longrightarrow> timers_inv st \<Longrightarrow> timers_inv st'"
proof (cases rule: auth_step.cases, assumption)
  fix werr w g r assume inv: "timers_inv st" and gr: "AuthWriter_Grant U werr w g st = Some (r, st')"
  from gr show ?thesis
  proof (cases rule: AuthWriter_Grant_cases)
    case (set sg m)
    have "timers_inv (expireAfterLocked w (g_MaxAge g) (st\<lparr>au_scope := scope_set w sg (au_scope st)\<rparr>))"
      using inv by (intro timers_inv_expireAfter) (simp add: timers_inv_def)
    then show ?thesis by (subst set(3)) (simp add: timers_inv_def)
  qed (use inv in \<open>auto intro: timers_inv_same\<close>)
next
  fix werr w code reason r assume "timers_inv st" "AuthWriter_Refuse werr w code reason st = (r, st')"
  moreover from this have "st' = snd (AuthWriter_Refuse werr w code reason st)" by simp
  ultimately show ?thesis by (auto simp: AuthWriter_Refuse_def intro: timers_inv_same)
next
  fix w generation werr assume "timers_inv st" "st' = Authorization.expire werr w generation st"
  then show ?thesis by (auto simp: expire_def intro: timers_inv_same)
next
  fix w assume "timers_inv st" "st' = AuthWriter_end w st"
  then show ?thesis by (auto simp: AuthWriter_end_def intro: timers_inv_same)
qed

lemma timers_inv_reach: "auth_reach U st \<Longrightarrow> timers_inv st"
proof (induction rule: auth_reach.induct)
  case init
  then show ?case by (simp add: timers_inv_def newAuth_def)
qed (rule timers_inv_step)

section \<open>What the presenter reads\<close>

lemma cut_back: "cut_back reason k \<le> k \<and> (cut_back reason k = 0 \<or> RuneStart (reason ! cut_back reason k))"
  by (induction k) auto

lemma replacement_valid: "ValidString [char_of_byte 0xEF, char_of_byte 0xBF, char_of_byte 0xBD]"
proof -
  have b: "of_char (char_of_byte 0xEF) = (0xEF :: nat)" "of_char (char_of_byte 0xBF) = (0xBF :: nat)"
    "of_char (char_of_byte 0xBD) = (0xBD :: nat)"
    by (simp_all add: char_of_byte_def)
  then have "leads 3 [char_of_byte 0xEF, char_of_byte 0xBF, char_of_byte 0xBD]"
    by (simp add: leads_def rune3_def rune2_def rune4_def cont_in_def byte_at_def numeral_2_eq_2)
  then show ?thesis by (simp add: ValidString_leads)
qed

lemma authReason_valid: "ValidString (authReason reason) \<and> length (authReason reason) \<le> maxAuthReasonLength"
proof -
  define r where "r = ToValidUTF8 reason [char_of_byte 0xEF, char_of_byte 0xBF, char_of_byte 0xBD]"
  have v: "ValidString r" using ToValid_valid [OF replacement_valid] by (simp add: r_def ToValidUTF8_def)
  show ?thesis
  proof (cases "length r \<le> maxAuthReasonLength")
    case True
    with v show ?thesis by (simp add: authReason_def flip: r_def)
  next
    case False
    let ?k = "cut_back r maxAuthReasonLength"
    have "ValidString (take ?k r)"
    proof (cases "?k = 0")
      case True
      then show ?thesis by simp
    next
      case nz: False
      then have "?k < length r" "RuneStart (r ! ?k)" using cut_back [of r maxAuthReasonLength] False by auto
      with v show ?thesis by (intro ValidString_cut) auto
    qed
    moreover have "length (take ?k r) \<le> maxAuthReasonLength"
      using cut_back [of r maxAuthReasonLength] unfolding length_take by linarith
    ultimately show ?thesis using False by (simp add: authReason_def Let_def flip: r_def)
  qed
qed

lemma sint_of_int64: "0 \<le> k \<Longrightarrow> k \<le> MaxInt64 \<Longrightarrow> sint (word_of_int k :: uint64) = k"
  by (simp add: signed_of_int MaxInt64_def signed_take_bit_int_eq_self)

lemma uint_of_int64: "0 \<le> k \<Longrightarrow> k \<le> MaxInt64 \<Longrightarrow> uint (word_of_int k :: uint64) = k"
  by (simp add: unsigned_of_int MaxInt64_def take_bit_int_eq_self)

text \<open>The max age the presenter reads: whole milliseconds, at least one for a limit.\<close>

definition wire_MaxAge :: "int \<Rightarrow> int" where
  "wire_MaxAge d = (if d > 0 then max 1 (d div Millisecond) * Millisecond else 0)"

lemma parseGrant_MaxAge [simp]: "parseGrant U (g\<lparr>g_MaxAge := x\<rparr>) = parseGrant U g"
  by (simp add: parseGrant_def cong: sum.case_cong)

lemma grantFromMessage_message:
  assumes "0 \<le> g_MaxAge g" "g_MaxAge g \<le> MaxInt64" "parseGrant U g = Inr sg"
  shows "grantFromMessage U (Grant_message g) = Inr (g\<lparr>g_MaxAge := wire_MaxAge (g_MaxAge g)\<rparr>)"
    "aokm_Expires (Grant_message g) \<le> maxAuthExpires"
proof -
  let ?d = "g_MaxAge g" let ?ms = "?d div Millisecond"
  have ms: "0 \<le> ?ms" "?ms \<le> MaxInt64 div Millisecond" "?ms \<le> MaxInt64"
    using assms(1,2) by (auto simp: Millisecond_def MaxInt64_def intro: zdiv_mono1)
  define k where "k = (if ?d > 0 then max 1 ?ms else 0)"
  have k: "0 \<le> k" "k \<le> MaxInt64 div Millisecond" "k * Millisecond \<le> MaxInt64" "0 \<le> k * Millisecond" "k \<le> MaxInt64"
    using ms by (auto simp: k_def Millisecond_def MaxInt64_def)
  have E: "aokm_Expires (Grant_message g) = word_of_int k"
  proof (cases "?d > 0")
    case True
    have "word_of_int ?ms = (0 :: uint64) \<longleftrightarrow> ?ms = 0"
      using uint_of_int64 [OF ms(1,3)] by (metis uint_0_iff word_of_int_0)
    then show ?thesis using True ms(1) by (auto simp: Grant_message_def Let_def Milliseconds_def k_def max_def)
  next
    case False
    then show ?thesis using assms(1) by (simp add: Grant_message_def Let_def Milliseconds_def k_def Millisecond_def)
  qed
  have m: "(word_of_int MaxInt64 div word_of_int Millisecond :: uint64) = 9223372036854"
    by (simp add: MaxInt64_def Millisecond_def)
  have lt: "(9223372036854 < (word_of_int k :: uint64)) = False"
    using k(2) uint_of_int64 [OF k(1,5)] by (simp add: word_less_def MaxInt64_def Millisecond_def)
  have "sint (word_of_int k * word_of_int Millisecond :: uint64) = k * Millisecond"
    using sint_of_int64 [OF k(4,3)] by (simp only: wi_hom_mult)
  moreover have "k * Millisecond = wire_MaxAge ?d" by (simp add: k_def wire_MaxAge_def)
  ultimately have s: "sint (word_of_int k * word_of_int Millisecond :: uint64) = wire_MaxAge ?d" by (rule trans)
  have rec: "\<lparr>g_Root = aokm_Root (Grant_message g), g_Publish = aokm_PublishPatterns (Grant_message g),
    g_Subscribe = aokm_SubscribePatterns (Grant_message g), g_MaxAge = x\<rparr> = g\<lparr>g_MaxAge := x\<rparr>" for x
    by (cases g) (simp add: Grant_message_def Let_def)
  show "grantFromMessage U (Grant_message g) = Inr (g\<lparr>g_MaxAge := wire_MaxAge (g_MaxAge g)\<rparr>)"
    unfolding grantFromMessage_def E m rec s lt Let_def if_False parseGrant_MaxAge assms(3) sum.case ..
  have "k \<le> 2 ^ 53 - 1" using k(2) by (simp add: MaxInt64_def Millisecond_def)
  then show "aokm_Expires (Grant_message g) \<le> maxAuthExpires"
    using uint_of_int64 [OF k(1,5)] unfolding E by (simp add: word_le_def maxAuthExpires_def)
qed

text \<open>A reply of at most MaxMessageSize is written, and read as the presenter is to read it.\<close>

lemma small_bytes_enc: "length b \<le> 65536 \<Longrightarrow> \<exists>f. bytes_enc b = Some f"
  using of_nat_small_message [of "length b"] varint_fits [of "of_nat (length b)"]
  by (force simp: bytes_enc_def MaxMessageSize_def maxVarInt8_def word_le_def)

lemma readAuthReply_ok:
  assumes "AuthOk_Len m = Some n" "n \<le> 65536" "aokm_Expires m \<le> maxAuthExpires"
  shows "\<exists>e. AuthOk_Encode m = Some e \<and> (\<forall>r. readAuthReply U (e @ r) = (grantFromMessage U m, r))"
proof -
  obtain b where b: "AuthOk_body m = Some b" "length b = n"
    using assms(1) AuthOk.len_of [of m] by auto
  obtain f where f: "bytes_enc b = Some f" using small_bytes_enc [of b] b(2) assms(2) by auto
  then have e: "AuthOk_Encode m = Some ([0] @ f)" using b by (simp add: AuthOk.encode)
  have t: "ReadAuthReplyType (0 # f @ r) = (Inr AuthReplyOK, f @ r)" for r
    using ReadMessageLength_varint [OF auth_types(1), of "f @ r"] by (simp add: ReadAuthReplyType_def)
  have d: "AuthOk_Decode zeroAuthOk (f @ r) = (None, m, r)" for r
    using AuthOk.roundtrip [OF e assms(1,2), of zeroAuthOk r] by simp
  have "\<not> aokm_Expires m > maxAuthExpires" using assms(3) by simp
  then have "readAuthReply U (([0] @ f) @ r) = (grantFromMessage U m, r)" for r
    by (simp add: readAuthReply_def t d)
  with e show ?thesis by blast
qed

lemma readAuthReply_error:
  assumes "ValidString (aem_Reason m)" "length (aem_Reason m) \<le> maxAuthReasonLength" "aem_Code m \<le> 0xFFFFFFFF"
  shows "\<exists>e. AuthError_Encode m = Some e \<and>
    (\<forall>r. readAuthReply U (e @ r) = (Inl (AuthReply (ucast (aem_Code m)) (aem_Reason m)), r))"
proof -
  have "aem_Code m \<le> maxVarInt8" using assms(3) by (simp add: maxVarInt8_def word_le_def)
  then obtain v where v: "varint (aem_Code m) = Some v" using varint_fits by blast
  have l: "length (bytes_of_string (aem_Reason m)) \<le> 8192"
    using assms(2) by (simp add: maxAuthReasonLength_def)
  then obtain s where s: "string_enc (aem_Reason m) = Some s"
    using small_bytes_enc [of "bytes_of_string (aem_Reason m)"] by (auto simp: string_enc_def)
  then obtain p where p: "varint (of_nat (length (bytes_of_string (aem_Reason m)))) = Some p"
    "s = p @ bytes_of_string (aem_Reason m)"
    by (auto simp: string_enc_def bytes_enc_def)
  have "length v \<le> 8" "length p \<le> 8" using varint_length [OF v] varint_length [OF p(1)] by auto
  then have small: "length (v @ s) \<le> 65536" using l p(2) by simp
  have b: "AuthError_body m = Some (v @ s)" using v s by (simp add: AuthError_body_def)
  have n: "AuthError_Len m = Some (length (v @ s))" using b AuthError.len_of [of m] by simp
  obtain f where "bytes_enc (v @ s) = Some f" using small_bytes_enc [OF small] by blast
  then have e: "AuthError_Encode m = Some ([1] @ f)" using b by (simp add: AuthError.encode)
  have t: "ReadAuthReplyType (1 # f @ r) = (Inr AuthReplyError, f @ r)" for r
    using ReadMessageLength_varint [OF auth_types(2), of "f @ r"] by (simp add: ReadAuthReplyType_def)
  have d: "AuthError_Decode zeroAuthError (f @ r) = (None, m, r)" for r
    using AuthError.roundtrip [OF e n small, of zeroAuthError r] by simp
  have ne: "AuthReplyError \<noteq> AuthReplyOK" by (simp add: AuthReplyError_def AuthReplyOK_def)
  have "\<not> (aem_Code m > 0xFFFFFFFF \<or> length (aem_Reason m) > maxAuthReasonLength \<or> \<not> ValidString (aem_Reason m))"
    using assms by simp
  then have "readAuthReply U (([1] @ f) @ r) = (Inl (AuthReply (ucast (aem_Code m)) (aem_Reason m)), r)" for r
    using ne by (simp only: readAuthReply_def append_Cons append_Nil t d prod.case sum.case if_False if_True option.case refl)
  with e show ?thesis by blast
qed

lemma Grant_check_Inr:
  assumes "Grant_check U g = Some (Inr (sg, m))"
  obtains n where "0 \<le> g_MaxAge g" "parseGrant U g = Inr sg" "m = Grant_message g" "AuthOk_Len m = Some n" "n \<le> 65536"
  using assms by (auto simp: Grant_check_def Let_def bind_Some_eq MaxMessageSize_def split: if_splits sum.splits)

lemma Grant_others:
  assumes "AuthWriter_Grant U werr w g st = Some (r, st')" "v \<noteq> w"
  shows "map_of (sc_grants (au_scope st')) v = map_of (sc_grants (au_scope st)) v"
  using assms(1)
proof (cases rule: AuthWriter_Grant_cases)
  case (set sg m)
  have "au_scope st' = scope_set w sg (au_scope st)" by (subst set(3)) simp
  then show ?thesis using assms(2) by simp
qed (use assms(2) in simp_all)

lemma Refuse_others:
  "v \<noteq> w \<Longrightarrow> map_of (sc_grants (au_scope (snd (AuthWriter_Refuse werr w code reason st)))) v =
    map_of (sc_grants (au_scope st)) v"
  by (simp add: AuthWriter_Refuse_def)

lemma serve_calls_others:
  "v \<noteq> w \<Longrightarrow> map_of (sc_grants (au_scope (serve_calls U werr w calls st))) v = map_of (sc_grants (au_scope st)) v"
  by (induction U werr w calls st rule: serve_calls.induct)
    (auto simp: Grant_others Refuse_others split: option.split)

lemma serve_calls_steps: "(auth_step U)\<^sup>*\<^sup>* st (serve_calls U werr w calls st)"
proof (induction U werr w calls st rule: serve_calls.induct)
  case (2 U werr w g cs st)
  show ?case
  proof (cases "AuthWriter_Grant U werr w g st")
    case (Some rs)
    obtain r s where rs: "rs = (r, s)" by force
    then have "auth_step U st s" using Some auth_step.grant by simp
    moreover have "(auth_step U)\<^sup>*\<^sup>* s (serve_calls U werr w cs s)" using 2 Some rs by simp
    ultimately show ?thesis using Some rs by (simp add: converse_rtranclp_into_rtranclp)
  qed simp
next
  case (3 U werr w code reason cs st)
  have "auth_step U st (snd (AuthWriter_Refuse werr w code reason st))"
    by (rule auth_step.refuse [OF surjective_pairing])
  with 3 show ?case by (simp add: converse_rtranclp_into_rtranclp)
qed simp

text \<open>What the count of changes says of the grants in force.\<close>

lemma auth_step_changed:
  assumes "auth_step U st st'" "auth_inv U st"
  shows "sc_changed (au_scope st) \<le> sc_changed (au_scope st') \<and>
    (sc_changed (au_scope st') = sc_changed (au_scope st) \<longrightarrow>
     map_of (sc_grants (au_scope st')) = map_of (sc_grants (au_scope st)))"
  using assms(1)
proof (cases rule: auth_step_effect)
  case (ends w)
  then show ?thesis by (auto simp: changed_mono dest: scope_remove_changed)
next
  case (sets w g sg)
  then show ?thesis using assms(2) scope_set_changed [of U "au_scope st" g sg w]
    by (auto simp: changed_mono auth_inv_def)
qed simp

lemma auth_steps_changed:
  assumes "(auth_step U)\<^sup>*\<^sup>* st st'" "auth_inv U st"
  shows "auth_inv U st' \<and> sc_changed (au_scope st) \<le> sc_changed (au_scope st') \<and>
    (sc_changed (au_scope st') = sc_changed (au_scope st) \<longrightarrow>
     map_of (sc_grants (au_scope st')) = map_of (sc_grants (au_scope st)))"
  using assms
proof (induction rule: rtranclp_induct)
  case (step y z)
  then show ?case using auth_step_changed [OF step.hyps(2)] auth_inv_step [OF step.hyps(2)] by fastforce
qed simp

lemma anyGrant_map_of:
  assumes "auth_inv U st"
  shows "anyGrant ok (Some (au_scope st)) \<longleftrightarrow> (\<exists>w g. map_of (sc_grants (au_scope st)) w = Some g \<and> ok g)"
  using assms anyGrant_iff [of "au_scope st" ok] by (simp add: auth_inv_def scope_ok_def)

text \<open>The timer armed by a grant.\<close>

lemma expireAfterLocked_armed:
  assumes "0 < d"
  shows "(w, Suc (aw_generation (au_writers st w))) \<in> set (au_timers (expireAfterLocked w d st))"
    "set (au_timers st) \<subseteq> set (au_timers (expireAfterLocked w d st))"
  using assms by (auto simp: expireAfterLocked_def update_writer_def Let_def)

section \<open>Properties\<close>

text \<open>C5 Once a grant has ended - refused, expired, withdrawn, or its handler has returned - its
  writer never holds a grant in the session's scope again, whatever the handlers, the timers and the
  peer do afterwards.\<close>
theorem ended_is_final:
  assumes "auth_reach U st" "aw_ended (au_writers st w)" "(auth_step U)\<^sup>*\<^sup>* st st'"
  shows "map_of (sc_grants (au_scope st')) w = None"
  using auth_inv_reach [OF auth_reach_steps [OF assms(3,1)]] ended_steps [OF assms(3,2)]
  by (simp add: auth_inv_def)

text \<open>A handler that has returned, or panicked, leaves no grant of its writer in force and its
  writer ended, whatever calls it made before; the grants of the other writers are those that were
  in force.\<close>
lemma served_handler_ends:
  assumes "auth_reach U st" "st' = safeServeAuth U werr w calls st"
  shows "aw_ended (au_writers st' w) \<and>
    map_of (sc_grants (au_scope st')) = (map_of (sc_grants (au_scope st)))(w := None)"
proof -
  let ?s = "serve_calls U werr w calls st"
  have reach: "auth_reach U ?s" using auth_reach_steps [OF serve_calls_steps assms(1)] .
  then have "auth_step U ?s st'" using auth_step.withdraw [of U ?s w] by (simp add: assms(2) safeServeAuth_def)
  then have inv: "auth_inv U st'" by (rule auth_inv_step) (rule auth_inv_reach [OF reach])
  have e: "aw_ended (au_writers st' w)" by (simp add: assms(2) safeServeAuth_def AuthWriter_end_def)
  have "map_of (sc_grants (au_scope st')) v = map_of (sc_grants (au_scope st)) v" if "v \<noteq> w" for v
    using serve_calls_others [OF that, of U werr calls st] that
    by (simp add: assms(2) safeServeAuth_def AuthWriter_end_def)
  with inv e show ?thesis by (auto simp: auth_inv_def)
qed

text \<open>The scope never moves unnoticed: between two states with as many notifications the session
  decides every request - to list a prefix, to publish and to subscribe a path - the same way.\<close>
lemma unnotified_same_decisions:
  assumes "auth_reach U st" "(auth_step U)\<^sup>*\<^sup>* st st'" "sc_changed (au_scope st') = sc_changed (au_scope st)"
  shows "canList pfx (Some (au_scope st')) = canList pfx (Some (au_scope st)) \<and>
    canPublish path (Some (au_scope st')) = canPublish path (Some (au_scope st)) \<and>
    canSubscribe path (Some (au_scope st')) = canSubscribe path (Some (au_scope st))"
proof -
  have inv: "auth_inv U st" by (rule auth_inv_reach [OF assms(1)])
  from auth_steps_changed [OF assms(2) inv] assms(3)
  have "auth_inv U st'" "map_of (sc_grants (au_scope st')) = map_of (sc_grants (au_scope st))" by auto
  with inv show ?thesis by (simp add: canList_def canPublish_def canSubscribe_def anyGrant_map_of)
qed

text \<open>C1 A session lets a path be published or subscribed only when it lies beneath the root of a
  grant in force of a writer that has not ended; the root itself may then be listed.\<close>
theorem scope_confined:
  assumes "auth_reach U st" "canPublish path (Some (au_scope st)) \<or> canSubscribe path (Some (au_scope st))"
  shows "\<exists>w g. map_of (sc_grants (au_scope st)) w = Some g \<and> \<not> aw_ended (au_writers st w) \<and>
    HasPrefix path (sg_root g) \<and> canList (sg_root g) (Some (au_scope st))"
proof -
  have inv: "auth_inv U st" by (rule auth_inv_reach [OF assms(1)])
  from assms(2) obtain w g p where g: "map_of (sc_grants (au_scope st)) w = Some g"
    "p \<in> set (sg_publish g) \<union> set (sg_subscribe g)" "Match p path"
    by (auto simp: canPublish_def canSubscribe_def anyGrant_map_of [OF inv] matchAny_def list_ex_iff)
  moreover from this inv obtain s where p: "ParseGrantPattern U (sg_root g) s = Inr p"
    unfolding auth_inv_def scope_ok_def by blast
  moreover have "\<not> aw_ended (au_writers st w)" using inv g(1) by (auto simp: auth_inv_def)
  moreover have "sg_root g \<noteq> []" using p by (auto simp: ParseGrantPattern_def isValidGrantRoot_def isValidPrefix_cases split: if_splits)
  moreover have "HasPrefix path (sg_root g)" using p g(3) by (rule grant_pattern_under)
  moreover have "canList (sg_root g) (Some (au_scope st))"
    using g(1) \<open>sg_root g \<noteq> []\<close> by (auto simp: canList_def anyGrant_map_of [OF inv] HasPrefix_str_def)
  ultimately show ?thesis by blast
qed

text \<open>C21 What a handler grants, the presenter reads: a grant that passes the check is written as an
  AUTH_OK which the presenter decodes to the same root and patterns, accepted and parsed to the same
  scope grant. Its max age arrives in whole milliseconds, at least one for a limit.\<close>
theorem grant_agreement:
  assumes "Grant_check U g = Some (Inr (sg, m))" "g_MaxAge g \<le> MaxInt64"
  shows "\<exists>e. AuthOk_Encode m = Some e \<and> parseGrant U (g\<lparr>g_MaxAge := wire_MaxAge (g_MaxAge g)\<rparr>) = Inr sg \<and>
    (\<forall>r. readAuthReply U (e @ r) = (Inr (g\<lparr>g_MaxAge := wire_MaxAge (g_MaxAge g)\<rparr>), r))"
proof -
  obtain n where c: "0 \<le> g_MaxAge g" "parseGrant U g = Inr sg" "m = Grant_message g" "AuthOk_Len m = Some n" "n \<le> 65536"
    using assms(1) by (rule Grant_check_Inr)
  note msg = grantFromMessage_message [OF c(1) assms(2) c(2)]
  have "aokm_Expires m \<le> maxAuthExpires" using msg(2) c(3) by simp
  from readAuthReply_ok [OF c(4,5) this, of U] obtain e where
    "AuthOk_Encode m = Some e" "\<forall>r. readAuthReply U (e @ r) = (grantFromMessage U m, r)" by blast
  then show ?thesis using msg(1) c(2,3) by simp
qed

text \<open>Whatever code and reason a refusal is given, the AUTH_ERROR it sends is well formed: it is
  within the size limit, and the presenter reads that code and the reason cut to valid UTF-8 of at
  most maxAuthReasonLength bytes, never a protocol violation.\<close>
lemma refusal_readable:
  "\<exists>m e. au_sent (snd (sendAuthError None w code reason st)) = au_sent st @ [(w, ReplyError m)] \<and>
     AuthError_Encode m = Some e \<and>
     (\<forall>r. readAuthReply U (e @ r) = (Inl (AuthReply code (authReason reason)), r))"
proof -
  let ?m = "\<lparr>aem_Code = ucast code, aem_Reason = authReason reason\<rparr>"
  have "aem_Code ?m \<le> 0xFFFFFFFF"
    using unsigned_less [of code, where ?'a = int] by (simp add: word_le_def uint_up_ucast is_up)
  moreover have "ucast (aem_Code ?m) = code" by (simp add: ucast_down_ucast_id is_down)
  ultimately show ?thesis
    using readAuthReply_error [of ?m U] authReason_valid [of reason] by (auto simp: sendAuthError_def)
qed

text \<open>C24 A new grant takes over the clock: once it is set, every timer armed for an earlier grant of
  the writer runs without effect, while the timer of a limited grant ends it, with an AUTH_ERROR
  Unauthorized on its stream.\<close>
theorem grant_expiry:
  assumes "auth_reach U st" "Grant_check U g = Some (Inr (sg, m))" "\<not> aw_ended (au_writers st w)" "0 < g_MaxAge g"
    "AuthWriter_Grant U werr w g st = Some (r, st')"
  shows "(\<forall>generation. (w, generation) \<in> set (au_timers st) \<longrightarrow> expire werr' w generation st' = st') \<and>
    (\<exists>generation. (w, generation) \<in> set (au_timers st') \<and>
       map_of (sc_grants (au_scope (expire werr' w generation st'))) w = None \<and>
       expire werr' w generation st' =
         snd (refuseLocked werr' w UnauthorizedSessionErrorCode ''grant expired'' st'))"
proof -
  from assms(5) obtain sg where set: "\<not> aw_ended (au_writers st w)"
      "st' = (expireAfterLocked w (g_MaxAge g) (st\<lparr>au_scope := scope_set w sg (au_scope st)\<rparr>)) \<lparr>au_sent := au_sent st'\<rparr>"
  proof (cases rule: AuthWriter_Grant_cases)
    case refused
    then show ?thesis using assms(2,3,5) by (auto simp: AuthWriter_Grant_def Let_def split: option.splits if_splits)
  next
    case large
    then show ?thesis using assms(2,3,5) by (auto simp: AuthWriter_Grant_def Let_def split: option.splits if_splits)
  qed (rule that)
  let ?n = "aw_generation (au_writers st w)"
  have n: "aw_generation (au_writers st' w) = Suc ?n" by (subst set(2)) (simp add: expireAfterLocked_timers)
  have t: "(w, Suc ?n) \<in> set (au_timers st')"
    by (subst set(2)) (use expireAfterLocked_armed(1) [OF assms(4), of w "st\<lparr>au_scope := scope_set w sg (au_scope st)\<rparr>"] in simp)
  have "\<not> aw_ended (au_writers st' w)" by (subst set(2)) (simp add: set(1))
  then have "expire werr' w (Suc ?n) st' = snd (refuseLocked werr' w UnauthorizedSessionErrorCode ''grant expired'' st')"
    by (simp add: expire_def n)
  moreover have "expire werr' w k st' = st'" if "(w, k) \<in> set (au_timers st)" for k
    using timers_inv_reach [OF assms(1)] that by (auto simp: expire_def n timers_inv_def)
  ultimately show ?thesis using t by (intro conjI allI impI exI [of _ "Suc ?n"]) simp_all
qed

section \<open>Examples\<close>

definition cam_grant :: Grant where
  "cam_grant = \<lparr>g_Root = ''/room/1/'', g_Publish = [], g_Subscribe = [''/{x}/cam''], g_MaxAge = 2500000\<rparr>"

definition cam_scope :: scopeGrant where
  "cam_scope = \<lparr>sg_root = ''/room/1/'', sg_publish = [], sg_subscribe =
     [\<lparr>pp_raw = ''/room/1/{x}/cam'', pp_segs = Some [\<lparr>ps_kind = segLiteral, ps_lit = ''room''\<rparr>,
       \<lparr>ps_kind = segLiteral, ps_lit = ''1''\<rparr>, \<lparr>ps_kind = segWildcard, ps_lit = ''''\<rparr>,
       \<lparr>ps_kind = segLiteral, ps_lit = ''cam''\<rparr>], pp_trailing = False\<rparr>]\<rparr>"

lemma example_check: "Grant_check ascii cam_grant = Some (Inr (cam_scope, Grant_message cam_grant))"
proof -
  have "Grant_message cam_grant = \<lparr>aokm_Root = ''/room/1/'', aokm_PublishPatterns = [],
    aokm_SubscribePatterns = [''/{x}/cam''], aokm_Expires = 2\<rparr>"
    by (simp add: Grant_message_def cam_grant_def Milliseconds_def Millisecond_def)
  moreover have "AuthOk_Len \<lparr>aokm_Root = ''/room/1/'', aokm_PublishPatterns = [],
    aokm_SubscribePatterns = [''/{x}/cam''], aokm_Expires = 2\<rparr> = Some 21"
    by (simp add: wire_eval AuthOk_Len_def)
  moreover have "parseGrant ascii cam_grant = Inr cam_scope" by code_simp
  ultimately show ?thesis by (simp add: Grant_check_def MaxMessageSize_def) (simp add: cam_grant_def)
qed

definition granted :: auth where
  "granted = snd (the (AuthWriter_Grant ascii None 1 cam_grant newAuth))"

definition renewed :: auth where
  "renewed = snd (the (AuthWriter_Grant ascii None 1 cam_grant granted))"

definition refused :: auth where
  "refused = snd (AuthWriter_Refuse None 1 UnauthorizedSessionErrorCode ''no'' granted)"

lemma AuthWriter_Grant_ok:
  "\<lbrakk>Grant_check U g = Some (Inr (sg, m)); \<not> aw_ended (au_writers st w); aw_stream (au_writers st w)\<rbrakk> \<Longrightarrow>
   AuthWriter_Grant U None w g st =
     Some (None, (expireAfterLocked w (g_MaxAge g) (st\<lparr>au_scope := scope_set w sg (au_scope st)\<rparr>))
       \<lparr>au_sent := au_sent st @ [(w, ReplyOk m)]\<rparr>)"
  by (simp add: AuthWriter_Grant_def Let_def)

lemma example_grants:
  "AuthWriter_Grant ascii None 1 cam_grant newAuth = Some (None, granted)"
  "au_scope granted = \<lparr>sc_grants = [(1, cam_scope)], sc_conn = 0, sc_ready = False, sc_changed = 1\<rparr>"
  "au_timers granted = [(1, 1)]" "\<not> aw_ended (au_writers granted 1)" "aw_stream (au_writers granted 1)"
proof -
  have n: "\<not> aw_ended (au_writers newAuth 1)" "aw_stream (au_writers newAuth 1)"
    "aw_generation (au_writers newAuth 1) = 0" "au_timers newAuth = []" "au_scope newAuth = newAuthScope"
    by (simp_all add: newAuth_def)
  have a: "0 < g_MaxAge cam_grant" by (simp add: cam_grant_def)
  note ok = AuthWriter_Grant_ok [OF example_check n(1,2)]
  show "AuthWriter_Grant ascii None 1 cam_grant newAuth = Some (None, granted)"
    by (simp add: granted_def ok del: One_nat_def)
  have g: "granted = (expireAfterLocked 1 (g_MaxAge cam_grant)
      (newAuth\<lparr>au_scope := scope_set 1 cam_scope newAuthScope\<rparr>))
      \<lparr>au_sent := au_sent newAuth @ [(1, ReplyOk (Grant_message cam_grant))]\<rparr>"
    by (simp only: granted_def ok option.sel snd_conv n)
  show "au_scope granted = \<lparr>sc_grants = [(1, cam_scope)], sc_conn = 0, sc_ready = False, sc_changed = 1\<rparr>"
    by (simp add: g newAuthScope_def scope_set_def scope_answered_def scope_notify_def)
  show "au_timers granted = [(1, 1)]"
    using n a by (simp add: g expireAfterLocked_def update_writer_def)
  show "\<not> aw_ended (au_writers granted 1)" "aw_stream (au_writers granted 1)"
    using n by (simp_all add: g del: One_nat_def)
qed

lemma example_renewed:
  "AuthWriter_Grant ascii None 1 cam_grant granted = Some (None, renewed)"
  "sc_changed (au_scope renewed) = sc_changed (au_scope granted)"
proof -
  have "sameScope cam_scope cam_scope" by code_simp
  then have "scope_set 1 cam_scope (au_scope granted) = au_scope granted"
    by (simp add: example_grants scope_set_def scope_answered_def)
  then show "AuthWriter_Grant ascii None 1 cam_grant granted = Some (None, renewed)"
    "sc_changed (au_scope renewed) = sc_changed (au_scope granted)"
    by (simp_all add: renewed_def AuthWriter_Grant_ok [OF example_check example_grants(4,5)] del: One_nat_def)
qed

lemma example_reach: "auth_reach ascii newAuth" "auth_reach ascii granted" "auth_reach ascii refused"
proof -
  show n: "auth_reach ascii newAuth" by (rule auth_reach.init)
  show g: "auth_reach ascii granted"
    using auth_reach.step [OF n auth_step.grant [OF example_grants(1)]] .
  show "auth_reach ascii refused"
    using auth_reach.step [OF g auth_step.refuse [OF surjective_pairing]] by (simp add: refused_def)
qed

lemma ended_is_final_witness:
  "map_of (sc_grants (au_scope (serve_calls ascii None 1 [CallGrant cam_grant] refused))) 1 = None"
proof (rule ended_is_final [OF example_reach(3) _ serve_calls_steps])
  show "aw_ended (au_writers refused 1)" by (simp add: refused_def AuthWriter_Refuse_def example_grants)
qed

lemma scope_confined_witness:
  "\<exists>w g. map_of (sc_grants (au_scope granted)) w = Some g \<and> HasPrefix ''/room/1/bob/cam'' (sg_root g)"
proof -
  have "matchAny (sg_subscribe cam_scope) ''/room/1/bob/cam''" by code_simp
  then have "canSubscribe ''/room/1/bob/cam'' (Some (au_scope granted))"
    by (simp add: canSubscribe_def anyGrant_def example_grants)
  then show ?thesis using scope_confined [OF example_reach(2)] by blast
qed

lemma grant_agreement_witness:
  "\<exists>e. AuthOk_Encode (Grant_message cam_grant) = Some e \<and>
     readAuthReply ascii (e @ [7]) = (Inr (cam_grant\<lparr>g_MaxAge := 2000000\<rparr>), [7])"
proof -
  have "g_MaxAge cam_grant \<le> MaxInt64" "wire_MaxAge (g_MaxAge cam_grant) = 2000000"
    by (simp_all add: cam_grant_def MaxInt64_def wire_MaxAge_def Millisecond_def)
  then show ?thesis using grant_agreement [OF example_check] by auto
qed

lemma grant_expiry_witness:
  "expire None 1 1 renewed = renewed \<and>
    (\<exists>k. map_of (sc_grants (au_scope (expire None 1 k renewed))) 1 = None)"
proof -
  have "0 < g_MaxAge cam_grant" by (simp add: cam_grant_def)
  from grant_expiry [OF example_reach(2) example_check example_grants(4) this example_renewed(1), of None]
  show ?thesis by (auto simp: example_grants(3))
qed

end
