(* ===== verification/Streams.thy ===== *)
theory Streams
  imports Messages Sequences Codes
begin

text \<open>
  The streams of the transport as the session's code uses them (moqt/transport, quic-go behind it),
  and what a publisher may answer on a Subscribe Stream.

  The transport is not part of the repository. A stream is the log of the calls made on it; what the
  transport answers - whether a write fails, whether the stream's context is done - is a parameter
  of the operations, a function of that log that may differ from one call of an operation to the
  next, as the peer and the network act in between. \<open>stream_contract\<close> states what quic-go documents
  of it.
\<close>

section \<open>Streams\<close>

datatype transport_error =
    StreamErr code \<comment> \<open>*transport.StreamError\<close>
  | ApplicationErr code \<comment> \<open>*transport.ApplicationError\<close>
  | OtherErr nat

datatype stream_op =
    Wrote bytes
  | WriteFailed bytes transport_error
  | SetPriorityOp int bool
  | CloseOp
  | CancelWriteOp code
  | CancelReadOp code

type_synonym stream_log = "stream_op list"

record transport =
  t_write :: "stream_log \<Rightarrow> bytes \<Rightarrow> transport_error option"
  t_close :: "stream_log \<Rightarrow> transport_error option"
  t_done :: "stream_log \<Rightarrow> transport_error option" \<comment> \<open>the cause of the stream's context, once it is done\<close>

definition Stream_Write :: "transport \<Rightarrow> bytes \<Rightarrow> stream_log \<Rightarrow> transport_error option \<times> stream_log" where
  "Stream_Write T b log =
     (case t_write T log b of
        Some e \<Rightarrow> (Some e, log @ [WriteFailed b e])
      | None \<Rightarrow> (None, log @ [Wrote b]))"

definition Stream_Close :: "transport \<Rightarrow> stream_log \<Rightarrow> transport_error option \<times> stream_log" where
  "Stream_Close T log = (t_close T log, log @ [CloseOp])"

definition cancelStreamWithError :: "code \<Rightarrow> stream_log \<Rightarrow> stream_log" where
  "cancelStreamWithError code log = log @ [CancelReadOp code, CancelWriteOp code]"

text \<open>The send side is over once it was closed or cancelled.\<close>

fun ends_send :: "stream_op \<Rightarrow> bool" where
  "ends_send CloseOp = True"
| "ends_send (CancelWriteOp _) = True"
| "ends_send _ = False"

definition send_over :: "stream_log \<Rightarrow> bool" where
  "send_over log = list_ex ends_send log"

text \<open>quic-go: a Write after Close or CancelWrite fails, and the stream's context is done then.\<close>

definition stream_contract :: "transport \<Rightarrow> bool" where
  "stream_contract T \<longleftrightarrow>
     (\<forall>log b. send_over log \<longrightarrow> t_write T log b \<noteq> None \<and> t_done T log \<noteq> None)"

text \<open>What the peer reads, and whether a write failed before the end, so that a message may be torn.\<close>

fun written :: "stream_log \<Rightarrow> bytes" where
  "written [] = []"
| "written (Wrote b # log) = b @ written log"
| "written (_ # log) = written log"

fun torn :: "stream_log \<Rightarrow> bool" where
  "torn [] = False"
| "torn (WriteFailed _ _ # log) = True"
| "torn (x # log) = (\<not> ends_send x \<and> torn log)"

lemma written_append [simp]: "written (a @ b) = written a @ written b"
  by (induction a rule: written.induct) auto

lemma send_over_append [simp]: "send_over (a @ b) \<longleftrightarrow> send_over a \<or> send_over b"
  by (simp add: send_over_def)

lemma send_over_simps [simp]: "\<not> send_over []" "send_over (x # log) \<longleftrightarrow> ends_send x \<or> send_over log"
  by (simp_all add: send_over_def)

lemma torn_append [simp]: "torn (a @ b) \<longleftrightarrow> torn a \<or> \<not> send_over a \<and> torn b"
proof (induction a)
  case (Cons x a)
  then show ?case by (cases x) auto
qed simp

lemma Stream_Write_cases:
  assumes "Stream_Write T b log = (e, log')"
  obtains (ok) "e = None" "log' = log @ [Wrote b]" "t_write T log b = None"
  | (failed) x where "e = Some x" "log' = log @ [WriteFailed b x]"
proof (cases "t_write T log b")
  case None
  then show ?thesis using assms by (intro ok) (simp_all add: Stream_Write_def)
next
  case (Some x)
  then show ?thesis using assms by (intro failed [of x]) (simp_all add: Stream_Write_def)
qed

lemma write_contract: "stream_contract T \<Longrightarrow> t_write T log b = None \<Longrightarrow> \<not> send_over log"
  unfolding stream_contract_def by blast

lemma done_contract: "stream_contract T \<Longrightarrow> t_done T log = None \<Longrightarrow> \<not> send_over log"
  unfolding stream_contract_def by blast

text \<open>A transport that keeps the contract: writes succeed until the send side is over.\<close>

definition plain_transport :: transport where
  "plain_transport =
     \<lparr>t_write = (\<lambda>log b. if send_over log then Some (OtherErr 0) else None),
      t_close = (\<lambda>log. None),
      t_done = (\<lambda>log. if send_over log then Some (OtherErr 0) else None)\<rparr>"

lemma plain_contract: "stream_contract plain_transport"
  by (simp add: stream_contract_def plain_transport_def)

section \<open>Subscriptions\<close>

text \<open>SubscribeConfig (moqt/track_config.go) and SubscribeDrop (moqt/subscribe_drop.go).\<close>

record SubscribeConfig =
  cfg_Priority :: byte
  cfg_Ordered :: bool
  cfg_MaxLatency :: uint64
  cfg_StartGroup :: GroupSequence
  cfg_EndGroup :: GroupSequence

definition zeroConfig :: SubscribeConfig where
  "zeroConfig = \<lparr>cfg_Priority = 0, cfg_Ordered = False, cfg_MaxLatency = 0, cfg_StartGroup = 0, cfg_EndGroup = 0\<rparr>"

record SubscribeDrop =
  sd_StartGroup :: GroupSequence
  sd_EndGroup :: GroupSequence
  sd_ErrorCode :: code

text \<open>\<open>subscribeResponse\<close>: a message of the publisher, in which exactly one field is non-nil.\<close>

datatype subscribeResponse =
    RespOk SubscribeOkMessage
  | RespEnd SubscribeEndMessage
  | RespDrop SubscribeDropMessage
  | RespRedirect SubscribeRedirectMessage

definition MessageTypeSubscribeOk :: uint64 where "MessageTypeSubscribeOk = 0x0"
definition MessageTypeSubscribeEnd :: uint64 where "MessageTypeSubscribeEnd = 0x1"
definition MessageTypeSubscribeDrop :: uint64 where "MessageTypeSubscribeDrop = 0x2"
definition MessageTypeSubscribeRedirect :: uint64 where "MessageTypeSubscribeRedirect = 0x3"

lemmas message_types = MessageTypeSubscribeOk_def MessageTypeSubscribeEnd_def
  MessageTypeSubscribeDrop_def MessageTypeSubscribeRedirect_def

datatype response_error = ResponseError error | UnexpectedResponseType uint64

definition zeroRedirect :: SubscribeRedirectMessage where
  "zeroRedirect = \<lparr>srm_ConnectURI = [], srm_BroadcastPath = [], srm_TrackName = []\<rparr>"

definition readSubscribeResponse :: "bytes \<Rightarrow> (response_error + subscribeResponse) \<times> bytes" where
  "readSubscribeResponse stream =
     (case ReadFull 1 stream of
        (Inl e, stream) \<Rightarrow> (Inl (ResponseError e), stream)
      | (Inr head, stream) \<Rightarrow>
          (case ReadVarint head of
             Inl e \<Rightarrow> (Inl (ResponseError e), stream)
           | Inr (msgType, _) \<Rightarrow>
               if msgType = MessageTypeSubscribeOk then
                 (case SubscribeOk_Decode \<lparr>som_Group = 0\<rparr> stream of
                    (Some e, _, stream) \<Rightarrow> (Inl (ResponseError e), stream)
                  | (None, msg, stream) \<Rightarrow> (Inr (RespOk msg), stream))
               else if msgType = MessageTypeSubscribeEnd then
                 (case SubscribeEnd_Decode \<lparr>sem_Group = 0\<rparr> stream of
                    (Some e, _, stream) \<Rightarrow> (Inl (ResponseError e), stream)
                  | (None, msg, stream) \<Rightarrow> (Inr (RespEnd msg), stream))
               else if msgType = MessageTypeSubscribeDrop then
                 (case SubscribeDrop_Decode \<lparr>sdm_GroupStart = 0, sdm_GroupEnd = 0, sdm_ErrorCode = 0\<rparr> stream of
                    (Some e, _, stream) \<Rightarrow> (Inl (ResponseError e), stream)
                  | (None, msg, stream) \<Rightarrow> (Inr (RespDrop msg), stream))
               else if msgType = MessageTypeSubscribeRedirect then
                 (case SubscribeRedirect_Decode zeroRedirect stream of
                    (Some e, _, stream) \<Rightarrow> (Inl (ResponseError e), stream)
                  | (None, msg, stream) \<Rightarrow> (Inr (RespRedirect msg), stream))
               else (Inl (UnexpectedResponseType msgType), stream)))"

text \<open>The bytes of an answer: its type, then the message.\<close>

fun response_enc :: "subscribeResponse \<Rightarrow> bytes option" where
  "response_enc (RespOk m) = do { b \<leftarrow> SubscribeOk_Encode m; Some (ucast MessageTypeSubscribeOk # b) }"
| "response_enc (RespEnd m) = do { b \<leftarrow> SubscribeEnd_Encode m; Some (ucast MessageTypeSubscribeEnd # b) }"
| "response_enc (RespDrop m) = do { b \<leftarrow> SubscribeDrop_Encode m; Some (ucast MessageTypeSubscribeDrop # b) }"
| "response_enc (RespRedirect m) = do { b \<leftarrow> SubscribeRedirect_Encode m; Some (ucast MessageTypeSubscribeRedirect # b) }"

fun responses_enc :: "subscribeResponse list \<Rightarrow> bytes option" where
  "responses_enc [] = Some []"
| "responses_enc (r # rs) = do { b \<leftarrow> response_enc r; bs \<leftarrow> responses_enc rs; Some (b @ bs) }"

text \<open>A redirect above MaxMessageSize is written but not read; the other answers always fit.\<close>

fun response_fits :: "subscribeResponse \<Rightarrow> bool" where
  "response_fits (RespRedirect m) = (\<exists>n \<le> 65536. SubscribeRedirect_Len m = Some n)"
| "response_fits _ = True"

lemma responses_enc_append:
  "responses_enc (a @ b) = do { x \<leftarrow> responses_enc a; y \<leftarrow> responses_enc b; Some (x @ y) }"
  by (induction a) (auto split: Option.bind_splits)

lemma ReadFull_head: "ReadFull (Suc 0) (b # r) = (Inr [b], r)"
  by (simp add: ReadFull_def)

lemma ReadVarint_types:
  "ReadVarint [0] = Inr (0, 1)" "ReadVarint [1] = Inr (1, 1)" "ReadVarint [2] = Inr (2, 1)" "ReadVarint [3] = Inr (3, 1)"
  by code_simp+

lemma fixed_fields_fit:
  "SubscribeOk_Encode m1 = Some e1 \<Longrightarrow> \<exists>n \<le> 65536. SubscribeOk_Len m1 = Some n"
  "SubscribeEnd_Encode m2 = Some e2 \<Longrightarrow> \<exists>n \<le> 65536. SubscribeEnd_Len m2 = Some n"
  "SubscribeDrop_Encode m3 = Some e3 \<Longrightarrow> \<exists>n \<le> 65536. SubscribeDrop_Len m3 = Some n"
  by (auto simp: SubscribeOk_Encode_def SubscribeEnd_Encode_def SubscribeDrop_Encode_def
      SubscribeOk_Len_def SubscribeEnd_Len_def SubscribeDrop_Len_def VarintLen_def bind_Some_eq split: if_splits)

text \<open>What is written is read, and the stream is left after it.\<close>

lemma readSubscribeResponse_enc:
  assumes "response_enc resp = Some e" "response_fits resp"
  shows "readSubscribeResponse (e @ r) = (Inr resp, r)"
proof (cases resp)
  case (RespOk m)
  with assms obtain b where b: "SubscribeOk_Encode m = Some b" "e = 0 # b"
    by (auto simp: bind_Some_eq message_types)
  obtain n where "n \<le> 65536" "SubscribeOk_Len m = Some n" using fixed_fields_fit(1) [OF b(1)] by blast
  then show ?thesis using SubscribeOk.roundtrip [OF b(1)] b(2) RespOk
    by (simp add: readSubscribeResponse_def ReadFull_head ReadVarint_types message_types)
next
  case (RespEnd m)
  with assms obtain b where b: "SubscribeEnd_Encode m = Some b" "e = 1 # b"
    by (auto simp: bind_Some_eq message_types)
  obtain n where "n \<le> 65536" "SubscribeEnd_Len m = Some n" using fixed_fields_fit(2) [OF b(1)] by blast
  then show ?thesis using SubscribeEnd.roundtrip [OF b(1)] b(2) RespEnd
    by (simp add: readSubscribeResponse_def ReadFull_head ReadVarint_types message_types)
next
  case (RespDrop m)
  with assms obtain b where b: "SubscribeDrop_Encode m = Some b" "e = 2 # b"
    by (auto simp: bind_Some_eq message_types)
  obtain n where "n \<le> 65536" "SubscribeDrop_Len m = Some n" using fixed_fields_fit(3) [OF b(1)] by blast
  then show ?thesis using SubscribeDrop.roundtrip [OF b(1)] b(2) RespDrop
    by (simp add: readSubscribeResponse_def ReadFull_head ReadVarint_types message_types)
next
  case (RespRedirect m)
  with assms obtain b where b: "SubscribeRedirect_Encode m = Some b" "e = 3 # b"
    by (auto simp: bind_Some_eq message_types)
  obtain n where "n \<le> 65536" "SubscribeRedirect_Len m = Some n" using assms(2) RespRedirect by auto
  then show ?thesis using SubscribeRedirect.roundtrip [OF b(1)] b(2) RespRedirect
    by (simp add: readSubscribeResponse_def ReadFull_head ReadVarint_types message_types)
qed

text \<open>A message that was read took something off the stream.\<close>

lemma with_body_shorter: "with_body src m k = (None, m', t) \<Longrightarrow> length t < length src"
  by (auto simp: with_body_def split: prod.splits sum.splits elim!: readBody_Inr)

lemma readSubscribeResponse_shorter:
  "readSubscribeResponse r = (Inr resp, t) \<Longrightarrow> length t < length r"
  by (cases r)
    (auto simp: readSubscribeResponse_def ReadFull_def SubscribeOk_Decode_def SubscribeEnd_Decode_def
      SubscribeDrop_Decode_def SubscribeRedirect_Decode_def
      split: sum.splits prod.splits option.splits if_splits dest!: with_body_shorter)

end
