(* ===== verification/Redirects.thy ===== *)
theory Redirects
  imports Paths Messages
begin

text \<open>
  Redirects of a subscription (moqt/redirect.go) and the subscriber's following of them
  (followRedirect, allowRedirect and redirectAllowed in moqt/session.go).

  The URI, path and name are strings of bytes. \<open>checkRedirect\<close> is a callback of the application, a
  parameter: a function of the redirect and the history it is shown.
\<close>

definition defaultMaxRedirects :: nat where "defaultMaxRedirects = 2"
definition maxRedirects :: nat where "maxRedirects = 10"

record Redirect =
  rd_URI :: string
  rd_BroadcastPath :: BroadcastPath
  rd_TrackName :: string

datatype redirect_error =
    RedirectNotSupported
  | TooManyRedirects
  | StopRedirect
  | ClientRedirectURI
  | InvalidRedirectPath
  | PeerSetupTimeout
  | RedirectFailed nat \<comment> \<open>an error of the application's callback, or of waiting for the peer\<close>

definition Redirect_message :: "Redirect \<Rightarrow> SubscribeRedirectMessage" where
  "Redirect_message to =
     \<lparr>srm_ConnectURI = rd_URI to, srm_BroadcastPath = rd_BroadcastPath to, srm_TrackName = rd_TrackName to\<rparr>"

definition redirectFromMessage :: "SubscribeRedirectMessage \<Rightarrow> Redirect" where
  "redirectFromMessage m =
     \<lparr>rd_URI = srm_ConnectURI m, rd_BroadcastPath = srm_BroadcastPath m, rd_TrackName = srm_TrackName m\<rparr>"

definition Redirect_validate :: "Redirect \<Rightarrow> redirect_error option" where
  "Redirect_validate to = (if \<not> isValidPath (rd_BroadcastPath to) then Some InvalidRedirectPath else None)"

type_synonym check_redirect = "Redirect \<Rightarrow> Redirect list \<Rightarrow> redirect_error option"

definition allowRedirect :: "check_redirect option \<Rightarrow> Redirect \<Rightarrow> Redirect list \<Rightarrow> redirect_error option" where
  "allowRedirect check to via =
     (if length via \<ge> maxRedirects then Some TooManyRedirects
      else
        (case check of
           Some f \<Rightarrow> f to via
         | None \<Rightarrow> if length via \<ge> defaultMaxRedirects then Some TooManyRedirects else None))"

text \<open>redirectAllowed; \<open>setup\<close> is what waiting for the peer's SETUP gives.\<close>

definition redirectAllowed :: "bool \<Rightarrow> redirect_error option \<Rightarrow> bool \<Rightarrow> string \<Rightarrow> redirect_error option" where
  "redirectAllowed server setup peerFollowsRedirect uri =
     (if uri \<noteq> [] \<and> \<not> server then Some ClientRedirectURI
      else
        (case setup of
           Some e \<Rightarrow> if e = PeerSetupTimeout then Some RedirectNotSupported else Some e
         | None \<Rightarrow> if \<not> peerFollowsRedirect then Some RedirectNotSupported else None))"

text \<open>
  What Session.Subscribe comes to: another subscription, or an answer. \<open>Violation\<close> is the protocol
  violation that closes the session.
\<close>

datatype follow =
    Violation redirect_error
  | NotFollowed redirect_error Redirect \<comment> \<open>an error joined with the RedirectError\<close>
  | NotTaken Redirect \<comment> \<open>the RedirectError alone\<close>
  | Follow Redirect "Redirect list"

definition followRedirect :: "bool \<Rightarrow> check_redirect option \<Rightarrow> Redirect \<Rightarrow> Redirect list \<Rightarrow> follow" where
  "followRedirect server check to via =
     (if rd_URI to \<noteq> [] then
        (if server then Violation ClientRedirectURI else NotTaken to)
      else
        (case allowRedirect check to via of
           Some e \<Rightarrow> if e = StopRedirect then NotTaken to else NotFollowed e to
         | None \<Rightarrow>
             (case Redirect_validate to of
                Some e \<Rightarrow> NotFollowed e to
              | None \<Rightarrow> Follow to (via @ [to]))))"

text \<open>
  The chain of subscriptions: \<open>answer\<close> is the publishers' reply to the subscription for a path and
  name, a redirect or none. A subscription follows at most \<open>maxRedirects\<close> redirects, so that the
  chain always ends.
\<close>

datatype chain_end = Answered BroadcastPath string | Ended follow

lemma followRedirect_Follow:
  assumes "followRedirect server check to via = Follow to' via'"
  shows "to' = to \<and> via' = via @ [to] \<and> length via < maxRedirects \<and> rd_URI to = [] \<and> isValidPath (rd_BroadcastPath to)"
  using assms by (auto simp: followRedirect_def allowRedirect_def Redirect_validate_def split: if_splits option.splits)

function subscribe_chain ::
    "bool \<Rightarrow> check_redirect option \<Rightarrow> (BroadcastPath \<Rightarrow> string \<Rightarrow> Redirect option) \<Rightarrow>
     BroadcastPath \<Rightarrow> string \<Rightarrow> Redirect list \<Rightarrow> (BroadcastPath \<times> string) list \<times> chain_end" where
  "subscribe_chain server check answer path name via =
     (case answer path name of
        None \<Rightarrow> ([(path, name)], Answered path name)
      | Some to \<Rightarrow>
          (case followRedirect server check to via of
             Follow to via' \<Rightarrow>
               (case subscribe_chain server check answer (rd_BroadcastPath to) (rd_TrackName to) via' of
                  (subs, e) \<Rightarrow> ((path, name) # subs, e))
           | f \<Rightarrow> ([(path, name)], Ended f)))"
  by pat_completeness auto

termination
  by (relation "measure (\<lambda>(_, _, _, _, _, via). maxRedirects - length via)")
    (auto dest!: followRedirect_Follow)

declare subscribe_chain.simps [simp del]

lemma redirect_message_inverse [simp]: "redirectFromMessage (Redirect_message to) = to"
  by (simp add: redirectFromMessage_def Redirect_message_def)

lemma subscribe_chain_bound:
  "length via \<le> maxRedirects \<Longrightarrow>
   length (fst (subscribe_chain server check answer path name via)) \<le> Suc (maxRedirects - length via)"
proof (induction server check answer path name via rule: subscribe_chain.induct)
  case (1 server check answer path name via)
  show ?case
  proof (cases "\<exists>to to' via'. answer path name = Some to \<and> followRedirect server check to via = Follow to' via'")
    case True
    then obtain to to' via' where t: "answer path name = Some to" "followRedirect server check to via = Follow to' via'" by blast
    have f: "to' = to" "via' = via @ [to]" "length via < maxRedirects" using followRedirect_Follow [OF t(2)] by auto
    from 1(1) [OF t] f show ?thesis
      by (subst subscribe_chain.simps) (simp add: t f split_beta Suc_diff_Suc)
  next
    case False
    then show ?thesis by (subst subscribe_chain.simps) (auto split: option.split follow.split)
  qed
qed

lemma subscribe_chain_default:
  "length via \<le> defaultMaxRedirects \<Longrightarrow>
   length (fst (subscribe_chain server None answer path name via)) \<le> Suc (defaultMaxRedirects - length via)"
proof (induction "defaultMaxRedirects - length via" arbitrary: path name via rule: less_induct)
  case less
  show ?case
  proof (cases "\<exists>to to' via'. answer path name = Some to \<and> followRedirect server None to via = Follow to' via'")
    case True
    then obtain to to' via' where t: "answer path name = Some to" "followRedirect server None to via = Follow to' via'" by blast
    then have f: "to' = to" "via' = via @ [to]" "length via < defaultMaxRedirects"
      by (auto simp: followRedirect_def allowRedirect_def split: if_splits option.splits)
    then show ?thesis using less(1) [of "via @ [to]" "rd_BroadcastPath to" "rd_TrackName to"]
      by (subst subscribe_chain.simps) (simp add: t split_beta Suc_diff_Suc)
  next
    case False
    then show ?thesis by (subst subscribe_chain.simps) (auto split: option.split follow.split)
  qed
qed

section \<open>Properties\<close>

text \<open>C31 However the publishers redirect and whatever the application's callback allows, one Subscribe
  opens at most eleven subscriptions, three without a callback; it only follows redirects to a valid
  path on the same session.\<close>
theorem redirects_bounded:
  "length (fst (subscribe_chain server check answer path name [])) \<le> 11 \<and>
   length (fst (subscribe_chain server None answer path name [])) \<le> 3 \<and>
   (\<forall>to via to' via'. followRedirect server check to via = Follow to' via' \<longrightarrow>
      to' = to \<and> rd_URI to = [] \<and> isValidPath (rd_BroadcastPath to))"
  using subscribe_chain_bound [of "[]" server check answer path name]
    subscribe_chain_default [of "[]" server answer path name]
  by (auto simp: maxRedirects_def defaultMaxRedirects_def dest: followRedirect_Follow)

text \<open>Publishers that redirect to each other end the chain at the bound.\<close>

lemma redirects_bounded_witness:
  "length (fst (subscribe_chain False (Some (\<lambda>_ _. None))
     (\<lambda>path name. Some \<lparr>rd_URI = [], rd_BroadcastPath = ''/a'', rd_TrackName = name\<rparr>) ''/a'' ''t'' [])) = 11 \<and>
   followRedirect False None \<lparr>rd_URI = [], rd_BroadcastPath = ''/a'', rd_TrackName = ''t''\<rparr> [] =
     Follow \<lparr>rd_URI = [], rd_BroadcastPath = ''/a'', rd_TrackName = ''t''\<rparr>
       [\<lparr>rd_URI = [], rd_BroadcastPath = ''/a'', rd_TrackName = ''t''\<rparr>] \<and>
   isValidPath ''/a''"
proof -
  have f: "followRedirect False None \<lparr>rd_URI = [], rd_BroadcastPath = ''/a'', rd_TrackName = ''t''\<rparr> [] =
     Follow \<lparr>rd_URI = [], rd_BroadcastPath = ''/a'', rd_TrackName = ''t''\<rparr>
       [\<lparr>rd_URI = [], rd_BroadcastPath = ''/a'', rd_TrackName = ''t''\<rparr>]"
    by code_simp
  moreover have "isValidPath ''/a''" using redirects_bounded f by fastforce
  moreover have "length (fst (subscribe_chain False (Some (\<lambda>_ _. None))
     (\<lambda>path name. Some \<lparr>rd_URI = [], rd_BroadcastPath = ''/a'', rd_TrackName = name\<rparr>) ''/a'' ''t'' [])) = 11"
    by code_simp
  ultimately show ?thesis by simp
qed

end
