(* ===== verification/Publisher.thy ===== *)
theory Publisher
  imports Streams Redirects
begin

text \<open>
  The publisher's side of a subscription: the answers on the Subscribe Stream
  (moqt/receive_subscribe_stream.go), and the TrackWriter that opens groups, drops them, redirects
  and ends the track (moqt/track_writer.go, and the group's own Close and CancelWrite of
  moqt/group_writer.go).

  Every operation takes what the transport answers as an argument. None is a panic: an encoder given
  a number above 2^62 - 1. The subscribe stream of a TrackWriter is never nil, as newTrackWriter
  needs it. An operation that holds the writer's lock is one step; taking a sequence from the counter
  and opening the group are two, as other calls may run in between.
\<close>

section \<open>The answers on a Subscribe Stream\<close>

datatype publish_error =
    TransportFailed transport_error
  | DecodeFailed error
  | SubscriptionAnswered
  | WriterStopped
  | InvalidDropRange GroupSequence GroupSequence
  | DropRangeOverflow GroupSequence GroupSequence
  | RedirectRefused redirect_error
  | NilContext
  | ContextDone transport_error \<comment> \<open>Cause of the stream's context\<close>
  | SessionErr code
  | GroupErr code

record receiveSubscribeStream =
  rs_subscribeID :: uint64
  rs_config :: "SubscribeConfig option"
  rs_responseStarted :: bool
  rs_endSent :: bool
  rs_redirected :: bool
  rs_stream :: stream_log
  rs_input :: bytes \<comment> \<open>what the subscriber sent and was not read yet\<close>

definition newReceiveSubscribeStream :: "uint64 \<Rightarrow> bytes \<Rightarrow> SubscribeConfig option \<Rightarrow> receiveSubscribeStream" where
  "newReceiveSubscribeStream sid input config =
     \<lparr>rs_subscribeID = sid, rs_config = config, rs_responseStarted = False, rs_endSent = False,
      rs_redirected = False, rs_stream = [], rs_input = input\<rparr>"

definition zeroUpdate :: SubscribeUpdateMessage where
  "zeroUpdate = \<lparr>su_SubscriberPriority = 0, su_SubscriberOrdered = 0, su_SubscriberMaxLatency = 0,
     su_GroupStart = 0, su_GroupEnd = 0\<rparr>"

definition readUpdate :: "receiveSubscribeStream \<Rightarrow> (publish_error + SubscribeConfig) \<times> receiveSubscribeStream" where
  "readUpdate s =
     (case SubscribeUpdate_Decode zeroUpdate (rs_input s) of
        (Some e, _, r) \<Rightarrow> (Inl (DecodeFailed e), s\<lparr>rs_input := r\<rparr>)
      | (None, m, r) \<Rightarrow>
          let config = \<lparr>cfg_Priority = su_SubscriberPriority m, cfg_Ordered = boolFromWireFlag (su_SubscriberOrdered m),
                        cfg_MaxLatency = su_SubscriberMaxLatency m, cfg_StartGroup = groupSequenceFromWire (su_GroupStart m),
                        cfg_EndGroup = groupSequenceFromWire (su_GroupEnd m)\<rparr>
          in (Inr config, s\<lparr>rs_input := r, rs_config := Some config\<rparr>))"

text \<open>Two writes: the type, then the message. The first that fails ends the answer.\<close>

definition write_typed ::
    "transport \<Rightarrow> uint64 \<Rightarrow> bytes option \<Rightarrow> stream_log \<Rightarrow> (transport_error option \<times> stream_log) option" where
  "write_typed T msgType encoded log =
     (case Stream_Write T [ucast msgType] log of
        (Some e, log) \<Rightarrow> Some (Some e, log)
      | (None, log) \<Rightarrow> (case encoded of None \<Rightarrow> None | Some b \<Rightarrow> Some (Stream_Write T b log)))"

type_synonym published = "(publish_error option \<times> receiveSubscribeStream) option"

definition writeOkLocked :: "transport \<Rightarrow> GroupSequence \<Rightarrow> receiveSubscribeStream \<Rightarrow> published" where
  "writeOkLocked T seq s =
     (case write_typed T MessageTypeSubscribeOk (SubscribeOk_Encode \<lparr>som_Group = seq\<rparr>) (rs_stream s) of
        None \<Rightarrow> None
      | Some (Some e, log) \<Rightarrow> Some (Some (TransportFailed e), s\<lparr>rs_stream := log\<rparr>)
      | Some (None, log) \<Rightarrow> Some (None, s\<lparr>rs_stream := log, rs_responseStarted := True\<rparr>))"

definition closeWithError :: "code \<Rightarrow> receiveSubscribeStream \<Rightarrow> receiveSubscribeStream" where
  "closeWithError code s =
     (if rs_redirected s then s else s\<lparr>rs_stream := cancelStreamWithError code (rs_stream s)\<rparr>)"

definition ensureOk :: "transport \<Rightarrow> GroupSequence \<Rightarrow> receiveSubscribeStream \<Rightarrow> published" where
  "ensureOk T seq s =
     (if rs_responseStarted s then Some (None, s)
      else
        (case writeOkLocked T seq s of
           None \<Rightarrow> None
         | Some (None, s) \<Rightarrow> Some (None, s)
         | Some (Some e, s) \<Rightarrow> Some (Some e, closeWithError SubscribeErrorCodeInternal s)))"

definition writeEnd :: "transport \<Rightarrow> GroupSequence \<Rightarrow> receiveSubscribeStream \<Rightarrow> published" where
  "writeEnd T seq s =
     (if rs_endSent s then Some (None, s)
      else
        (case write_typed T MessageTypeSubscribeEnd (SubscribeEnd_Encode \<lparr>sem_Group = seq\<rparr>) (rs_stream s) of
           None \<Rightarrow> None
         | Some (Some e, log) \<Rightarrow> Some (Some (TransportFailed e), s\<lparr>rs_stream := log\<rparr>)
         | Some (None, log) \<Rightarrow> Some (None, s\<lparr>rs_stream := log, rs_endSent := True\<rparr>)))"

definition writeRedirect :: "transport \<Rightarrow> SubscribeRedirectMessage \<Rightarrow> receiveSubscribeStream \<Rightarrow> published" where
  "writeRedirect T m s =
     (if rs_responseStarted s \<or> rs_endSent s then Some (Some SubscriptionAnswered, s)
      else
        (case SubscribeRedirect_Encode m of
           None \<Rightarrow> None
         | Some b \<Rightarrow>
             let s = s\<lparr>rs_responseStarted := True, rs_endSent := True, rs_redirected := True\<rparr> in
             (case Stream_Write T (ucast MessageTypeSubscribeRedirect # b) (rs_stream s) of
                (Some e, log) \<Rightarrow>
                  Some (Some (TransportFailed e), s\<lparr>rs_stream := cancelStreamWithError SubscribeErrorCodeInternal log\<rparr>)
              | (None, log) \<Rightarrow>
                  (case Stream_Close T log of
                     (_, log) \<Rightarrow> Some (None, s\<lparr>rs_stream := log @ [CancelReadOp SubscribeErrorCodeInternal]\<rparr>)))))"

definition writeDrop :: "transport \<Rightarrow> SubscribeDrop \<Rightarrow> receiveSubscribeStream \<Rightarrow> published" where
  "writeDrop T d s =
     (if \<not> rs_responseStarted s then writeOkLocked T (Next (sd_EndGroup d)) s
      else
        (case write_typed T MessageTypeSubscribeDrop
                (SubscribeDrop_Encode \<lparr>sdm_GroupStart = sd_StartGroup d, sdm_GroupEnd = sd_EndGroup d,
                                       sdm_ErrorCode = ucast (sd_ErrorCode d)\<rparr>) (rs_stream s) of
           None \<Rightarrow> None
         | Some (Some e, log) \<Rightarrow> Some (Some (TransportFailed e), s\<lparr>rs_stream := log\<rparr>)
         | Some (None, log) \<Rightarrow> Some (None, s\<lparr>rs_stream := log\<rparr>)))"

definition rs_TrackConfig :: "receiveSubscribeStream \<Rightarrow> SubscribeConfig \<times> receiveSubscribeStream" where
  "rs_TrackConfig s =
     (case rs_config s of
        None \<Rightarrow> (zeroConfig, s\<lparr>rs_config := Some zeroConfig\<rparr>)
      | Some c \<Rightarrow> (c, s))"

definition rs_close :: "transport \<Rightarrow> receiveSubscribeStream \<Rightarrow> transport_error option \<times> receiveSubscribeStream" where
  "rs_close T s =
     (if rs_redirected s then (None, s)
      else (case Stream_Close T (rs_stream s) of (e, log) \<Rightarrow> (e, s\<lparr>rs_stream := log\<rparr>)))"

section \<open>Groups and their manager\<close>

text \<open>
  A group is named by its place in the list of the streams that were opened. The manager keeps those
  to end with the track.
\<close>

record groupWriterManager =
  gm_active :: "nat list"
  gm_closed :: bool

definition newGroupWriterManager :: groupWriterManager where
  "newGroupWriterManager = \<lparr>gm_active = [], gm_closed = False\<rparr>"

definition addGroup :: "nat \<Rightarrow> groupWriterManager \<Rightarrow> groupWriterManager" where
  "addGroup g m = (if gm_closed m then m else m\<lparr>gm_active := List.insert g (gm_active m)\<rparr>)"

definition removeGroup :: "nat \<Rightarrow> groupWriterManager \<Rightarrow> groupWriterManager" where
  "removeGroup g m = m\<lparr>gm_active := removeAll g (gm_active m)\<rparr>"

definition countGroups :: "groupWriterManager \<Rightarrow> nat" where
  "countGroups m = length (gm_active m)"

definition manager_close :: "groupWriterManager \<Rightarrow> groupWriterManager" where
  "manager_close m = m\<lparr>gm_closed := True, gm_active := []\<rparr>"

record TrackWriter =
  tw_BroadcastPath :: BroadcastPath
  tw_TrackName :: string
  tw_sub :: receiveSubscribeStream
  tw_manager :: groupWriterManager
  tw_hasManager :: bool \<comment> \<open>groupManager is not nil\<close>
  tw_sequence :: uint64
  tw_hasOnClose :: bool \<comment> \<open>onCloseTrackFunc is not nil\<close>
  tw_closeCalls :: nat \<comment> \<open>how often it was called\<close>
  tw_groups :: "(GroupSequence \<times> stream_log) list"

definition newTrackWriter :: "BroadcastPath \<Rightarrow> string \<Rightarrow> receiveSubscribeStream \<Rightarrow> TrackWriter" where
  "newTrackWriter path name sub =
     \<lparr>tw_BroadcastPath = path, tw_TrackName = name, tw_sub = sub, tw_manager = newGroupWriterManager,
      tw_hasManager = True, tw_sequence = 0, tw_hasOnClose = True, tw_closeCalls = 0, tw_groups = []\<rparr>"

text \<open>GroupWriter.Close and GroupWriter.CancelWrite. \<open>Tg\<close> answers for the group's stream.\<close>

definition update_group :: "nat \<Rightarrow> (stream_log \<Rightarrow> stream_log) \<Rightarrow> TrackWriter \<Rightarrow> TrackWriter" where
  "update_group g f w = w\<lparr>tw_groups := (tw_groups w)[g := map_prod id f (tw_groups w ! g)]\<rparr>"

definition GroupWriter_Close :: "transport \<Rightarrow> nat \<Rightarrow> TrackWriter \<Rightarrow> TrackWriter" where
  "GroupWriter_Close Tg g w =
     (let e = t_close Tg (snd (tw_groups w ! g));
          w = update_group g (\<lambda>log. log @ [CloseOp]) w
      in if e \<noteq> None then w else w\<lparr>tw_manager := removeGroup g (tw_manager w)\<rparr>)"

definition GroupWriter_CancelWrite :: "code \<Rightarrow> nat \<Rightarrow> TrackWriter \<Rightarrow> TrackWriter" where
  "GroupWriter_CancelWrite code g w =
     (let w = update_group g (\<lambda>log. log @ [CancelWriteOp code]) w
      in w\<lparr>tw_manager := removeGroup g (tw_manager w)\<rparr>)"

section \<open>The track writer\<close>

definition stopLocked :: "(nat \<Rightarrow> TrackWriter \<Rightarrow> TrackWriter) \<Rightarrow> TrackWriter \<Rightarrow> TrackWriter" where
  "stopLocked endGroup w =
     (let w = (if tw_hasManager w then
                 let activeGroups = gm_active (tw_manager w);
                     w = w\<lparr>tw_hasManager := False, tw_manager := manager_close (tw_manager w)\<rparr>
                 in fold endGroup activeGroups w
               else w)
      in if tw_hasOnClose w then w\<lparr>tw_hasOnClose := False, tw_closeCalls := tw_closeCalls w + 1\<rparr> else w)"

definition TrackWriter_Close :: "transport \<Rightarrow> transport \<Rightarrow> TrackWriter \<Rightarrow> (transport_error option \<times> TrackWriter) option" where
  "TrackWriter_Close T Tg w =
     (let w = stopLocked (GroupWriter_Close Tg) w in
      case writeEnd T (tw_sequence w) (tw_sub w) of
        None \<Rightarrow> None
      | Some (_, s) \<Rightarrow> (case rs_close T s of (e, s) \<Rightarrow> Some (e, w\<lparr>tw_sub := s\<rparr>)))"

definition TrackWriter_CloseWithError :: "code \<Rightarrow> TrackWriter \<Rightarrow> TrackWriter" where
  "TrackWriter_CloseWithError code w =
     (let w = stopLocked (GroupWriter_CancelWrite PublishAbortedErrorCode) w
      in w\<lparr>tw_sub := closeWithError code (tw_sub w)\<rparr>)"

text \<open>\<open>allowed\<close> is redirectAllowed, None when nil; \<open>ctx\<close> whether the context is not nil.\<close>

definition TrackWriter_Redirect ::
    "transport \<Rightarrow> bool \<Rightarrow> (string \<Rightarrow> redirect_error option) option \<Rightarrow> Redirect \<Rightarrow> TrackWriter \<Rightarrow>
     (publish_error option \<times> TrackWriter) option" where
  "TrackWriter_Redirect T ctx allowed to w =
     (if \<not> ctx then Some (Some NilContext, w)
      else
        let to = (if rd_TrackName to = [] then to\<lparr>rd_TrackName := tw_TrackName w\<rparr> else to) in
        (case Redirect_validate to of
           Some e \<Rightarrow> Some (Some (RedirectRefused e), w)
         | None \<Rightarrow>
             (case allowed of
                None \<Rightarrow> Some (Some (RedirectRefused RedirectNotSupported), w)
              | Some f \<Rightarrow>
                  (case f (rd_URI to) of
                     Some e \<Rightarrow> Some (Some (RedirectRefused e), w)
                   | None \<Rightarrow>
                       (case writeRedirect T (Redirect_message to) (tw_sub w) of
                          None \<Rightarrow> None
                        | Some (err, s) \<Rightarrow>
                            if err = Some SubscriptionAnswered then Some (err, w)
                            else Some (err, stopLocked (\<lambda>_ w. w) (w\<lparr>tw_sub := s\<rparr>)))))))"

definition GroupSequence_add :: "uint64 \<Rightarrow> TrackWriter \<Rightarrow> TrackWriter" where
  "GroupSequence_add n w = w\<lparr>tw_sequence := tw_sequence w + n\<rparr>"

definition SkipGroups :: "uint64 \<Rightarrow> TrackWriter \<Rightarrow> TrackWriter" where
  "SkipGroups n w = GroupSequence_add n w"

text \<open>
  openGroupWithSequence: \<open>T\<close> answers for the Subscribe Stream, \<open>opened\<close> is the failure to open a
  stream, if any, \<open>Tg\<close> answers for the new stream. The result is the group's number.
\<close>

definition stream_open_error :: "transport_error \<Rightarrow> publish_error" where
  "stream_open_error e = (case e of ApplicationErr c \<Rightarrow> SessionErr c | _ \<Rightarrow> TransportFailed e)"

definition group_write_failed :: "transport_error \<Rightarrow> stream_log \<Rightarrow> publish_error \<times> stream_log" where
  "group_write_failed e log =
     (case e of
        StreamErr c \<Rightarrow> (GroupErr c, log)
      | _ \<Rightarrow> (TransportFailed e, log @ [CancelWriteOp InternalGroupErrorCode]))"

definition openGroupWithSequence ::
    "transport \<Rightarrow> transport_error option \<Rightarrow> transport \<Rightarrow> GroupSequence \<Rightarrow> TrackWriter \<Rightarrow>
     ((publish_error + nat) \<times> TrackWriter) option" where
  "openGroupWithSequence T opened Tg seq w =
     (case t_done T (rs_stream (tw_sub w)) of
        Some e \<Rightarrow> Some (Inl (ContextDone e), w)
      | None \<Rightarrow>
          if \<not> tw_hasManager w then Some (Inl WriterStopped, w)
          else
            (case ensureOk T seq (tw_sub w) of
               None \<Rightarrow> None
             | Some (Some e, s) \<Rightarrow> Some (Inl e, w\<lparr>tw_sub := s\<rparr>)
             | Some (None, s) \<Rightarrow>
                 (case opened of
                    Some e \<Rightarrow> Some (Inl (stream_open_error e), w\<lparr>tw_sub := s\<rparr>)
                  | None \<Rightarrow>
                      (case rs_TrackConfig s of (config, s) \<Rightarrow>
                       let w = w\<lparr>tw_sub := s\<rparr>;
                           g = length (tw_groups w);
                           (urgency, incremental) = urgencyFor (cfg_Priority config) (cfg_Ordered config);
                           log = [SetPriorityOp urgency incremental]
                       in (case Stream_Write Tg (StreamType_Encode StreamTypeGroup) log of
                             (Some e, log) \<Rightarrow>
                               (case group_write_failed e log of
                                  (err, log) \<Rightarrow> Some (Inl err, w\<lparr>tw_groups := tw_groups w @ [(seq, log)]\<rparr>))
                           | (None, log) \<Rightarrow>
                               (case Group_Encode \<lparr>g_SubscribeID = rs_subscribeID s, g_GroupSequence = seq\<rparr> of
                                  None \<Rightarrow> None
                                | Some b \<Rightarrow>
                                    (case Stream_Write Tg b log of
                                       (Some e, log) \<Rightarrow>
                                         (case group_write_failed e log of
                                            (err, log) \<Rightarrow> Some (Inl err, w\<lparr>tw_groups := tw_groups w @ [(seq, log)]\<rparr>))
                                     | (None, log) \<Rightarrow>
                                         Some (Inr g,
                                           w\<lparr>tw_groups := tw_groups w @ [(seq, log)],
                                             tw_manager := addGroup g (tw_manager w)\<rparr>))))))))"

definition OpenGroup ::
    "transport \<Rightarrow> transport_error option \<Rightarrow> transport \<Rightarrow> TrackWriter \<Rightarrow> ((publish_error + nat) \<times> TrackWriter) option" where
  "OpenGroup T opened Tg w =
     (let w = GroupSequence_add 1 w in openGroupWithSequence T opened Tg (tw_sequence w) w)"

text \<open>The compare-and-swap loop leaves the larger of the counter and \<open>seq\<close>.\<close>

definition advance_to :: "GroupSequence \<Rightarrow> TrackWriter \<Rightarrow> TrackWriter" where
  "advance_to seq w = w\<lparr>tw_sequence := max (tw_sequence w) seq\<rparr>"

definition OpenGroupAt ::
    "transport \<Rightarrow> transport_error option \<Rightarrow> transport \<Rightarrow> GroupSequence \<Rightarrow> TrackWriter \<Rightarrow>
     ((publish_error + nat) \<times> TrackWriter) option" where
  "OpenGroupAt T opened Tg seq w = openGroupWithSequence T opened Tg seq (advance_to seq w)"

definition DropGroups :: "transport \<Rightarrow> SubscribeDrop \<Rightarrow> TrackWriter \<Rightarrow> (publish_error option \<times> TrackWriter) option" where
  "DropGroups T d w =
     (if sd_StartGroup d = MinGroupSequence \<or> sd_EndGroup d = MinGroupSequence then
        Some (Some (InvalidDropRange (sd_StartGroup d) (sd_EndGroup d)), w)
      else if sd_StartGroup d > sd_EndGroup d then
        Some (Some (InvalidDropRange (sd_StartGroup d) (sd_EndGroup d)), w)
      else
        (case t_done T (rs_stream (tw_sub w)) of
           Some e \<Rightarrow> Some (Some (ContextDone e), w)
         | None \<Rightarrow> map_option (map_prod id (\<lambda>s. w\<lparr>tw_sub := s\<rparr>)) (writeDrop T d (tw_sub w))))"

definition DropNextGroups ::
    "transport \<Rightarrow> uint64 \<Rightarrow> code \<Rightarrow> TrackWriter \<Rightarrow> (publish_error option \<times> TrackWriter) option" where
  "DropNextGroups T n code w =
     (if n = 0 then Some (None, w)
      else
        let cur = tw_sequence w; start = cur + 1; end' = cur + n in
        if end' < start then Some (Some (DropRangeOverflow start end'), w)
        else DropGroups T \<lparr>sd_StartGroup = start, sd_EndGroup = end', sd_ErrorCode = code\<rparr> (w\<lparr>tw_sequence := end'\<rparr>))"

definition TrackWriter_TrackConfig :: "TrackWriter \<Rightarrow> SubscribeConfig \<times> TrackWriter" where
  "TrackWriter_TrackConfig w = (case rs_TrackConfig (tw_sub w) of (c, s) \<Rightarrow> (c, w\<lparr>tw_sub := s\<rparr>))"

definition ReadUpdate :: "TrackWriter \<Rightarrow> (publish_error + SubscribeConfig) \<times> TrackWriter" where
  "ReadUpdate w = (case readUpdate (tw_sub w) of (r, s) \<Rightarrow> (r, w\<lparr>tw_sub := s\<rparr>))"

section \<open>What the answers on the stream come to\<close>

text \<open>
  The answers a subscriber may see: nothing yet, a redirect alone, an end alone, or an OK, drops and
  perhaps an end.
\<close>

fun after_ok :: "subscribeResponse list \<Rightarrow> bool" where
  "after_ok [] = True"
| "after_ok [RespEnd _] = True"
| "after_ok (RespDrop _ # rs) = after_ok rs"
| "after_ok _ = False"

fun answers :: "subscribeResponse list \<Rightarrow> bool" where
  "answers [] = True"
| "answers (RespOk _ # rs) = after_ok rs"
| "answers (RespDrop _ # rs) = False"
| "answers (_ # rs) = (rs = [])"

lemma after_ok_drops [simp]: "after_ok (map RespDrop ds)"
  by (induction ds) auto

lemma after_ok_drops_end [simp]: "after_ok (map RespDrop ds @ [RespEnd m])"
  by (induction ds) auto

definition sub_inv :: "receiveSubscribeStream \<Rightarrow> bool" where
  "sub_inv s \<longleftrightarrow>
     (rs_endSent s \<longrightarrow> send_over (rs_stream s)) \<and>
     (rs_redirected s \<longrightarrow> rs_endSent s \<and> rs_responseStarted s) \<and>
     (\<not> torn (rs_stream s) \<longrightarrow>
        (\<exists>rs. responses_enc rs = Some (written (rs_stream s)) \<and> answers rs \<and>
           (\<not> send_over (rs_stream s) \<longrightarrow>
              (if rs_responseStarted s then \<exists>m ds. rs = RespOk m # map RespDrop ds else rs = [])) \<and>
           (\<not> rs_redirected s \<longrightarrow>
              (rs_responseStarted s \<longleftrightarrow> (\<exists>m. RespOk m \<in> set rs)) \<and>
              (rs_endSent s \<longleftrightarrow> (\<exists>m. RespEnd m \<in> set rs)) \<and> (\<forall>m. RespRedirect m \<notin> set rs))))"

lemma sub_inv_new: "sub_inv (newReceiveSubscribeStream sid input config)"
  by (auto simp: sub_inv_def newReceiveSubscribeStream_def intro: exI [of _ "[]"])

lemma sub_inv_over:
  assumes "sub_inv s" "send_over (rs_stream s)" "rs_stream s' = rs_stream s @ x" "written x = []"
    "rs_redirected s' \<longrightarrow> rs_endSent s' \<and> rs_responseStarted s'"
    "\<not> rs_redirected s' \<longrightarrow> \<not> rs_redirected s \<and> rs_responseStarted s' = rs_responseStarted s \<and> rs_endSent s' = rs_endSent s"
  shows "sub_inv s'"
proof -
  have "torn (rs_stream s') = torn (rs_stream s)" "written (rs_stream s') = written (rs_stream s)" "send_over (rs_stream s')"
    using assms(2-4) by simp_all
  then show ?thesis using assms(1,2,5,6) unfolding sub_inv_def by (simp, blast)
qed

lemma sub_inv_torn:
  assumes "torn (rs_stream s')" "rs_endSent s' \<longrightarrow> send_over (rs_stream s')"
    "rs_redirected s' \<longrightarrow> rs_endSent s' \<and> rs_responseStarted s'"
  shows "sub_inv s'"
  using assms by (simp add: sub_inv_def)

lemma write_typed_cases:
  assumes "stream_contract T" "write_typed T t enc log = Some (e, log')"
  obtains (ok) b where "e = None" "enc = Some b" "log' = log @ [Wrote [ucast t], Wrote b]" "\<not> send_over log"
  | (over) x y where "e = Some x" "send_over log" "log' = log @ [WriteFailed [ucast t] y]"
  | (torn) x y where "e = Some x" "\<not> send_over log" "log' = log @ y" "torn y" "\<not> send_over y"
proof (cases "t_write T log [ucast t]")
  case None
  then have o: "\<not> send_over log" by (rule write_contract [OF assms(1)])
  from None assms(2) obtain b where b: "enc = Some b" "Stream_Write T b (log @ [Wrote [ucast t]]) = (e, log')"
    by (auto simp: write_typed_def Stream_Write_def split: option.splits)
  from b(2) show ?thesis
  proof (cases rule: Stream_Write_cases)
    case ok
    then show ?thesis using that(1) b o by simp
  next
    case (failed x)
    then show ?thesis using that(3) [of x "[Wrote [ucast t], WriteFailed b x]"] o by simp
  qed
next
  case (Some x)
  then have e: "e = Some x" "log' = log @ [WriteFailed [ucast t] x]"
    using assms(2) by (auto simp: write_typed_def Stream_Write_def)
  show ?thesis
  proof (cases "send_over log")
    case True
    then show ?thesis using that(2) e by blast
  next
    case False
    then show ?thesis using that(3) [of x "[WriteFailed [ucast t] x]"] e by simp
  qed
qed

lemma responses_enc_snoc:
  "\<lbrakk>responses_enc rs = Some w; response_enc r = Some e\<rbrakk> \<Longrightarrow> responses_enc (rs @ [r]) = Some (w @ e)"
  by (simp add: responses_enc_append)

lemma sub_inv_closeWithError: "sub_inv s \<Longrightarrow> sub_inv (closeWithError code s)"
proof -
  assume i: "sub_inv s"
  show ?thesis
  proof (cases "send_over (rs_stream s)")
    case True
    then show ?thesis using i
      by (intro sub_inv_over [OF i True, of _ "if rs_redirected s then [] else [CancelReadOp code, CancelWriteOp code]"])
        (auto simp: closeWithError_def cancelStreamWithError_def sub_inv_def)
  next
    case False
    then show ?thesis using i by (auto simp: sub_inv_def closeWithError_def cancelStreamWithError_def)
  qed
qed

lemma sub_inv_close: "sub_inv s \<Longrightarrow> sub_inv (snd (rs_close T s))"
proof -
  assume i: "sub_inv s"
  show ?thesis
  proof (cases "send_over (rs_stream s)")
    case True
    then show ?thesis using i
      by (intro sub_inv_over [OF i True, of _ "if rs_redirected s then [] else [CloseOp]"])
        (auto simp: rs_close_def Stream_Close_def sub_inv_def)
  next
    case False
    then show ?thesis using i by (auto simp: sub_inv_def rs_close_def Stream_Close_def)
  qed
qed

lemma sub_inv_writeOk:
  assumes "stream_contract T" "sub_inv s" "\<not> rs_responseStarted s" "writeOkLocked T seq s = Some (e, s')"
  shows "sub_inv s'"
proof -
  obtain e' log' where w: "write_typed T MessageTypeSubscribeOk (SubscribeOk_Encode \<lparr>som_Group = seq\<rparr>) (rs_stream s) = Some (e', log')"
    "s' = (if e' = None then s\<lparr>rs_stream := log', rs_responseStarted := True\<rparr> else s\<lparr>rs_stream := log'\<rparr>)"
    using assms(4) by (auto simp: writeOkLocked_def split: option.splits)
  from assms(1) w(1) show ?thesis
  proof (cases rule: write_typed_cases)
    case (ok b)
    then have "responses_enc [RespOk \<lparr>som_Group = seq\<rparr>] = Some ([ucast MessageTypeSubscribeOk] @ b)" by simp
    with ok show ?thesis using assms(2,3) w(2)
      by (auto simp: sub_inv_def intro!: exI [of _ "[RespOk \<lparr>som_Group = seq\<rparr>]"])
  next
    case (over x y)
    then show ?thesis using assms(2) w(2)
      by (intro sub_inv_over [OF assms(2), of s' "[WriteFailed [ucast MessageTypeSubscribeOk] y]"]) (auto simp: sub_inv_def)
  next
    case (torn x y)
    then show ?thesis using assms(2) w(2) by (intro sub_inv_torn) (auto simp: sub_inv_def)
  qed
qed

lemma sub_inv_ensureOk:
  assumes "stream_contract T" "sub_inv s" "ensureOk T seq s = Some (e, s')"
  shows "sub_inv s'"
proof (cases "rs_responseStarted s")
  case False
  then obtain e' t where w: "writeOkLocked T seq s = Some (e', t)" "s' = t \<or> s' = closeWithError SubscribeErrorCodeInternal t"
    using assms(3) by (auto simp: ensureOk_def split: option.splits)
  from sub_inv_writeOk [OF assms(1,2) False w(1)] w(2) sub_inv_closeWithError show ?thesis by blast
qed (use assms in \<open>simp add: ensureOk_def\<close>)

lemma sub_inv_writeDrop:
  assumes "stream_contract T" "sub_inv s" "writeDrop T d s = Some (e, s')"
  shows "sub_inv s'"
proof (cases "rs_responseStarted s")
  case False
  then show ?thesis using assms sub_inv_writeOk by (auto simp: writeDrop_def)
next
  case True
  let ?m = "\<lparr>sdm_GroupStart = sd_StartGroup d, sdm_GroupEnd = sd_EndGroup d, sdm_ErrorCode = ucast (sd_ErrorCode d)\<rparr>"
  obtain e' log' where w: "write_typed T MessageTypeSubscribeDrop (SubscribeDrop_Encode ?m) (rs_stream s) = Some (e', log')"
    "s' = s\<lparr>rs_stream := log'\<rparr>"
    using assms(3) True by (auto simp: writeDrop_def split: option.splits)
  from assms(1) w(1) show ?thesis
  proof (cases rule: write_typed_cases)
    case (ok b)
    have rs': "\<exists>rs. responses_enc rs = Some (written log') \<and> answers rs \<and> (\<exists>m ds. rs = RespOk m # map RespDrop ds) \<and>
        (\<exists>m. RespOk m \<in> set rs) \<and> (\<forall>m. RespEnd m \<notin> set rs) \<and> (\<forall>m. RespRedirect m \<notin> set rs)"
      if "\<not> torn (rs_stream s)"
    proof -
      from that assms(2) ok(4) True obtain m ds where
        rs: "responses_enc (RespOk m # map RespDrop ds) = Some (written (rs_stream s))"
        by (auto simp: sub_inv_def)
      have "response_enc (RespDrop ?m) = Some (ucast MessageTypeSubscribeDrop # b)" using ok(2) by simp
      from responses_enc_snoc [OF rs this]
      have "responses_enc (RespOk m # map RespDrop (ds @ [?m])) = Some (written log')" using ok(3) by simp
      moreover have "answers (RespOk m # map RespDrop (ds @ [?m]))" by (simp only: answers.simps after_ok_drops)
      moreover have "RespOk m \<in> set (RespOk m # map RespDrop (ds @ [?m]))"
        "\<forall>m'. RespEnd m' \<notin> set (RespOk m # map RespDrop (ds @ [?m]))"
        "\<forall>m'. RespRedirect m' \<notin> set (RespOk m # map RespDrop (ds @ [?m]))"
        by auto
      ultimately show ?thesis by blast
    qed
    have "\<not> rs_endSent s" "\<not> rs_redirected s" using assms(2) ok(4) by (auto simp: sub_inv_def)
    moreover have "torn log' = torn (rs_stream s)" using ok(3) by simp
    ultimately show ?thesis using rs' w(2) True unfolding sub_inv_def by (simp, blast)
  next
    case (over x y)
    then show ?thesis using assms(2) w(2)
      by (intro sub_inv_over [OF assms(2), of s' "[WriteFailed [ucast MessageTypeSubscribeDrop] y]"]) (auto simp: sub_inv_def)
  next
    case (torn x y)
    then show ?thesis using assms(2) w(2) by (intro sub_inv_torn) (auto simp: sub_inv_def)
  qed
qed

text \<open>TrackWriter.Close: the end and the close of the stream together.\<close>

lemma sub_inv_end:
  assumes "stream_contract T" "sub_inv s" "writeEnd T seq s = Some (e, s')"
  shows "sub_inv (snd (rs_close T s'))"
proof (cases "rs_endSent s")
  case True
  then show ?thesis using assms by (auto simp: writeEnd_def intro: sub_inv_close)
next
  case False
  then obtain e' log' where w: "write_typed T MessageTypeSubscribeEnd (SubscribeEnd_Encode \<lparr>sem_Group = seq\<rparr>) (rs_stream s) = Some (e', log')"
    "s' = (if e' = None then s\<lparr>rs_stream := log', rs_endSent := True\<rparr> else s\<lparr>rs_stream := log'\<rparr>)"
    using assms(3) by (auto simp: writeEnd_def split: option.splits)
  have red: "\<not> rs_redirected s" using False assms(2) by (auto simp: sub_inv_def)
  from assms(1) w(1) show ?thesis
  proof (cases rule: write_typed_cases)
    case (ok b)
    have rs': "\<exists>rs. responses_enc rs = Some (written log') \<and> answers rs \<and> (\<exists>m. RespEnd m \<in> set rs) \<and>
        (rs_responseStarted s \<longleftrightarrow> (\<exists>m. RespOk m \<in> set rs)) \<and> (\<forall>m. RespRedirect m \<notin> set rs)"
      if "\<not> torn (rs_stream s)"
    proof -
      have r: "response_enc (RespEnd \<lparr>sem_Group = seq\<rparr>) = Some (ucast MessageTypeSubscribeEnd # b)" using ok(2) by simp
      from that assms(2) ok(4) red obtain rs where
        rs: "responses_enc rs = Some (written (rs_stream s))"
          "if rs_responseStarted s then \<exists>m ds. rs = RespOk m # map RespDrop ds else rs = []"
        unfolding sub_inv_def by blast
      from responses_enc_snoc [OF rs(1) r] ok(3)
      have "responses_enc (rs @ [RespEnd \<lparr>sem_Group = seq\<rparr>]) = Some (written log')" by simp
      moreover have "answers (rs @ [RespEnd \<lparr>sem_Group = seq\<rparr>])" using rs(2) by (auto split: if_splits)
      moreover have "rs_responseStarted s \<longleftrightarrow> (\<exists>m. RespOk m \<in> set (rs @ [RespEnd \<lparr>sem_Group = seq\<rparr>]))"
        "\<forall>m. RespRedirect m \<notin> set (rs @ [RespEnd \<lparr>sem_Group = seq\<rparr>])"
        using rs(2) by (auto split: if_splits)
      ultimately show ?thesis by (intro exI [of _ "rs @ [RespEnd \<lparr>sem_Group = seq\<rparr>]"]) auto
    qed
    then show ?thesis using red w(2) ok by (simp add: sub_inv_def rs_close_def Stream_Close_def) blast
  next
    case (over x y)
    then show ?thesis using assms(2) w(2)
      by (intro sub_inv_close sub_inv_over [OF assms(2), of s' "[WriteFailed [ucast MessageTypeSubscribeEnd] y]"])
        (auto simp: sub_inv_def)
  next
    case (torn x y)
    then show ?thesis using assms(2) w(2) by (intro sub_inv_close sub_inv_torn) (auto simp: sub_inv_def)
  qed
qed

lemma sub_inv_redirect:
  assumes "stream_contract T" "sub_inv s" "writeRedirect T m s = Some (e, s')"
  shows "sub_inv s'"
proof (cases "rs_responseStarted s \<or> rs_endSent s")
  case True
  then show ?thesis using assms by (auto simp: writeRedirect_def)
next
  case False
  then obtain b where b: "SubscribeRedirect_Encode m = Some b"
    using assms(3) by (auto simp: writeRedirect_def split: option.splits)
  let ?b = "ucast MessageTypeSubscribeRedirect # b"
  let ?c = "SubscribeErrorCodeInternal"
  show ?thesis
  proof (cases "t_write T (rs_stream s) ?b")
    case None
    then have o: "\<not> send_over (rs_stream s)" by (rule write_contract [OF assms(1)])
    have s': "rs_stream s' = rs_stream s @ [Wrote ?b, CloseOp, CancelReadOp ?c]"
      "rs_responseStarted s'" "rs_endSent s'" "rs_redirected s'"
      using False b None assms(3) by (auto simp: writeRedirect_def Stream_Write_def Stream_Close_def)
    have "responses_enc [RespRedirect m] = Some (written (rs_stream s'))" if "\<not> torn (rs_stream s)"
      using that assms(2) o False b s'(1) by (auto simp: sub_inv_def)
    then show ?thesis using s' o by (auto simp: sub_inv_def intro!: exI [of _ "[RespRedirect m]"])
  next
    case (Some x)
    then have s': "rs_stream s' = rs_stream s @ [WriteFailed ?b x, CancelReadOp ?c, CancelWriteOp ?c]"
      "rs_responseStarted s'" "rs_endSent s'" "rs_redirected s'"
      using False b assms(3) by (auto simp: writeRedirect_def Stream_Write_def cancelStreamWithError_def)
    show ?thesis
    proof (cases "send_over (rs_stream s)")
      case True
      then show ?thesis using s'
        by (intro sub_inv_over [OF assms(2) True s'(1)]) simp_all
    next
      case False
      then show ?thesis using s' by (intro sub_inv_torn) simp_all
    qed
  qed
qed

section \<open>Steps of a publisher\<close>

text \<open>
  What may happen on a track writer, in any order: the calls of its methods, and of those of its
  groups. The transport answers differently in every step; on the Subscribe Stream it keeps its
  contract.
\<close>

inductive pub_step :: "TrackWriter \<Rightarrow> TrackWriter \<Rightarrow> bool" where
  skip: "pub_step w (SkipGroups n w)"
| advance: "pub_step w (advance_to seq w)"
| open_group: "\<lbrakk>stream_contract T; openGroupWithSequence T opened Tg seq w = Some (r, w')\<rbrakk> \<Longrightarrow> pub_step w w'"
| drop_groups: "\<lbrakk>stream_contract T; DropGroups T d w = Some (e, w')\<rbrakk> \<Longrightarrow> pub_step w w'"
| config: "pub_step w (snd (TrackWriter_TrackConfig w))"
| update: "pub_step w (snd (ReadUpdate w))"
| write_frame: "\<lbrakk>g < length (tw_groups w); Stream_Write Tg b (snd (tw_groups w ! g)) = (e, log)\<rbrakk> \<Longrightarrow>
    pub_step w (update_group g (\<lambda>_. log) w)"
| close_group: "g < length (tw_groups w) \<Longrightarrow> pub_step w (GroupWriter_Close Tg g w)"
| cancel_group: "g < length (tw_groups w) \<Longrightarrow> pub_step w (GroupWriter_CancelWrite code g w)"
| redirect: "\<lbrakk>stream_contract T; TrackWriter_Redirect T ctx allowed to w = Some (e, w')\<rbrakk> \<Longrightarrow> pub_step w w'"
| close_track: "\<lbrakk>stream_contract T; TrackWriter_Close T Tg w = Some (e, w')\<rbrakk> \<Longrightarrow> pub_step w w'"
| close_error: "pub_step w (TrackWriter_CloseWithError code w)"

inductive pub_reach :: "TrackWriter \<Rightarrow> bool" where
  init: "pub_reach (newTrackWriter path name (newReceiveSubscribeStream sid input config))"
| step: "pub_reach w \<Longrightarrow> pub_step w w' \<Longrightarrow> pub_reach w'"

text \<open>OpenGroup, OpenGroupAt and DropNextGroups are two steps each.\<close>

lemma OpenGroup_steps:
  "\<lbrakk>stream_contract T; OpenGroup T opened Tg w = Some (r, w')\<rbrakk> \<Longrightarrow> pub_step\<^sup>*\<^sup>* w w'"
  using pub_step.skip [of w 1] pub_step.open_group [of T opened Tg "tw_sequence w + 1" "SkipGroups 1 w" r w']
  by (simp add: OpenGroup_def SkipGroups_def GroupSequence_add_def)

lemma OpenGroupAt_steps:
  "\<lbrakk>stream_contract T; OpenGroupAt T opened Tg seq w = Some (r, w')\<rbrakk> \<Longrightarrow> pub_step\<^sup>*\<^sup>* w w'"
  using pub_step.advance [of w seq] pub_step.open_group [of T opened Tg seq "advance_to seq w" r w']
  by (simp add: OpenGroupAt_def)

lemma DropNextGroups_steps:
  assumes "stream_contract T" "DropNextGroups T n code w = Some (e, w')"
  shows "pub_step\<^sup>*\<^sup>* w w'"
proof -
  have "w' = w \<or> (\<exists>d. DropGroups T d (SkipGroups n w) = Some (e, w'))"
    using assms(2) by (auto simp: DropNextGroups_def SkipGroups_def GroupSequence_add_def Let_def split: if_splits)
  then show ?thesis
    using pub_step.skip [of w n] pub_step.drop_groups [OF assms(1)] by (blast intro: rtranclp.intros)
qed

section \<open>The subscribe stream along the steps\<close>

lemma update_group_simps [simp]:
  "tw_sub (update_group g f w) = tw_sub w" "tw_manager (update_group g f w) = tw_manager w"
  "tw_hasManager (update_group g f w) = tw_hasManager w" "tw_sequence (update_group g f w) = tw_sequence w"
  "tw_hasOnClose (update_group g f w) = tw_hasOnClose w" "tw_closeCalls (update_group g f w) = tw_closeCalls w"
  "length (tw_groups (update_group g f w)) = length (tw_groups w)"
  by (simp_all add: update_group_def)

lemma end_group_simps [simp]:
  "tw_sub (GroupWriter_Close Tg g w) = tw_sub w" "tw_hasManager (GroupWriter_Close Tg g w) = tw_hasManager w"
  "tw_sequence (GroupWriter_Close Tg g w) = tw_sequence w" "tw_hasOnClose (GroupWriter_Close Tg g w) = tw_hasOnClose w"
  "tw_closeCalls (GroupWriter_Close Tg g w) = tw_closeCalls w"
  "length (tw_groups (GroupWriter_Close Tg g w)) = length (tw_groups w)"
  "tw_sub (GroupWriter_CancelWrite code g w) = tw_sub w" "tw_hasManager (GroupWriter_CancelWrite code g w) = tw_hasManager w"
  "tw_sequence (GroupWriter_CancelWrite code g w) = tw_sequence w"
  "tw_hasOnClose (GroupWriter_CancelWrite code g w) = tw_hasOnClose w"
  "tw_closeCalls (GroupWriter_CancelWrite code g w) = tw_closeCalls w"
  "length (tw_groups (GroupWriter_CancelWrite code g w)) = length (tw_groups w)"
  by (simp_all add: GroupWriter_Close_def GroupWriter_CancelWrite_def Let_def)

lemma end_group_manager:
  "tw_manager (GroupWriter_Close Tg g w) \<in> {tw_manager w, removeGroup g (tw_manager w)}"
  "tw_manager (GroupWriter_CancelWrite code g w) \<in> {tw_manager w, removeGroup g (tw_manager w)}"
  by (simp_all add: GroupWriter_Close_def GroupWriter_CancelWrite_def Let_def)

lemma end_group_groups:
  "tw_groups (GroupWriter_Close Tg g w) = tw_groups (update_group g (\<lambda>log. log @ [CloseOp]) w)"
  "tw_groups (GroupWriter_CancelWrite code g w) = tw_groups (update_group g (\<lambda>log. log @ [CancelWriteOp code]) w)"
  by (simp_all add: GroupWriter_Close_def GroupWriter_CancelWrite_def Let_def)

lemma update_group_sequences [simp]: "map fst (tw_groups (update_group g f w)) = map fst (tw_groups w)"
proof (cases "g < length (tw_groups w)")
  case True
  have "fst (map_prod id f (tw_groups w ! g)) = map fst (tw_groups w) ! g" using True by simp
  then have "map fst ((tw_groups w)[g := map_prod id f (tw_groups w ! g)]) = map fst (tw_groups w)"
    by (simp only: map_update list_update_id)
  then show ?thesis by (simp add: update_group_def)
qed (simp add: update_group_def list_update_beyond)

text \<open>A group's stream is over when its send side ended or a write on it failed.\<close>

definition group_over :: "stream_log \<Rightarrow> bool" where
  "group_over log \<longleftrightarrow> send_over log \<or> list_ex (\<lambda>x. case x of WriteFailed _ _ \<Rightarrow> True | _ \<Rightarrow> False) log"

lemma group_over_append: "group_over a \<Longrightarrow> group_over (a @ b)"
  by (auto simp: group_over_def)

lemma update_group_over:
  assumes "\<forall>g. group_over (snd (tw_groups w ! g)) \<longrightarrow> group_over (f (snd (tw_groups w ! g)))" "g < length (tw_groups w)"
    "group_over (snd (tw_groups w ! g))"
  shows "group_over (snd (tw_groups (update_group k f w) ! g))"
  using assms by (cases "k = g") (auto simp: update_group_def)

text \<open>
  What ends one group when the track stops, Close or CancelWrite: its stream is over, the others are
  as they were, and at most this group leaves the manager.
\<close>

locale group_end =
  fixes h :: "nat \<Rightarrow> TrackWriter \<Rightarrow> TrackWriter" and x :: stream_op
  assumes groups: "tw_groups (h g w) = tw_groups (update_group g (\<lambda>log. log @ [x]) w)"
    and ends: "ends_send x"
    and manager: "tw_manager (h g w) \<in> {tw_manager w, removeGroup g (tw_manager w)}"
    and keeps: "tw_sub (h g w) = tw_sub w \<and> tw_sequence (h g w) = tw_sequence w \<and>
      tw_hasManager (h g w) = tw_hasManager w \<and> tw_hasOnClose (h g w) = tw_hasOnClose w \<and>
      tw_closeCalls (h g w) = tw_closeCalls w"
begin

lemma length_groups: "length (tw_groups (h g w)) = length (tw_groups w)"
  by (simp add: groups)

lemma fold_keeps:
  "tw_sub (fold h gs w) = tw_sub w \<and> tw_sequence (fold h gs w) = tw_sequence w \<and>
   tw_hasManager (fold h gs w) = tw_hasManager w \<and> tw_hasOnClose (fold h gs w) = tw_hasOnClose w \<and>
   tw_closeCalls (fold h gs w) = tw_closeCalls w \<and> length (tw_groups (fold h gs w)) = length (tw_groups w)"
  by (induction gs arbitrary: w) (simp_all add: keeps length_groups)

lemma fold_manager:
  "gm_active (tw_manager w) = [] \<Longrightarrow> gm_active (tw_manager (fold h gs w)) = [] \<and>
   gm_closed (tw_manager (fold h gs w)) = gm_closed (tw_manager w)"
proof (induction gs arbitrary: w)
  case (Cons g gs)
  have "gm_active (tw_manager (h g w)) = [] \<and> gm_closed (tw_manager (h g w)) = gm_closed (tw_manager w)"
    using manager [of g w] Cons.prems by (auto simp: removeGroup_def)
  with Cons.IH [of "h g w"] show ?case by simp
qed simp

lemma end_over:
  assumes "k < length (tw_groups w)" "k = g \<or> group_over (snd (tw_groups w ! k))"
  shows "group_over (snd (tw_groups (h g w) ! k))"
  using assms ends by (cases "g = k") (auto simp: groups update_group_def group_over_def)

lemma fold_over:
  "\<lbrakk>k < length (tw_groups w); k \<in> set gs \<or> group_over (snd (tw_groups w ! k))\<rbrakk> \<Longrightarrow>
   group_over (snd (tw_groups (fold h gs w) ! k))"
proof (induction gs arbitrary: w)
  case (Cons g gs)
  then have "k \<in> set gs \<or> group_over (snd (tw_groups (h g w) ! k))" using end_over by auto
  with Cons.IH [of "h g w"] Cons.prems(1) show ?case by (simp add: length_groups)
qed simp

lemma stop_keeps:
  "tw_sub (stopLocked h w) = tw_sub w" "tw_sequence (stopLocked h w) = tw_sequence w"
  "\<not> tw_hasManager (stopLocked h w)" "\<not> tw_hasOnClose (stopLocked h w)"
  "tw_closeCalls (stopLocked h w) = tw_closeCalls w + (if tw_hasOnClose w then 1 else 0)"
  "length (tw_groups (stopLocked h w)) = length (tw_groups w)"
  by (simp_all add: stopLocked_def Let_def fold_keeps)

lemma stop_manager:
  "tw_hasManager w \<or> gm_active (tw_manager w) = [] \<and> gm_closed (tw_manager w) \<Longrightarrow>
   gm_active (tw_manager (stopLocked h w)) = [] \<and> gm_closed (tw_manager (stopLocked h w))"
  using fold_manager [of "w\<lparr>tw_hasManager := False, tw_manager := manager_close (tw_manager w)\<rparr>"]
  by (auto simp: stopLocked_def Let_def manager_close_def)

lemma stop_over:
  assumes "k < length (tw_groups w)" "group_over (snd (tw_groups w ! k)) \<or> tw_hasManager w \<and> k \<in> set (gm_active (tw_manager w))"
  shows "group_over (snd (tw_groups (stopLocked h w) ! k))"
  using assms fold_over [of k "w\<lparr>tw_hasManager := False, tw_manager := manager_close (tw_manager w)\<rparr>"]
  by (auto simp: stopLocked_def Let_def)

end

interpretation close_end: group_end "GroupWriter_Close Tg" CloseOp for Tg
  using end_group_manager(1) by unfold_locales (simp_all add: end_group_groups)

interpretation cancel_end: group_end "GroupWriter_CancelWrite code" "CancelWriteOp code" for code
  using end_group_manager(2) by unfold_locales (simp_all add: end_group_groups)

lemma stop_plain [simp]:
  "tw_sub (stopLocked (\<lambda>_ w. w) w) = tw_sub w" "tw_groups (stopLocked (\<lambda>_ w. w) w) = tw_groups w"
  "tw_sequence (stopLocked (\<lambda>_ w. w) w) = tw_sequence w"
  "\<not> tw_hasManager (stopLocked (\<lambda>_ w. w) w)" "\<not> tw_hasOnClose (stopLocked (\<lambda>_ w. w) w)"
  "tw_closeCalls (stopLocked (\<lambda>_ w. w) w) = tw_closeCalls w + (if tw_hasOnClose w then 1 else 0)"
  "tw_manager (stopLocked (\<lambda>_ w. w) w) = (if tw_hasManager w then manager_close (tw_manager w) else tw_manager w)"
proof -
  have "fold (\<lambda>_ w. w) gs v = v" for gs :: "nat list" and v :: TrackWriter by (induction gs arbitrary: v) simp_all
  then show "tw_sub (stopLocked (\<lambda>_ w. w) w) = tw_sub w" "tw_groups (stopLocked (\<lambda>_ w. w) w) = tw_groups w"
    "tw_sequence (stopLocked (\<lambda>_ w. w) w) = tw_sequence w"
    "\<not> tw_hasManager (stopLocked (\<lambda>_ w. w) w)" "\<not> tw_hasOnClose (stopLocked (\<lambda>_ w. w) w)"
    "tw_closeCalls (stopLocked (\<lambda>_ w. w) w) = tw_closeCalls w + (if tw_hasOnClose w then 1 else 0)"
    "tw_manager (stopLocked (\<lambda>_ w. w) w) = (if tw_hasManager w then manager_close (tw_manager w) else tw_manager w)"
    by (simp_all add: stopLocked_def Let_def)
qed

lemmas stop_simps [simp] = close_end.stop_keeps cancel_end.stop_keeps

text \<open>
  Opening a group: refused; answered but not opened; or opened, with the stream in the list and the
  group in the manager when both writes succeeded.
\<close>

lemma openGroupWithSequence_cases:
  assumes "openGroupWithSequence T opened Tg seq w = Some (r, w')"
  obtains (refused) "w' = w" "isl r"
  | (unanswered) e s where "t_done T (rs_stream (tw_sub w)) = None" "tw_hasManager w"
      "ensureOk T seq (tw_sub w) = Some (Some e, s)" "w' = w\<lparr>tw_sub := s\<rparr>"
  | (unopened) s where "t_done T (rs_stream (tw_sub w)) = None" "tw_hasManager w"
      "ensureOk T seq (tw_sub w) = Some (None, s)" "w' = w\<lparr>tw_sub := s\<rparr>"
  | (failed) s log where "t_done T (rs_stream (tw_sub w)) = None" "tw_hasManager w"
      "ensureOk T seq (tw_sub w) = Some (None, s)" "isl r"
      "w' = w\<lparr>tw_sub := snd (rs_TrackConfig s), tw_groups := tw_groups w @ [(seq, log)]\<rparr>"
      "group_over log"
  | (opened) s b u i where "t_done T (rs_stream (tw_sub w)) = None" "tw_hasManager w"
      "ensureOk T seq (tw_sub w) = Some (None, s)" "r = Inr (length (tw_groups w))"
      "Group_Encode \<lparr>g_SubscribeID = rs_subscribeID s, g_GroupSequence = seq\<rparr> = Some b"
      "w' = w\<lparr>tw_sub := snd (rs_TrackConfig s),
              tw_groups := tw_groups w @ [(seq, [SetPriorityOp u i, Wrote (StreamType_Encode StreamTypeGroup), Wrote b])],
              tw_manager := addGroup (length (tw_groups w)) (tw_manager w)\<rparr>"
proof (cases "t_done T (rs_stream (tw_sub w)) = None \<and> tw_hasManager w")
  case False
  then show ?thesis using assms refused by (auto simp: openGroupWithSequence_def split: option.splits if_splits)
next
  case True
  show ?thesis
  proof (cases "ensureOk T seq (tw_sub w)")
    case None
    then show ?thesis using assms True by (simp add: openGroupWithSequence_def)
  next
    case (Some es)
    obtain e s where es: "es = (e, s)" by force
    show ?thesis
    proof (cases "e = None \<and> opened = None")
      case False
      then show ?thesis using assms True Some es unanswered unopened
        by (auto simp: openGroupWithSequence_def split: option.splits)
    next
      case no_err: True
      note o = assms [unfolded openGroupWithSequence_def] True Some es no_err
      obtain c s2 where c: "rs_TrackConfig s = (c, s2)" by force
      have sid: "rs_subscribeID s2 = rs_subscribeID s" using c by (auto simp: rs_TrackConfig_def split: option.splits)
      obtain u i where ui: "urgencyFor (cfg_Priority c) (cfg_Ordered c) = (u, i)" by force
      let ?l = "[SetPriorityOp u i]" let ?t = "StreamType_Encode StreamTypeGroup"
      have bad: "group_over log'"
        if "group_write_failed x (log @ [WriteFailed b y]) = (err, log')" for x y log b err log'
        using that by (auto simp: group_write_failed_def group_over_def split: transport_error.splits)
      show ?thesis
      proof (cases "t_write Tg ?l ?t")
        case (Some x)
        obtain err log' where g: "group_write_failed x (?l @ [WriteFailed ?t x]) = (err, log')" by force
        then show ?thesis using o c ui Some bad [OF g] failed [of s log']
          by (auto simp: Stream_Write_def Let_def)
      next
        case first: None
        show ?thesis
        proof (cases "Group_Encode \<lparr>g_SubscribeID = rs_subscribeID s, g_GroupSequence = seq\<rparr>")
          case None
          then show ?thesis using o c ui first sid by (simp add: Stream_Write_def Let_def)
        next
          case enc: (Some b)
          show ?thesis
          proof (cases "t_write Tg (?l @ [Wrote ?t]) b")
            case (Some x)
            obtain err log' where g: "group_write_failed x ((?l @ [Wrote ?t]) @ [WriteFailed b x]) = (err, log')" by force
            then show ?thesis using o c ui first sid enc Some bad [OF g] failed [of s log']
              by (auto simp: Stream_Write_def Let_def)
          next
            case None
            then show ?thesis using o c ui first sid enc opened [of s b u i]
              by (auto simp: Stream_Write_def Let_def)
          qed
        qed
      qed
    qed
  qed
qed

section \<open>What holds along the steps\<close>

text \<open>The subscribe stream: the answers are well formed whatever the interleaving.\<close>

lemma sub_inv_config: "sub_inv s \<Longrightarrow> sub_inv (snd (rs_TrackConfig s))"
  by (auto simp: rs_TrackConfig_def sub_inv_def split: option.split)

lemma sub_inv_cong:
  "\<lbrakk>rs_stream s' = rs_stream s; rs_endSent s' = rs_endSent s; rs_redirected s' = rs_redirected s;
    rs_responseStarted s' = rs_responseStarted s\<rbrakk> \<Longrightarrow> sub_inv s' = sub_inv s"
  by (simp add: sub_inv_def)

lemma sub_inv_update: "sub_inv s \<Longrightarrow> sub_inv (snd (readUpdate s))"
  by (subst sub_inv_cong [of _ s]) (simp_all add: readUpdate_def Let_def split_beta split: option.split)

lemma redirect_cases:
  assumes "TrackWriter_Redirect T ctx allowed to w = Some (e, w')"
  obtains (refused) "w' = w"
  | (sent) m s where "writeRedirect T m (tw_sub w) = Some (e, s)" "e \<noteq> Some SubscriptionAnswered"
      "w' = stopLocked (\<lambda>_ w. w) (w\<lparr>tw_sub := s\<rparr>)"
proof -
  define to' where "to' = (if rd_TrackName to = [] then to\<lparr>rd_TrackName := tw_TrackName w\<rparr> else to)"
  note d = assms [unfolded TrackWriter_Redirect_def Let_def, folded to'_def]
  show ?thesis
  proof (cases "writeRedirect T (Redirect_message to') (tw_sub w)")
    case None
    then have "w' = w" using d by (simp split: option.splits if_splits)
    then show ?thesis by (rule refused)
  next
    case (Some p)
    obtain e2 s where p: "p = (e2, s)" by force
    have "w' = w \<or> e = e2 \<and> e2 \<noteq> Some SubscriptionAnswered \<and> w' = stopLocked (\<lambda>_ w. w) (w\<lparr>tw_sub := s\<rparr>)"
      using d Some p by (auto split: option.splits if_splits)
    then show ?thesis using refused sent Some p by blast
  qed
qed

lemma sub_inv_step: "pub_step w w' \<Longrightarrow> sub_inv (tw_sub w) \<Longrightarrow> sub_inv (tw_sub w')"
proof (induction rule: pub_step.induct)
  case (open_group T opened Tg seq w r w')
  note ok = sub_inv_ensureOk [OF open_group.hyps(1) open_group.prems]
  from open_group.hyps(2) show ?case
    by (cases rule: openGroupWithSequence_cases) (use open_group.prems in \<open>auto intro: ok sub_inv_config\<close>)
next
  case (drop_groups T d w e w')
  then show ?case
    using sub_inv_writeDrop [OF drop_groups.hyps(1) drop_groups.prems]
    by (auto simp: DropGroups_def split: if_splits option.splits)
next
  case (redirect T ctx allowed to w e w')
  from redirect.hyps(2) show ?case
    by (cases rule: redirect_cases) (use redirect.prems sub_inv_redirect [OF redirect.hyps(1) redirect.prems] in auto)
next
  case (close_track T Tg w e w')
  let ?w = "stopLocked (GroupWriter_Close Tg) w"
  obtain e' s where s: "writeEnd T (tw_sequence ?w) (tw_sub ?w) = Some (e', s)" "tw_sub w' = snd (rs_close T s)"
    using close_track.hyps(2) by (auto simp: TrackWriter_Close_def Let_def split: option.splits prod.splits)
  then show ?case using sub_inv_end [OF close_track.hyps(1) close_track.prems] by simp
qed (auto simp: SkipGroups_def GroupSequence_add_def advance_to_def TrackWriter_TrackConfig_def ReadUpdate_def
    TrackWriter_CloseWithError_def Let_def split_beta intro: sub_inv_config sub_inv_update sub_inv_closeWithError)

lemma sub_inv_reach: "pub_reach w \<Longrightarrow> sub_inv (tw_sub w)"
  by (induction rule: pub_reach.induct) (auto simp: newTrackWriter_def intro: sub_inv_new sub_inv_step)

text \<open>The groups: one not in the manager is over, and none was opened before the answer.\<close>

definition groups_inv :: "TrackWriter \<Rightarrow> bool" where
  "groups_inv w \<longleftrightarrow>
     (if tw_hasManager w then \<not> gm_closed (tw_manager w) else gm_active (tw_manager w) = [] \<and> gm_closed (tw_manager w)) \<and>
     (tw_hasManager w = tw_hasOnClose w) \<and> (tw_closeCalls w = (if tw_hasOnClose w then 0 else 1)) \<and>
     (\<not> rs_responseStarted (tw_sub w) \<longrightarrow> tw_groups w = []) \<and>
     (\<forall>g < length (tw_groups w). g \<in> set (gm_active (tw_manager w)) \<or> group_over (snd (tw_groups w ! g)))"

lemma groups_invI:
  assumes "groups_inv w" "tw_hasManager w' = tw_hasManager w" "tw_hasOnClose w' = tw_hasOnClose w"
    "tw_closeCalls w' = tw_closeCalls w" "tw_manager w' = tw_manager w" "tw_groups w' = tw_groups w"
    "rs_responseStarted (tw_sub w) \<longrightarrow> rs_responseStarted (tw_sub w')"
  shows "groups_inv w'"
  using assms by (auto simp: groups_inv_def)

lemma started_mono:
  "ensureOk T seq s = Some (e, s') \<Longrightarrow> (e = None \<longrightarrow> rs_responseStarted s') \<and> (rs_responseStarted s \<longrightarrow> rs_responseStarted s')"
  by (auto simp: ensureOk_def writeOkLocked_def split: if_splits option.splits)

lemma started_drop: "writeDrop T d s = Some (e, s') \<Longrightarrow> rs_responseStarted s \<Longrightarrow> rs_responseStarted s'"
  by (auto simp: writeDrop_def split: if_splits option.splits)

lemma started_end: "writeEnd T seq s = Some (e, s') \<Longrightarrow> rs_responseStarted s' = rs_responseStarted s"
  by (auto simp: writeEnd_def split: if_splits option.splits)

lemma started_simps [simp]:
  "rs_responseStarted (snd (rs_close T s)) = rs_responseStarted s"
  "rs_responseStarted (closeWithError code s) = rs_responseStarted s"
  "rs_responseStarted (snd (rs_TrackConfig s)) = rs_responseStarted s"
  "rs_responseStarted (snd (readUpdate s)) = rs_responseStarted s"
  by (simp_all add: rs_close_def closeWithError_def rs_TrackConfig_def readUpdate_def Stream_Close_def Let_def split_beta
      split: option.split)

lemma writeRedirect_first:
  "writeRedirect T m s = Some (e, s') \<Longrightarrow> e \<noteq> Some SubscriptionAnswered \<Longrightarrow>
   \<not> rs_responseStarted s \<and> \<not> rs_endSent s \<and> rs_redirected s'"
  by (auto simp: writeRedirect_def Let_def split: if_splits option.splits prod.splits)

context group_end
begin

lemma inv_end:
  assumes "groups_inv w" "g < length (tw_groups w)"
  shows "groups_inv (h g w)"
proof -
  have k: "tw_sub (h g w) = tw_sub w" "tw_hasManager (h g w) = tw_hasManager w" "tw_hasOnClose (h g w) = tw_hasOnClose w"
    "tw_closeCalls (h g w) = tw_closeCalls w" "length (tw_groups (h g w)) = length (tw_groups w)"
    using keeps length_groups by simp_all
  have "gm_closed (tw_manager (h g w)) = gm_closed (tw_manager w)"
    "set (gm_active (tw_manager w)) - {g} \<subseteq> set (gm_active (tw_manager (h g w)))"
    "gm_active (tw_manager w) = [] \<Longrightarrow> gm_active (tw_manager (h g w)) = []"
    using manager [of g w] by (auto simp: removeGroup_def)
  moreover have "k \<in> set (gm_active (tw_manager (h g w))) \<or> group_over (snd (tw_groups (h g w) ! k))"
    if "k < length (tw_groups w)" for k
    using that assms(1) end_over [of k w g] calculation(2) by (auto simp: groups_inv_def)
  ultimately show ?thesis using assms k by (auto simp: groups_inv_def)
qed

lemma inv_stop:
  assumes "groups_inv w"
  shows "groups_inv (stopLocked h w)"
proof -
  have "tw_groups w = [] \<Longrightarrow> tw_groups (stopLocked h w) = []"
    using stop_keeps(6) [of w] by simp
  then show ?thesis using assms stop_manager [of w] stop_over [of _ w]
    by (auto simp: groups_inv_def stop_keeps split: if_splits)
qed

end

lemma groups_inv_new: "groups_inv (newTrackWriter path name s)"
  by (simp add: groups_inv_def newTrackWriter_def newGroupWriterManager_def)

lemma groups_inv_sub:
  "groups_inv w \<Longrightarrow> (rs_responseStarted (tw_sub w) \<Longrightarrow> rs_responseStarted s) \<Longrightarrow> groups_inv (w\<lparr>tw_sub := s\<rparr>)"
  by (rule groups_invI) auto

lemma groups_inv_snoc:
  assumes "groups_inv w" "rs_responseStarted s" "group_over log"
  shows "groups_inv (w\<lparr>tw_sub := s, tw_groups := tw_groups w @ [(seq, log)]\<rparr>)"
  using assms by (auto simp: groups_inv_def nth_append less_Suc_eq)

lemma groups_inv_open:
  assumes "groups_inv w" "rs_responseStarted s" "tw_hasManager w"
  shows "groups_inv (w\<lparr>tw_sub := s, tw_groups := tw_groups w @ [(seq, log)],
    tw_manager := addGroup (length (tw_groups w)) (tw_manager w)\<rparr>)"
  using assms by (auto simp: groups_inv_def addGroup_def nth_append less_Suc_eq)

lemma groups_inv_write:
  assumes "groups_inv w" "g < length (tw_groups w)" "Stream_Write Tg b (snd (tw_groups w ! g)) = (e, log)"
  shows "groups_inv (update_group g (\<lambda>_. log) w)"
proof -
  obtain y where "log = snd (tw_groups w ! g) @ [y]" using assms(3) by (cases rule: Stream_Write_cases)
  then have "group_over (snd (tw_groups (update_group g (\<lambda>_. log) w) ! k))"
    if "k < length (tw_groups w)" "group_over (snd (tw_groups w ! k))" for k
    using that assms(2) by (cases "k = g") (auto simp: update_group_def group_over_append)
  then show ?thesis using assms(1,2) by (auto simp: groups_inv_def)
qed

lemma groups_inv_redirected:
  assumes "groups_inv w" "\<not> rs_responseStarted (tw_sub w)"
  shows "groups_inv (stopLocked (\<lambda>_ w. w) (w\<lparr>tw_sub := s\<rparr>))"
  using assms by (auto simp: groups_inv_def manager_close_def)

lemma groups_inv_step: "pub_step w w' \<Longrightarrow> groups_inv w \<Longrightarrow> groups_inv w'"
proof (induction rule: pub_step.induct)
  case (open_group T opened Tg seq w r w')
  note inv = open_group.prems
  from open_group.hyps(2) show ?case
  proof (cases rule: openGroupWithSequence_cases)
    case (unanswered e s)
    then show ?thesis using groups_inv_sub [OF inv, of s] started_mono [OF unanswered(3)] by simp
  next
    case (unopened s)
    then show ?thesis using groups_inv_sub [OF inv, of s] started_mono [OF unopened(3)] by simp
  next
    case (failed s log)
    then show ?thesis using groups_inv_snoc [OF inv _ failed(6)] started_mono [OF failed(3)] by simp
  next
    case (opened s b u i)
    then show ?thesis using groups_inv_open [OF inv _ opened(2)] started_mono [OF opened(3)] by simp
  qed (use inv in simp)
next
  case (drop_groups T d w e w')
  then show ?case using started_drop
    by (auto simp: DropGroups_def split: if_splits option.splits intro!: groups_inv_sub)
next
  case (write_frame g w Tg b e log)
  then show ?case by (intro groups_inv_write)
next
  case (redirect T ctx allowed to w e w')
  from redirect.hyps(2) show ?case
    by (cases rule: redirect_cases) (use redirect.prems writeRedirect_first groups_inv_redirected in auto)
next
  case (close_track T Tg w e w')
  let ?w = "stopLocked (GroupWriter_Close Tg) w"
  obtain e' s where s: "writeEnd T (tw_sequence ?w) (tw_sub ?w) = Some (e', s)" "w' = ?w\<lparr>tw_sub := snd (rs_close T s)\<rparr>"
    using close_track.hyps(2) by (auto simp: TrackWriter_Close_def Let_def split: option.splits prod.splits)
  show ?case unfolding s(2)
    using started_end [OF s(1)] by (intro groups_inv_sub close_end.inv_stop [OF close_track.prems]) simp
next
  case (close_error code w)
  then show ?case
    using groups_inv_sub [OF cancel_end.inv_stop [OF close_error], of PublishAbortedErrorCode]
    by (simp add: TrackWriter_CloseWithError_def Let_def)
next
  case (config w)
  then show ?case by (auto simp: TrackWriter_TrackConfig_def split_beta intro: groups_inv_sub)
next
  case (update w)
  then show ?case by (auto simp: ReadUpdate_def split_beta intro: groups_inv_sub)
qed (auto simp: SkipGroups_def GroupSequence_add_def advance_to_def
    intro: groups_invI close_end.inv_end cancel_end.inv_end)

lemma groups_inv_reach: "pub_reach w \<Longrightarrow> groups_inv w"
  by (induction rule: pub_reach.induct) (auto intro: groups_inv_new groups_inv_step)

lemma pub_reach_steps: "pub_step\<^sup>*\<^sup>* w w' \<Longrightarrow> pub_reach w \<Longrightarrow> pub_reach w'"
  by (induction rule: rtranclp_induct) (auto intro: pub_reach.step)

text \<open>A stopped writer opens no group and registers no more.\<close>

lemma stopped_step:
  "pub_step w w' \<Longrightarrow> \<not> tw_hasManager w \<Longrightarrow> \<not> tw_hasManager w' \<and> map fst (tw_groups w') = map fst (tw_groups w)"
proof (induction rule: pub_step.induct)
  case (open_group T opened Tg seq w r w')
  from open_group.hyps(2) show ?case
    by (cases rule: openGroupWithSequence_cases) (use open_group.prems in auto)
next
  case (drop_groups T d w e w')
  then show ?case by (auto simp: DropGroups_def split: if_splits option.splits)
next
  case (redirect T ctx allowed to w e w')
  from redirect.hyps(2) show ?case
    by (cases rule: redirect_cases) (use redirect.prems in auto)
next
  case (close_track T Tg w e w')
  then show ?case
    by (auto simp: TrackWriter_Close_def stopLocked_def Let_def split: option.splits prod.splits if_splits)
qed (auto simp: SkipGroups_def GroupSequence_add_def advance_to_def TrackWriter_TrackConfig_def ReadUpdate_def split_beta
    TrackWriter_CloseWithError_def stopLocked_def Let_def end_group_groups)

lemma fold_groups:
  "map fst (tw_groups (fold (GroupWriter_Close Tg) gs w)) = map fst (tw_groups w)"
  "map fst (tw_groups (fold (GroupWriter_CancelWrite code) gs w)) = map fst (tw_groups w)"
  by (induction gs arbitrary: w) (simp_all add: end_group_groups)

lemma stopped_groups:
  "map fst (tw_groups (stopLocked (GroupWriter_Close Tg) w)) = map fst (tw_groups w)"
  "map fst (tw_groups (stopLocked (GroupWriter_CancelWrite code) w)) = map fst (tw_groups w)"
  by (simp_all add: stopLocked_def Let_def fold_groups)

lemma stopped_steps:
  "pub_step\<^sup>*\<^sup>* w w' \<Longrightarrow> \<not> tw_hasManager w \<Longrightarrow> \<not> tw_hasManager w' \<and> map fst (tw_groups w') = map fst (tw_groups w)"
  by (induction rule: rtranclp_induct) (auto dest: stopped_step)

text \<open>Once the send side is over, nothing more is written on the subscribe stream.\<close>

definition quiet :: "receiveSubscribeStream \<Rightarrow> receiveSubscribeStream \<Rightarrow> bool" where
  "quiet s s' \<longleftrightarrow> (send_over (rs_stream s) \<longrightarrow>
     send_over (rs_stream s') \<and> written (rs_stream s') = written (rs_stream s) \<and> torn (rs_stream s') = torn (rs_stream s))"

lemma quiet_same [simp]: "rs_stream s' = rs_stream s \<Longrightarrow> quiet s s'"
  by (simp add: quiet_def)

lemma quiet_trans: "quiet s t \<Longrightarrow> quiet t u \<Longrightarrow> quiet s u"
  by (simp add: quiet_def)

lemma write_typed_quiet:
  "\<lbrakk>stream_contract T; write_typed T t enc log = Some (e, log'); send_over log\<rbrakk> \<Longrightarrow>
   send_over log' \<and> written log' = written log \<and> torn log' = torn log"
  by (erule write_typed_cases) auto

lemma quiet_ops:
  assumes "stream_contract T"
  shows "writeOkLocked T seq s = Some (e, s') \<Longrightarrow> quiet s s'"
    "writeEnd T seq s = Some (e, s') \<Longrightarrow> quiet s s'"
  using write_typed_quiet [OF assms]
  by (auto simp: writeOkLocked_def writeEnd_def quiet_def split: option.splits prod.splits if_splits)

lemma quiet_closeWithError: "quiet s (closeWithError code s)"
  by (simp add: closeWithError_def cancelStreamWithError_def quiet_def)

lemma quiet_close: "quiet s (snd (rs_close T s))"
  by (simp add: rs_close_def Stream_Close_def quiet_def)

lemma quiet_ensureOk:
  assumes "stream_contract T" "ensureOk T seq s = Some (e, s')"
  shows "quiet s s'"
proof (cases "rs_responseStarted s")
  case False
  then obtain e' t where w: "writeOkLocked T seq s = Some (e', t)" "s' = t \<or> s' = closeWithError SubscribeErrorCodeInternal t"
    using assms(2) by (auto simp: ensureOk_def split: option.splits)
  from quiet_ops(1) [OF assms(1) w(1)] w(2) quiet_closeWithError show ?thesis by (blast intro: quiet_trans)
qed (use assms in \<open>simp add: ensureOk_def\<close>)

lemma quiet_config: "quiet s (snd (rs_TrackConfig s))"
  by (simp add: rs_TrackConfig_def split: option.split)

lemma quiet_redirect: "stream_contract T \<Longrightarrow> writeRedirect T m s = Some (e, s') \<Longrightarrow> quiet s s'"
proof -
  assume T: "stream_contract T" and r: "writeRedirect T m s = Some (e, s')"
  show ?thesis
  proof (cases "\<not> (rs_responseStarted s \<or> rs_endSent s) \<and> send_over (rs_stream s)")
    case True
    then obtain b where b: "SubscribeRedirect_Encode m = Some b"
      using r by (auto simp: writeRedirect_def split: option.splits)
    obtain x where "t_write T (rs_stream s) (ucast MessageTypeSubscribeRedirect # b) = Some x"
      using write_contract [OF T] True by blast
    then show ?thesis using r b True
      by (auto simp: quiet_def writeRedirect_def Stream_Write_def cancelStreamWithError_def)
  next
    case False
    then show ?thesis using r by (auto simp: quiet_def writeRedirect_def)
  qed
qed

lemma quiet_step: "pub_step w w' \<Longrightarrow> quiet (tw_sub w) (tw_sub w')"
proof (induction rule: pub_step.induct)
  case (open_group T opened Tg seq w r w')
  from open_group.hyps(2) show ?case
  proof (cases rule: openGroupWithSequence_cases)
    case (failed s log)
    then show ?thesis using quiet_trans [OF quiet_ensureOk [OF open_group.hyps(1) failed(3)] quiet_config] by simp
  next
    case (opened s b u i)
    then show ?thesis using quiet_trans [OF quiet_ensureOk [OF open_group.hyps(1) opened(3)] quiet_config] by simp
  qed (use quiet_ensureOk [OF open_group.hyps(1)] in auto)
next
  case (drop_groups T d w e w')
  show ?case
  proof (cases "tw_sub w' = tw_sub w")
    case False
    then have "t_done T (rs_stream (tw_sub w)) = None"
      using drop_groups.hyps(2) by (auto simp: DropGroups_def split: if_splits option.splits)
    then show ?thesis using done_contract [OF drop_groups.hyps(1)] by (simp add: quiet_def)
  qed simp
next
  case (redirect T ctx allowed to w e w')
  from redirect.hyps(2) show ?case
    by (cases rule: redirect_cases) (use quiet_redirect [OF redirect.hyps(1)] in auto)
next
  case (close_track T Tg w e w')
  let ?w = "stopLocked (GroupWriter_Close Tg) w"
  obtain e' s where s: "writeEnd T (tw_sequence ?w) (tw_sub ?w) = Some (e', s)" "tw_sub w' = snd (rs_close T s)"
    using close_track.hyps(2) by (auto simp: TrackWriter_Close_def Let_def split: option.splits prod.splits)
  then show ?case using quiet_trans [OF quiet_ops(2) [OF close_track.hyps(1) s(1)] quiet_close] by simp
qed (auto simp: SkipGroups_def GroupSequence_add_def advance_to_def TrackWriter_TrackConfig_def ReadUpdate_def
    readUpdate_def TrackWriter_CloseWithError_def Let_def split_beta intro: quiet_config quiet_closeWithError
    split: option.split)

lemma quiet_steps: "pub_step\<^sup>*\<^sup>* w w' \<Longrightarrow> quiet (tw_sub w) (tw_sub w')"
  by (induction rule: rtranclp_induct) (auto intro: quiet_trans quiet_step)

lemma redirect_sent:
  assumes "stream_contract T" "sub_inv s" "writeRedirect T m s = Some (None, s')"
  shows "send_over (rs_stream s')"
    "\<not> torn (rs_stream s) \<Longrightarrow> responses_enc [RespRedirect m] = Some (written (rs_stream s')) \<and> \<not> torn (rs_stream s')"
proof -
  have f: "\<not> rs_responseStarted s" "\<not> rs_endSent s" using writeRedirect_first [OF assms(3)] by auto
  then obtain b where b: "SubscribeRedirect_Encode m = Some b" "t_write T (rs_stream s) (ucast MessageTypeSubscribeRedirect # b) = None"
    "rs_stream s' = rs_stream s @ [Wrote (ucast MessageTypeSubscribeRedirect # b), CloseOp, CancelReadOp SubscribeErrorCodeInternal]"
    using assms(3) by (auto simp: writeRedirect_def Stream_Write_def Stream_Close_def Let_def split: option.splits)
  have "\<not> send_over (rs_stream s)" using write_contract [OF assms(1) b(2)] .
  then show "send_over (rs_stream s')"
    "\<not> torn (rs_stream s) \<Longrightarrow> responses_enc [RespRedirect m] = Some (written (rs_stream s')) \<and> \<not> torn (rs_stream s')"
    using b assms(2) f by (auto simp: sub_inv_def)
qed

section \<open>Properties\<close>

text \<open>C10 Once a track writer was closed, closed with an error or redirected, it opens no group, whatever
  happens later: the groups it has are those it had, each with its stream ended or failed, and the
  track was unregistered exactly once.\<close>
theorem stopped_track_final:
  assumes "pub_reach w" "stream_contract T"
    "TrackWriter_Close T Tg w = Some (ec, w') \<or> w' = TrackWriter_CloseWithError code w \<or>
     TrackWriter_Redirect T ctx allowed to w = Some (None, w')"
    "pub_step\<^sup>*\<^sup>* w' w''"
  shows "map fst (tw_groups w'') = map fst (tw_groups w) \<and> (\<forall>g\<in>set (tw_groups w''). group_over (snd g)) \<and>
    tw_closeCalls w'' = 1"
proof -
  have s: "pub_step w w'" using assms(2,3) by (auto intro: pub_step.intros)
  have r: "pub_reach w''" using pub_reach_steps [OF assms(4)] pub_reach.step [OF assms(1) s] by blast
  have "\<not> tw_hasManager w' \<and> map fst (tw_groups w') = map fst (tw_groups w)"
    using assms(3)
  proof (elim disjE)
    assume "TrackWriter_Close T Tg w = Some (ec, w')"
    then show ?thesis
      using stopped_groups(1) [of Tg w]
      by (auto simp: TrackWriter_Close_def Let_def split: option.splits prod.splits)
  next
    assume "w' = TrackWriter_CloseWithError code w"
    then show ?thesis using stopped_groups(2) [of PublishAbortedErrorCode w]
      by (simp add: TrackWriter_CloseWithError_def Let_def)
  next
    assume "TrackWriter_Redirect T ctx allowed to w = Some (None, w')"
    then show ?thesis
      by (auto simp: TrackWriter_Redirect_def Let_def split: option.splits if_splits prod.splits)
  qed
  then have "\<not> tw_hasManager w''" "map fst (tw_groups w'') = map fst (tw_groups w)"
    using stopped_steps [OF assms(4)] by auto
  moreover have "groups_inv w''" using groups_inv_reach [OF r] .
  ultimately show ?thesis by (fastforce simp: groups_inv_def in_set_conv_nth)
qed

text \<open>C19 A redirect that was sent is the only answer of the subscription: it opened no group before and
  opens none after, and what is on the stream, then and for ever, is that message alone.\<close>
theorem redirect_only_answer:
  assumes "pub_reach w" "stream_contract T" "TrackWriter_Redirect T ctx allowed to w = Some (None, w')"
    "\<not> torn (rs_stream (tw_sub w))" "pub_step\<^sup>*\<^sup>* w' w''"
  shows "tw_groups w'' = [] \<and>
    (\<exists>m. responses_enc [RespRedirect m] = Some (written (rs_stream (tw_sub w''))) \<and>
       srm_ConnectURI m = rd_URI to \<and> srm_BroadcastPath m = rd_BroadcastPath to \<and>
       srm_TrackName m = (if rd_TrackName to = [] then tw_TrackName w else rd_TrackName to))"
proof -
  define to' where "to' = (if rd_TrackName to = [] then to\<lparr>rd_TrackName := tw_TrackName w\<rparr> else to)"
  obtain s where s: "writeRedirect T (Redirect_message to') (tw_sub w) = Some (None, s)"
    "w' = stopLocked (\<lambda>_ w. w) (w\<lparr>tw_sub := s\<rparr>)"
    using assms(3) [unfolded TrackWriter_Redirect_def Let_def, folded to'_def] by (auto split: option.splits if_splits)
  have inv: "groups_inv w" "sub_inv (tw_sub w)" using groups_inv_reach sub_inv_reach assms(1) by auto
  have "tw_groups w = []" using inv(1) writeRedirect_first [OF s(1)] by (auto simp: groups_inv_def)
  then have "tw_groups w'' = []" using stopped_steps [OF assms(5)] s(2) by simp
  moreover have "responses_enc [RespRedirect (Redirect_message to')] = Some (written (rs_stream (tw_sub w'')))"
    using redirect_sent [OF assms(2) inv(2) s(1)] assms(4) quiet_steps [OF assms(5)] s(2) by (simp add: quiet_def)
  ultimately show ?thesis
    by (intro conjI exI [of _ "Redirect_message to'"]) (auto simp: Redirect_message_def to'_def)
qed

section \<open>Examples\<close>

definition new_track :: TrackWriter where
  "new_track = newTrackWriter ''/room/1'' ''cam'' (newReceiveSubscribeStream 3 [] None)"

definition live_track :: TrackWriter where
  "live_track = snd (the (OpenGroup plain_transport None plain_transport new_track))"

definition moved_to :: Redirect where
  "moved_to = \<lparr>rd_URI = [], rd_BroadcastPath = ''/room/2'', rd_TrackName = []\<rparr>"

definition moved_track :: TrackWriter where
  "moved_track = snd (the (TrackWriter_Redirect plain_transport True (Some (\<lambda>_. None)) moved_to new_track))"

lemma example_tracks:
  "OpenGroup plain_transport None plain_transport new_track = Some (Inr 0, live_track)"
  "TrackWriter_Redirect plain_transport True (Some (\<lambda>_. None)) moved_to new_track = Some (None, moved_track)"
proof -
  have "map_option fst (OpenGroup plain_transport None plain_transport new_track) = Some (Inr 0)" by code_simp
  then show "OpenGroup plain_transport None plain_transport new_track = Some (Inr 0, live_track)"
    by (auto simp: live_track_def)
  have "map_option fst (TrackWriter_Redirect plain_transport True (Some (\<lambda>_. None)) moved_to new_track) = Some None"
    by code_simp
  then show "TrackWriter_Redirect plain_transport True (Some (\<lambda>_. None)) moved_to new_track = Some (None, moved_track)"
    by (auto simp: moved_track_def)
qed

lemma new_track_reach: "pub_reach new_track"
  unfolding new_track_def by (rule pub_reach.init)

lemma live_track_reach: "pub_reach live_track"
  using pub_reach_steps [OF OpenGroup_steps [OF plain_contract example_tracks(1)] new_track_reach] .

lemma stopped_track_final_witness:
  "map fst (tw_groups (TrackWriter_CloseWithError 5 live_track)) = [1] \<and>
   tw_closeCalls (TrackWriter_CloseWithError 5 live_track) = 1"
proof -
  have "map fst (tw_groups live_track) = [1]" by code_simp
  then show ?thesis
    using stopped_track_final [OF live_track_reach plain_contract disjI2 [OF disjI1 [OF refl]] rtranclp.rtrancl_refl, of 5]
    by simp
qed

lemma redirect_only_answer_witness:
  "tw_groups (TrackWriter_CloseWithError 5 moved_track) = [] \<and>
   (\<exists>m. responses_enc [RespRedirect m] = Some (written (rs_stream (tw_sub (TrackWriter_CloseWithError 5 moved_track)))) \<and>
      srm_BroadcastPath m = ''/room/2'' \<and> srm_TrackName m = ''cam'')"
proof -
  have "\<not> torn (rs_stream (tw_sub new_track))" by code_simp
  moreover have "pub_step\<^sup>*\<^sup>* moved_track (TrackWriter_CloseWithError 5 moved_track)"
    using pub_step.close_error by blast
  ultimately show ?thesis
    using redirect_only_answer [OF new_track_reach plain_contract example_tracks(2)]
    by (fastforce simp: moved_to_def new_track_def newTrackWriter_def)
qed

text \<open>
  TrackWriter.Close names the counter, not the last group opened: after SkipGroups the SUBSCRIBE_END
  covers groups that were neither opened nor dropped.
\<close>


end
