(* ===== verification/Subscriber.thy ===== *)
theory Subscriber
  imports Publisher
begin

text \<open>
  The subscriber's side of a subscription: the reading of the publisher's answers
  (moqt/send_subscribe_stream.go) and the TrackReader that queues the groups that arrive, hands them
  to the application in order and knows when the track has ended (moqt/track_reader.go).

  A group stream is named by a number. Channels are the tokens they hold; a closed channel is a flag.
  Times are natural numbers (nanoseconds), the clock an argument. The map \<open>dequeued\<close> of the code is
  made and cleared and never filled.
\<close>

section \<open>The subscribe stream\<close>

record sendSubscribeStream =
  ss_id :: uint64
  ss_config :: "SubscribeConfig option"
  ss_resolvedStart :: GroupSequence
  ss_okReceived :: bool
  ss_endGroup :: GroupSequence
  ss_ended :: bool \<comment> \<open>also whether \<open>endCh\<close> is closed\<close>
  ss_closedAt :: "nat option" \<comment> \<open>set with \<open>closedCh\<close> closed\<close>
  ss_drops :: "SubscribeDrop list"
  ss_dropped :: bool \<comment> \<open>the token in \<open>droppedCh\<close>\<close>
  ss_violation :: bool \<comment> \<open>whether onProtocolViolation was called\<close>
  ss_stream :: stream_log

definition newSendSubscribeStream :: "uint64 \<Rightarrow> stream_log \<Rightarrow> SubscribeConfig option \<Rightarrow> sendSubscribeStream" where
  "newSendSubscribeStream sid stream initConfig =
     \<lparr>ss_id = sid, ss_config = initConfig, ss_resolvedStart = 0, ss_okReceived = False, ss_endGroup = 0,
      ss_ended = False, ss_closedAt = None, ss_drops = [], ss_dropped = False, ss_violation = False,
      ss_stream = stream\<rparr>"

definition setResolvedStart :: "GroupSequence \<Rightarrow> sendSubscribeStream \<Rightarrow> sendSubscribeStream" where
  "setResolvedStart seq s = s\<lparr>ss_resolvedStart := seq, ss_okReceived := True\<rparr>"

definition setEnd :: "GroupSequence \<Rightarrow> sendSubscribeStream \<Rightarrow> sendSubscribeStream" where
  "setEnd seq s = (if ss_ended s then s else s\<lparr>ss_endGroup := seq, ss_ended := True\<rparr>)"

definition substr_appendDrop :: "SubscribeDrop \<Rightarrow> sendSubscribeStream \<Rightarrow> sendSubscribeStream" where
  "substr_appendDrop d s = s\<lparr>ss_drops := ss_drops s @ [d], ss_dropped := True\<rparr>"

definition pendingDrops :: "sendSubscribeStream \<Rightarrow> SubscribeDrop list \<times> sendSubscribeStream" where
  "pendingDrops s = (if ss_drops s = [] then ([], s) else (ss_drops s, s\<lparr>ss_drops := []\<rparr>))"

definition ss_closeWithError :: "code \<Rightarrow> sendSubscribeStream \<Rightarrow> sendSubscribeStream" where
  "ss_closeWithError code s = s\<lparr>ss_stream := cancelStreamWithError code (ss_stream s)\<rparr>"

definition ss_close :: "transport \<Rightarrow> sendSubscribeStream \<Rightarrow> transport_error option \<times> sendSubscribeStream" where
  "ss_close T s = (case Stream_Close T (ss_stream s) of (e, log) \<Rightarrow> (e, s\<lparr>ss_stream := log\<rparr>))"

text \<open>None is the panic of Encode on a sequence above MaxGroupSequence.\<close>

definition updateSubscribe ::
    "transport \<Rightarrow> SubscribeConfig option \<Rightarrow> sendSubscribeStream \<Rightarrow> (transport_error option \<times> sendSubscribeStream) option" where
  "updateSubscribe T newConfig s =
     (case newConfig of
        None \<Rightarrow> Some (None, s)
      | Some c \<Rightarrow>
          (case SubscribeUpdate_Encode
                  \<lparr>su_SubscriberPriority = cfg_Priority c, su_SubscriberOrdered = boolToWireFlag (cfg_Ordered c),
                   su_SubscriberMaxLatency = cfg_MaxLatency c, su_GroupStart = groupSequenceToWire (cfg_StartGroup c),
                   su_GroupEnd = groupSequenceToWire (cfg_EndGroup c)\<rparr> of
             None \<Rightarrow> None
           | Some b \<Rightarrow>
               (case Stream_Write T b (ss_stream s) of
                  (Some e, log) \<Rightarrow> Some (Some e, ss_closeWithError SubscribeErrorCodeInternal (s\<lparr>ss_stream := log\<rparr>))
                | (None, log) \<Rightarrow> Some (None, s\<lparr>ss_stream := log, ss_config := Some c\<rparr>))))"

section \<open>The track reader\<close>

record TrackReader =
  tr_sub :: sendSubscribeStream
  tr_queueing :: "(GroupSequence \<times> nat) list option" \<comment> \<open>None for nil\<close>
  tr_queued :: "bool option" \<comment> \<open>the token in \<open>queuedCh\<close>; None once it is nil\<close>
  tr_settled :: settledGroups
  tr_eof :: bool
  tr_cancelled :: "(nat \<times> code) list" \<comment> \<open>the group streams whose reading was cancelled\<close>
  tr_closeCalls :: nat

definition newTrackReader :: "sendSubscribeStream \<Rightarrow> TrackReader" where
  "newTrackReader s =
     \<lparr>tr_sub = s, tr_queueing = Some [], tr_queued = Some False, tr_settled = [], tr_eof = False,
      tr_cancelled = [], tr_closeCalls = 0\<rparr>"

text \<open>A send on \<open>queuedCh\<close> that does not block: nothing happens on a nil channel.\<close>

definition wake :: "TrackReader \<Rightarrow> TrackReader" where
  "wake r = r\<lparr>tr_queued := map_option (\<lambda>_. True) (tr_queued r)\<rparr>"

definition settleDropped :: "SubscribeDrop \<Rightarrow> TrackReader \<Rightarrow> TrackReader" where
  "settleDropped d r =
     wake (r\<lparr>tr_settled := settled_add (sd_StartGroup d) (sd_EndGroup d) (tr_settled r)\<rparr>)"

text \<open>appendDrop with the \<open>onDrop\<close> that newTrackReader sets.\<close>

definition appendDrop :: "SubscribeDrop \<Rightarrow> TrackReader \<Rightarrow> TrackReader" where
  "appendDrop d r = settleDropped d (r\<lparr>tr_sub := substr_appendDrop d (tr_sub r)\<rparr>)"

definition on_sub :: "(sendSubscribeStream \<Rightarrow> sendSubscribeStream) \<Rightarrow> TrackReader \<Rightarrow> TrackReader" where
  "on_sub f r = r\<lparr>tr_sub := f (tr_sub r)\<rparr>"

definition dropFromMessage :: "SubscribeDropMessage \<Rightarrow> SubscribeDrop" where
  "dropFromMessage m =
     \<lparr>sd_StartGroup = sdm_GroupStart m, sd_EndGroup = sdm_GroupEnd m, sd_ErrorCode = ucast (sdm_ErrorCode m)\<rparr>"

text \<open>What readSubscribeResponses does with one message; whether it goes on.\<close>

fun handle_response :: "subscribeResponse \<Rightarrow> TrackReader \<Rightarrow> bool \<times> TrackReader" where
  "handle_response (RespOk m) r = (True, on_sub (setResolvedStart (som_Group m)) r)"
| "handle_response (RespEnd m) r = (True, on_sub (setEnd (sem_Group m)) r)"
| "handle_response (RespDrop m) r = (True, appendDrop (dropFromMessage m) r)"
| "handle_response (RespRedirect m) r = (False, on_sub (\<lambda>s. s\<lparr>ss_violation := True\<rparr>) r)"

text \<open>The loop on what the stream delivers until it ends, and its deferred close at a time \<open>now\<close>.\<close>

function response_loop :: "bytes \<Rightarrow> TrackReader \<Rightarrow> TrackReader" where
  "response_loop stream r =
     (case readSubscribeResponse stream of
        (Inl _, _) \<Rightarrow> r
      | (Inr resp, stream') \<Rightarrow>
          (case handle_response resp r of (go, r) \<Rightarrow> if go then response_loop stream' r else r))"
  by pat_completeness auto
termination
  by (relation "measure (\<lambda>(stream, _). length stream)") (auto dest: readSubscribeResponse_shorter [OF sym])

declare response_loop.simps [simp del]

definition readSubscribeResponses :: "nat \<Rightarrow> bytes \<Rightarrow> TrackReader \<Rightarrow> TrackReader" where
  "readSubscribeResponses now stream r = on_sub (\<lambda>s. s\<lparr>ss_closedAt := Some now\<rparr>) (response_loop stream r)"




definition enqueueGroup :: "bool \<Rightarrow> GroupSequence \<Rightarrow> nat \<Rightarrow> TrackReader \<Rightarrow> TrackReader" where
  "enqueueGroup ctxDone seq stream r =
     (case tr_queueing r of
        None \<Rightarrow> r\<lparr>tr_cancelled := tr_cancelled r @ [(stream, SubscribeCanceledErrorCode)]\<rparr>
      | Some queueing \<Rightarrow>
          if ctxDone \<or> tr_eof r then r\<lparr>tr_cancelled := tr_cancelled r @ [(stream, SubscribeCanceledErrorCode)]\<rparr>
          else
            wake (r\<lparr>tr_settled := settled_add seq seq (tr_settled r), tr_queueing := Some (queueing @ [(seq, stream)])\<rparr>))"

text \<open>
  One turn of AcceptGroup's loop: it returns, or it waits, with a time limit when the publisher has
  closed the stream. \<open>cause\<close> is the cause of the track's context once it is done.
\<close>

datatype accepted =
    AcceptedGroup GroupSequence nat
  | AcceptEOF
  | AcceptFailed transport_error
  | Waits "nat option"

definition accept_turn :: "nat \<Rightarrow> nat \<Rightarrow> transport_error option \<Rightarrow> TrackReader \<Rightarrow> accepted \<times> TrackReader" where
  "accept_turn now grace cause r =
     (case tr_queueing r of
        Some ((seq, stream) # rest) \<Rightarrow> (AcceptedGroup seq stream, r\<lparr>tr_queueing := Some rest\<rparr>)
      | _ \<Rightarrow>
        (if tr_eof r then (AcceptEOF, r)
         else
           let s = tr_sub r; end' = ss_endGroup s; start = ss_resolvedStart s;
               wait = (\<lambda>left. case cause of Some e \<Rightarrow> (AcceptFailed e, r) | None \<Rightarrow> (Waits left, r))
           in if \<not> ss_ended s then wait None
              else if start = 0 \<or> end' < start \<or> settled_covers (tr_settled r) start end' then
                (AcceptEOF, r\<lparr>tr_eof := True\<rparr>)
              else
                (case ss_closedAt s of
                   None \<Rightarrow> wait None
                 | Some closedAt \<Rightarrow>
                     let left = int grace - (int now - int closedAt)
                     in if left \<le> 0 then (AcceptEOF, r\<lparr>tr_eof := True\<rparr>) else wait (Some (nat left)))))"

definition cancel_queued :: "code \<Rightarrow> TrackReader \<Rightarrow> TrackReader" where
  "cancel_queued code r =
     r\<lparr>tr_cancelled := tr_cancelled r @
          (case tr_queueing r of None \<Rightarrow> [] | Some q \<Rightarrow> map (\<lambda>(_, stream). (stream, code)) q),
       tr_queueing := None, tr_queued := None, tr_closeCalls := tr_closeCalls r + 1\<rparr>"

definition TrackReader_Close :: "transport \<Rightarrow> TrackReader \<Rightarrow> transport_error option \<times> TrackReader" where
  "TrackReader_Close T r =
     (let r = cancel_queued SubscribeCanceledErrorCode r in
      case ss_close T (tr_sub r) of (e, s) \<Rightarrow> (e, r\<lparr>tr_sub := s\<rparr>))"

definition TrackReader_CloseWithError :: "code \<Rightarrow> TrackReader \<Rightarrow> TrackReader" where
  "TrackReader_CloseWithError code r = on_sub (ss_closeWithError code) (cancel_queued code r)"

text \<open>
  Session.subscribe from the first answer on: what it returns, the rest of the stream, and the
  reader, which every failure closes. The redirect is then followed (theory Redirects).
\<close>

datatype subscribe_result =
    Subscribed
  | SubscribeRefused response_error
  | SubscribeRedirected SubscribeRedirectMessage
  | UnexpectedDrop

definition refuse_subscription :: "TrackReader \<Rightarrow> TrackReader" where
  "refuse_subscription r =
     TrackReader_CloseWithError SubscribeErrorCodeInternal
       (on_sub (\<lambda>s. s\<lparr>ss_stream := cancelStreamWithError SubscribeErrorCodeInternal (ss_stream s)\<rparr>) r)"

definition first_response :: "transport \<Rightarrow> bytes \<Rightarrow> TrackReader \<Rightarrow> subscribe_result \<times> bytes \<times> TrackReader" where
  "first_response T stream r =
     (case readSubscribeResponse stream of
        (Inl e, stream) \<Rightarrow> (SubscribeRefused e, stream, refuse_subscription r)
      | (Inr (RespOk m), stream) \<Rightarrow> (Subscribed, stream, on_sub (setResolvedStart (som_Group m)) r)
      | (Inr (RespEnd m), stream) \<Rightarrow> (Subscribed, stream, on_sub (setEnd (sem_Group m)) r)
      | (Inr (RespRedirect m), stream) \<Rightarrow>
          (SubscribeRedirected m, stream,
           snd (TrackReader_Close T
             (on_sub (\<lambda>s. s\<lparr>ss_stream := ss_stream s @ [CancelReadOp SubscribeErrorCodeInternal]\<rparr>) r)))
      | (Inr (RespDrop _), stream) \<Rightarrow> (UnexpectedDrop, stream, refuse_subscription r))"

text \<open>One turn of acceptDrop: the first drop, the others put back.\<close>

definition accept_drop_turn :: "TrackReader \<Rightarrow> SubscribeDrop option \<times> TrackReader" where
  "accept_drop_turn r =
     (case pendingDrops (tr_sub r) of
        (drops, s) \<Rightarrow>
          (case drops of
             [] \<Rightarrow> (None, r\<lparr>tr_sub := s\<rparr>)
           | d # ds \<Rightarrow> (Some d, fold appendDrop ds (r\<lparr>tr_sub := s\<rparr>))))"

definition TrackReader_Update ::
    "transport \<Rightarrow> SubscribeConfig option \<Rightarrow> TrackReader \<Rightarrow> ((string + transport_error option) \<times> TrackReader) option" where
  "TrackReader_Update T config r =
     (case config of
        None \<Rightarrow> Some (Inl ''subscribe config cannot be nil'', r)
      | Some c \<Rightarrow> map_option (\<lambda>(e, s). (Inr e, r\<lparr>tr_sub := s\<rparr>)) (updateSubscribe T (Some c) (tr_sub r)))"

section \<open>Reading what a publisher wrote\<close>

lemma readSubscribeResponse_Nil: "readSubscribeResponse [] = (Inl (ResponseError EOF), [])"
  by (simp add: readSubscribeResponse_def ReadFull_def)

abbreviation handled :: "subscribeResponse \<Rightarrow> TrackReader \<Rightarrow> TrackReader" where
  "handled resp r \<equiv> snd (handle_response resp r)"

fun is_redirect :: "subscribeResponse \<Rightarrow> bool" where
  "is_redirect (RespRedirect _) = True"
| "is_redirect _ = False"

lemma handle_goes_on: "fst (handle_response resp r) = (\<not> is_redirect resp)"
  by (cases resp) simp_all

lemma response_loop_enc:
  "\<lbrakk>responses_enc rs = Some e; \<forall>x\<in>set rs. \<not> is_redirect x\<rbrakk> \<Longrightarrow> response_loop e r = fold handled rs r"
proof (induction rs arbitrary: e r)
  case Nil
  then show ?case by (simp add: response_loop.simps readSubscribeResponse_Nil)
next
  case (Cons x rs)
  then obtain b bs where e: "response_enc x = Some b" "responses_enc rs = Some bs" "e = b @ bs"
    by (auto simp: bind_Some_eq)
  have "response_fits x" using Cons.prems(2) by (cases x) auto
  then have "readSubscribeResponse e = (Inr x, bs)" using readSubscribeResponse_enc [OF e(1)] e(3) by simp
  then show ?case
    using Cons.IH [OF e(2)] Cons.prems(2) handle_goes_on [of x r]
    by (subst response_loop.simps) (simp add: split_beta)
qed

lemma on_sub_simps [simp]: "tr_sub (on_sub f r) = f (tr_sub r)" by (simp add: on_sub_def)

lemma wake_simps [simp]:
  "tr_sub (wake r) = tr_sub r" "tr_queueing (wake r) = tr_queueing r" "tr_settled (wake r) = tr_settled r"
  "tr_eof (wake r) = tr_eof r" "tr_cancelled (wake r) = tr_cancelled r" "tr_closeCalls (wake r) = tr_closeCalls r"
  by (simp_all add: wake_def)

lemma appendDrop_simps [simp]:
  "tr_sub (appendDrop d r) = substr_appendDrop d (tr_sub r)" "tr_queueing (appendDrop d r) = tr_queueing r"
  "tr_settled (appendDrop d r) = settled_add (sd_StartGroup d) (sd_EndGroup d) (tr_settled r)"
  "tr_eof (appendDrop d r) = tr_eof r" "tr_cancelled (appendDrop d r) = tr_cancelled r"
  by (simp_all add: appendDrop_def settleDropped_def)

lemma fold_drops:
  "tr_sub (fold handled (map RespDrop ds) r) =
     (tr_sub r)\<lparr>ss_drops := ss_drops (tr_sub r) @ map dropFromMessage ds,
                ss_dropped := ss_dropped (tr_sub r) \<or> ds \<noteq> []\<rparr>"
  by (induction ds arbitrary: r) (simp_all add: substr_appendDrop_def)

text \<open>The first answer, and the reader after all that follow it.\<close>

definition answered_reader :: "transport \<Rightarrow> nat \<Rightarrow> bytes \<Rightarrow> TrackReader \<Rightarrow> subscribe_result \<times> TrackReader" where
  "answered_reader T now stream r =
     (case first_response T stream r of (res, rest, r) \<Rightarrow>
        (res, if res = Subscribed then readSubscribeResponses now rest r else r))"

lemma first_response_cons:
  assumes "responses_enc (x # rs) = Some e" "response_fits x"
  obtains bs where "responses_enc rs = Some bs" "readSubscribeResponse e = (Inr x, bs)"
  using assms readSubscribeResponse_enc [of x] by (auto simp: bind_Some_eq)

lemma after_ok_shape: "after_ok rs \<Longrightarrow> \<exists>ds. rs = map RespDrop ds \<or> (\<exists>m. rs = map RespDrop ds @ [RespEnd m])"
proof (induction rs rule: after_ok.induct)
  case (3 d rs)
  then obtain ds where "rs = map RespDrop ds \<or> (\<exists>m. rs = map RespDrop ds @ [RespEnd m])" by auto
  then have "RespDrop d # rs = map RespDrop (d # ds) \<or> (\<exists>m. RespDrop d # rs = map RespDrop (d # ds) @ [RespEnd m])"
    by auto
  then show ?case by (rule exI [of _ "d # ds"])
qed auto

definition new_reader :: "uint64 \<Rightarrow> stream_log \<Rightarrow> SubscribeConfig option \<Rightarrow> TrackReader" where
  "new_reader sid stream config = newTrackReader (newSendSubscribeStream sid stream config)"

lemma new_reader_sub [simp]: "tr_sub (new_reader sid stream config) = newSendSubscribeStream sid stream config"
  by (simp add: new_reader_def newTrackReader_def)

definition drops_of :: "subscribeResponse list \<Rightarrow> SubscribeDrop list" where
  "drops_of rs = concat (map (\<lambda>x. case x of RespDrop m \<Rightarrow> [dropFromMessage m] | _ \<Rightarrow> []) rs)"

lemma drops_of_simps [simp]:
  "drops_of [] = []" "drops_of (RespOk m # rs) = drops_of rs" "drops_of (RespEnd e # rs) = drops_of rs"
  "drops_of (RespDrop d # rs) = dropFromMessage d # drops_of rs" "drops_of (xs @ ys) = drops_of xs @ drops_of ys"
  "drops_of (map RespDrop ds) = map dropFromMessage ds"
proof -
  show "drops_of (map RespDrop ds) = map dropFromMessage ds" by (induction ds) (simp_all add: drops_of_def)
qed (simp_all add: drops_of_def)

lemma answered_ok:
  assumes "responses_enc (RespOk m # rs) = Some e" "after_ok rs" "answered_reader T now e (new_reader sid stream config) = (res, r)"
  shows "res = Subscribed \<and> ss_okReceived (tr_sub r) \<and> ss_resolvedStart (tr_sub r) = som_Group m \<and>
    (ss_ended (tr_sub r) \<longleftrightarrow> (\<exists>x. RespEnd x \<in> set rs)) \<and> (\<forall>x. RespEnd x \<in> set rs \<longrightarrow> ss_endGroup (tr_sub r) = sem_Group x) \<and>
    ss_drops (tr_sub r) = drops_of rs \<and> \<not> ss_violation (tr_sub r)"
proof -
  let ?r = "on_sub (setResolvedStart (som_Group m)) (new_reader sid stream config)"
  obtain bs where bs: "responses_enc rs = Some bs" "readSubscribeResponse e = (Inr (RespOk m), bs)"
    using first_response_cons [OF assms(1)] by auto
  obtain ds where ds: "rs = map RespDrop ds \<or> (\<exists>x. rs = map RespDrop ds @ [RespEnd x])"
    using after_ok_shape [OF assms(2)] by blast
  then have "\<forall>x\<in>set rs. \<not> is_redirect x" by auto
  then have "response_loop bs ?r = fold handled rs ?r" using response_loop_enc [OF bs(1)] by simp
  then have r: "res = Subscribed" "tr_sub r = (tr_sub (fold handled rs ?r))\<lparr>ss_closedAt := Some now\<rparr>"
    using assms(3) bs(2) by (auto simp: answered_reader_def first_response_def readSubscribeResponses_def)
  from ds show ?thesis
  proof (elim disjE exE)
    assume "rs = map RespDrop ds"
    then show ?thesis using r by (auto simp: fold_drops setResolvedStart_def newSendSubscribeStream_def)
  next
    fix x assume "rs = map RespDrop ds @ [RespEnd x]"
    then show ?thesis using r by (auto simp: fold_drops setResolvedStart_def setEnd_def newSendSubscribeStream_def)
  qed
qed

lemma answered_end:
  assumes "responses_enc [RespEnd m] = Some e" "answered_reader T now e (new_reader sid stream config) = (res, r)"
  shows "res = Subscribed \<and> \<not> ss_okReceived (tr_sub r) \<and> ss_resolvedStart (tr_sub r) = 0 \<and> ss_ended (tr_sub r) \<and>
    ss_endGroup (tr_sub r) = sem_Group m \<and> ss_drops (tr_sub r) = [] \<and> \<not> ss_violation (tr_sub r)"
proof -
  obtain bs where bs: "responses_enc [] = Some bs" "readSubscribeResponse e = (Inr (RespEnd m), bs)"
    using first_response_cons [OF assms(1)] by auto
  then show ?thesis using assms(2)
    by (auto simp: answered_reader_def first_response_def readSubscribeResponses_def response_loop.simps
        readSubscribeResponse_Nil setEnd_def newSendSubscribeStream_def)
qed

section \<open>Properties of a subscription\<close>


section \<open>Runs of a track reader\<close>

text \<open>
  What happens to a track reader, in order: group streams that arrive, answers that are read, the end
  of the subscribe stream, and the calls of the application. \<open>rd_run evs ok r\<close> says that \<open>evs\<close> leads
  to \<open>r\<close>; \<open>ok\<close> that the settled ranges never reached their bound. The group sequences and drops
  that arrive are decoded from varints, so they are at most MaxGroupSequence.
\<close>

datatype rd_event =
    EvQueued GroupSequence nat
  | EvRefused GroupSequence nat \<comment> \<open>a group stream that arrives too late\<close>
  | EvDrop SubscribeDrop
  | EvAccepted GroupSequence nat
  | EvEOF
  | EvOther

definition below_bound :: "TrackReader \<Rightarrow> bool" where
  "below_bound r \<longleftrightarrow> length (tr_settled r) < maxSettledRanges"

inductive rd_run :: "rd_event list \<Rightarrow> bool \<Rightarrow> TrackReader \<Rightarrow> bool" where
  start: "rd_run [] True (new_reader sid stream config)"
| queued: "\<lbrakk>rd_run evs ok r; seq \<le> MaxGroupSequence; tr_queueing r \<noteq> None; \<not> ctxDone; \<not> tr_eof r\<rbrakk> \<Longrightarrow>
    rd_run (evs @ [EvQueued seq st]) (ok \<and> below_bound r) (enqueueGroup ctxDone seq st r)"
| late: "\<lbrakk>rd_run evs ok r; tr_queueing r = None \<or> ctxDone \<or> tr_eof r\<rbrakk> \<Longrightarrow>
    rd_run (evs @ [EvRefused seq st]) ok (enqueueGroup ctxDone seq st r)"
| dropped: "\<lbrakk>rd_run evs ok r; sdm_GroupEnd m \<le> MaxGroupSequence\<rbrakk> \<Longrightarrow>
    rd_run (evs @ [EvDrop (dropFromMessage m)]) (ok \<and> below_bound r) (snd (handle_response (RespDrop m) r))"
| answered: "\<lbrakk>rd_run evs ok r; \<forall>m. resp \<noteq> RespDrop m\<rbrakk> \<Longrightarrow>
    rd_run (evs @ [EvOther]) ok (snd (handle_response resp r))"
| stream_closed: "rd_run evs ok r \<Longrightarrow> rd_run (evs @ [EvOther]) ok (on_sub (\<lambda>s. s\<lparr>ss_closedAt := Some now\<rparr>) r)"
| accept: "\<lbrakk>rd_run evs ok r; accept_turn now grace cause r = (a, r')\<rbrakk> \<Longrightarrow>
    rd_run (evs @ [case a of AcceptedGroup seq st \<Rightarrow> EvAccepted seq st | AcceptEOF \<Rightarrow> EvEOF | _ \<Rightarrow> EvOther]) ok r'"
| accept_drop: "\<lbrakk>rd_run evs ok r; accept_drop_turn r = (d, r')\<rbrakk> \<Longrightarrow> rd_run (evs @ [EvOther]) ok r'"
| update: "\<lbrakk>rd_run evs ok r; TrackReader_Update T newConfig r = Some (e, r')\<rbrakk> \<Longrightarrow> rd_run (evs @ [EvOther]) ok r'"
| close: "\<lbrakk>rd_run evs ok r; TrackReader_Close T r = (e, r')\<rbrakk> \<Longrightarrow> rd_run (evs @ [EvOther]) ok r'"
| close_error: "rd_run evs ok r \<Longrightarrow> rd_run (evs @ [EvOther]) ok (TrackReader_CloseWithError code r)"

fun queued_by :: "rd_event \<Rightarrow> (GroupSequence \<times> nat) list" where
  "queued_by (EvQueued seq st) = [(seq, st)]"
| "queued_by _ = []"

fun accepted_by :: "rd_event \<Rightarrow> (GroupSequence \<times> nat) list" where
  "accepted_by (EvAccepted seq st) = [(seq, st)]"
| "accepted_by _ = []"

fun settled_by :: "rd_event \<Rightarrow> GroupSequence set" where
  "settled_by (EvQueued seq st) = {seq}"
| "settled_by (EvDrop d) = {sd_StartGroup d..sd_EndGroup d}"
| "settled_by _ = {}"

definition all_queued :: "rd_event list \<Rightarrow> (GroupSequence \<times> nat) list" where
  "all_queued evs = concat (map queued_by evs)"

definition all_accepted :: "rd_event list \<Rightarrow> (GroupSequence \<times> nat) list" where
  "all_accepted evs = concat (map accepted_by evs)"

definition all_settled :: "rd_event list \<Rightarrow> GroupSequence set" where
  "all_settled evs = \<Union> (set (map settled_by evs))"

lemma all_simps [simp]:
  "all_queued [] = []" "all_queued (evs @ [e]) = all_queued evs @ queued_by e"
  "all_accepted [] = []" "all_accepted (evs @ [e]) = all_accepted evs @ accepted_by e"
  "all_settled [] = {}" "all_settled (evs @ [e]) = all_settled evs \<union> settled_by e"
  by (auto simp: all_queued_def all_accepted_def all_settled_def)

text \<open>One turn of AcceptGroup.\<close>

lemma accept_turn_cases:
  assumes "accept_turn now grace cause r = (a, r')"
  obtains (got) seq st rest where "tr_queueing r = Some ((seq, st) # rest)" "a = AcceptedGroup seq st"
      "r' = r\<lparr>tr_queueing := Some rest\<rparr>"
  | (stuck) "tr_queueing r \<in> {None, Some []}" "r' = r" "\<not> tr_eof r" "a \<noteq> AcceptEOF" "\<forall>seq st. a \<noteq> AcceptedGroup seq st"
      "\<not> (ss_ended (tr_sub r) \<and> (ss_resolvedStart (tr_sub r) = 0 \<or> ss_endGroup (tr_sub r) < ss_resolvedStart (tr_sub r) \<or>
          settled_covers (tr_settled r) (ss_resolvedStart (tr_sub r)) (ss_endGroup (tr_sub r))))"
  | (eof) "tr_queueing r \<in> {None, Some []}" "r' = r\<lparr>tr_eof := True\<rparr>" "a = AcceptEOF"
      "tr_eof r \<or> ss_ended (tr_sub r) \<and>
        (ss_resolvedStart (tr_sub r) = 0 \<or> ss_endGroup (tr_sub r) < ss_resolvedStart (tr_sub r) \<or>
         settled_covers (tr_settled r) (ss_resolvedStart (tr_sub r)) (ss_endGroup (tr_sub r)) \<or>
         (\<exists>closedAt. ss_closedAt (tr_sub r) = Some closedAt \<and> closedAt + grace \<le> now))"
proof (cases "\<exists>p rest. tr_queueing r = Some (p # rest)")
  case True
  then obtain seq st rest where q: "tr_queueing r = Some ((seq, st) # rest)" by force
  then show ?thesis using assms got by (auto simp: accept_turn_def)
next
  case False
  have q: "tr_queueing r \<in> {None, Some []}"
  proof (cases "tr_queueing r")
    case (Some q)
    with False show ?thesis by (cases q) auto
  qed simp
  show ?thesis
  proof (cases "tr_eof r")
    case True
    then have "a = AcceptEOF" "r' = r" using assms q by (auto simp: accept_turn_def)
    then show ?thesis using q True by (intro eof) auto
  next
    case no_eof: False
    show ?thesis
    proof (cases "a = AcceptEOF")
      case True
      then show ?thesis using assms q no_eof
        by (intro eof) (auto simp: accept_turn_def Let_def split: if_splits option.splits)
    next
      case False
      then show ?thesis using assms q no_eof
        by (intro stuck) (auto simp: accept_turn_def Let_def split: if_splits option.splits)
    qed
  qed
qed

text \<open>The queue: what was queued is what was accepted and what waits, or was cancelled on closing.\<close>

definition queue_inv :: "rd_event list \<Rightarrow> TrackReader \<Rightarrow> bool" where
  "queue_inv evs r \<longleftrightarrow>
     (\<exists>rest. all_queued evs = all_accepted evs @ rest \<and>
        (case tr_queueing r of
           Some q \<Rightarrow> rest = q
         | None \<Rightarrow> \<forall>(seq, st)\<in>set rest. st \<in> fst ` set (tr_cancelled r))) \<and>
     (tr_eof r \<longrightarrow> tr_queueing r \<in> {None, Some []})"

lemma fold_appendDrop [simp]:
  "tr_queueing (fold appendDrop ds r) = tr_queueing r" "tr_eof (fold appendDrop ds r) = tr_eof r"
  "tr_cancelled (fold appendDrop ds r) = tr_cancelled r"
  by (induction ds arbitrary: r) simp_all

lemma accept_drop_keeps:
  "accept_drop_turn r = (d, r') \<Longrightarrow> tr_queueing r' = tr_queueing r \<and> tr_eof r' = tr_eof r \<and> tr_cancelled r' = tr_cancelled r"
  by (auto simp: accept_drop_turn_def split: prod.splits list.splits)

lemma queue_inv_same:
  "\<lbrakk>queue_inv evs r; tr_queueing r' = tr_queueing r; tr_eof r' = tr_eof r; set (tr_cancelled r) \<subseteq> set (tr_cancelled r');
    queued_by e = []; accepted_by e = []\<rbrakk> \<Longrightarrow> queue_inv (evs @ [e]) r'"
  by (fastforce simp: queue_inv_def split: option.split)

lemma handle_keeps:
  "tr_queueing (snd (handle_response resp r)) = tr_queueing r" "tr_eof (snd (handle_response resp r)) = tr_eof r"
  "tr_cancelled (snd (handle_response resp r)) = tr_cancelled r"
  by (cases resp; simp add: on_sub_def)+

lemma queue_inv_cancel:
  assumes "queue_inv evs r" "tr_queueing r' = None" "tr_cancelled r' = tr_cancelled (cancel_queued code r)"
    "queued_by e = []" "accepted_by e = []"
  shows "queue_inv (evs @ [e]) r'"
proof -
  obtain rest where rest: "all_queued evs = all_accepted evs @ rest"
    "case tr_queueing r of Some q \<Rightarrow> rest = q | None \<Rightarrow> \<forall>(seq, st)\<in>set rest. st \<in> fst ` set (tr_cancelled r)"
    using assms(1) by (auto simp: queue_inv_def)
  have "\<forall>(seq, st)\<in>set rest. st \<in> fst ` set (tr_cancelled (cancel_queued code r))"
    using rest(2) by (force simp: cancel_queued_def split: option.splits)
  with rest(1) assms(2-5) show ?thesis by (auto simp: queue_inv_def)
qed

lemma queue_inv_run: "rd_run evs ok r \<Longrightarrow> queue_inv evs r"
proof (induction rule: rd_run.induct)
  case (start sid stream config)
  then show ?case by (simp add: queue_inv_def new_reader_def newTrackReader_def)
next
  case (queued evs ok r seq ctxDone st)
  then show ?case by (auto simp: queue_inv_def enqueueGroup_def)
next
  case (late evs ok r ctxDone seq st)
  then show ?case by (intro queue_inv_same [OF late.IH]) (auto simp: enqueueGroup_def split: option.split)
next
  case (accept evs ok r now grace cause a r')
  from accept.hyps(2) show ?case
  proof (cases rule: accept_turn_cases)
    case (got seq st rest)
    then show ?thesis using accept.IH by (auto simp: queue_inv_def)
  next
    case stuck
    then show ?thesis
      by (intro queue_inv_same [OF accept.IH]) (auto split: accepted.split)
  next
    case eof
    then show ?thesis using accept.IH by (auto simp: queue_inv_def)
  qed
next
  case (update evs ok r T newConfig e r')
  then show ?case
    by (intro queue_inv_same [OF update.IH]) (auto simp: TrackReader_Update_def split: option.splits prod.splits)
next
  case (close evs ok r T e r')
  then show ?case
    by (intro queue_inv_cancel [OF close.IH, of _ SubscribeCanceledErrorCode])
      (auto simp: TrackReader_Close_def cancel_queued_def Let_def split: prod.splits)
next
  case (close_error evs ok r code)
  then show ?case
    by (intro queue_inv_cancel [OF close_error.IH, of _ code])
      (auto simp: TrackReader_CloseWithError_def cancel_queued_def on_sub_def)
next
  case (accept_drop evs ok r d r')
  then show ?case using accept_drop_keeps by (intro queue_inv_same [OF accept_drop.IH]) auto
qed (auto intro: queue_inv_same simp: handle_keeps on_sub_def)

text \<open>What is settled: all that arrived, and nothing else while the bound was not reached.\<close>

definition set_inv :: "rd_event list \<Rightarrow> bool \<Rightarrow> TrackReader \<Rightarrow> bool" where
  "set_inv evs ok r \<longleftrightarrow> settled_inv (tr_settled r) \<and> all_settled evs \<subseteq> members (tr_settled r) \<and>
     (ok \<longrightarrow> members (tr_settled r) = all_settled evs) \<and>
     (\<forall>d\<in>set (ss_drops (tr_sub r)). sd_EndGroup d \<le> MaxGroupSequence \<and>
        {sd_StartGroup d..sd_EndGroup d} \<subseteq> members (tr_settled r))"

lemma set_inv_add:
  assumes "set_inv evs ok r" "hi \<le> MaxGroupSequence" "tr_settled r' = settled_add lo hi (tr_settled r)"
    "settled_by e = {lo..hi}" "set (ss_drops (tr_sub r')) \<subseteq> insert d (set (ss_drops (tr_sub r)))"
    "{sd_StartGroup d..sd_EndGroup d} \<subseteq> {lo..hi}" "sd_EndGroup d \<le> MaxGroupSequence"
  shows "set_inv (evs @ [e]) (ok \<and> below_bound r) r'"
proof -
  have i: "settled_inv (tr_settled r)" using assms(1) by (simp add: set_inv_def)
  have "settled_inv (tr_settled r') \<and> members (tr_settled r) \<union> {lo..hi} \<subseteq> members (tr_settled r')"
    using settled_add_inv [OF i assms(2), of lo] assms(3) by simp
  moreover have "below_bound r \<Longrightarrow> members (tr_settled r') = members (tr_settled r) \<union> {lo..hi}"
    using settled_add_members [OF i assms(2), of lo] assms(3) by (simp add: below_bound_def)
  ultimately show ?thesis using assms(1,4-7) unfolding set_inv_def all_simps by blast
qed

lemma set_inv_same:
  assumes "set_inv evs ok r" "tr_settled r' = tr_settled r" "set (ss_drops (tr_sub r')) \<subseteq> set (ss_drops (tr_sub r))"
    "settled_by e = {}"
  shows "set_inv (evs @ [e]) ok r'"
  using assms by (auto simp: set_inv_def)

text \<open>Putting drops back settles them again, which changes nothing.\<close>

lemma fold_appendDrop_settled:
  "\<lbrakk>settled_inv (tr_settled r); \<forall>d\<in>set ds. sd_EndGroup d \<le> MaxGroupSequence \<and> {sd_StartGroup d..sd_EndGroup d} \<subseteq> members (tr_settled r)\<rbrakk> \<Longrightarrow>
   tr_settled (fold appendDrop ds r) = tr_settled r \<and> ss_drops (tr_sub (fold appendDrop ds r)) = ss_drops (tr_sub r) @ ds"
proof (induction ds arbitrary: r)
  case (Cons d ds)
  have "tr_settled (appendDrop d r) = tr_settled r"
    using settled_add_again [OF Cons.prems(1)] Cons.prems(2) by simp
  with Cons.IH [of "appendDrop d r"] Cons.prems show ?case by (simp add: substr_appendDrop_def)
qed simp

lemma set_inv_run: "rd_run evs ok r \<Longrightarrow> set_inv evs ok r"
proof (induction rule: rd_run.induct)
  case (start sid stream config)
  then show ?case
    by (simp add: set_inv_def new_reader_def newTrackReader_def newSendSubscribeStream_def settled_inv_def)
next
  case (queued evs ok r seq ctxDone st)
  then show ?case
    by (intro set_inv_add [OF queued.IH, of seq _ seq _ "\<lparr>sd_StartGroup = seq, sd_EndGroup = seq, sd_ErrorCode = 0\<rparr>"])
      (auto simp: enqueueGroup_def)
next
  case (late evs ok r ctxDone seq st)
  then show ?case by (intro set_inv_same [OF late.IH]) (auto simp: enqueueGroup_def split: option.split)
next
  case (dropped evs ok r m)
  then show ?case
    by (intro set_inv_add [OF dropped.IH, of "sdm_GroupEnd m" _ "sdm_GroupStart m" _ "dropFromMessage m"])
      (auto simp: dropFromMessage_def substr_appendDrop_def)
next
  case (answered evs ok r resp)
  then show ?case
    by (intro set_inv_same [OF answered.IH])
      (cases resp; auto simp: on_sub_def setResolvedStart_def setEnd_def)+
next
  case (accept evs ok r now grace cause a r')
  from accept.hyps(2) show ?case
    by (cases rule: accept_turn_cases) (auto intro!: set_inv_same [OF accept.IH] split: accepted.split)
next
  case (accept_drop evs ok r d r')
  show ?case
  proof (cases "ss_drops (tr_sub r)")
    case Nil
    then show ?thesis using accept_drop
      by (intro set_inv_same [OF accept_drop.IH]) (auto simp: accept_drop_turn_def pendingDrops_def)
  next
    case (Cons d0 ds)
    then have r': "r' = fold appendDrop ds (r\<lparr>tr_sub := (tr_sub r)\<lparr>ss_drops := []\<rparr>\<rparr>)"
      using accept_drop.hyps(2) by (simp add: accept_drop_turn_def pendingDrops_def)
    show ?thesis unfolding r'
      using fold_appendDrop_settled [of "r\<lparr>tr_sub := (tr_sub r)\<lparr>ss_drops := []\<rparr>\<rparr>" ds] accept_drop.IH Cons
      by (intro set_inv_same [OF accept_drop.IH]) (auto simp: set_inv_def)
  qed
next
  case (update evs ok r T newConfig e r')
  then show ?case
    by (intro set_inv_same [OF update.IH])
      (auto simp: TrackReader_Update_def updateSubscribe_def ss_closeWithError_def split: option.splits prod.splits)
next
  case (close evs ok r T e r')
  then show ?case
    by (intro set_inv_same [OF close.IH])
      (auto simp: TrackReader_Close_def cancel_queued_def ss_close_def Stream_Close_def Let_def)
qed (auto intro!: set_inv_same simp: on_sub_def TrackReader_CloseWithError_def cancel_queued_def ss_closeWithError_def)

text \<open>Once io.EOF was returned, it stays.\<close>

lemma eof_run: "rd_run evs ok r \<Longrightarrow> EvEOF \<in> set evs \<Longrightarrow> tr_eof r"
proof (induction rule: rd_run.induct)
  case (accept evs ok r now grace cause a r')
  from accept.hyps(2) accept.IH accept.prems show ?case
    by (cases rule: accept_turn_cases) (auto split: accepted.splits)
next
  case (accept_drop evs ok r d r')
  then show ?case using accept_drop_keeps by auto
qed (auto simp: enqueueGroup_def handle_keeps on_sub_def TrackReader_Update_def TrackReader_Close_def cancel_queued_def
    TrackReader_CloseWithError_def Let_def split: option.splits prod.splits)

lemma no_eof_run: "rd_run evs ok r \<Longrightarrow> EvEOF \<notin> set evs \<Longrightarrow> \<not> tr_eof r"
proof (induction rule: rd_run.induct)
  case (start sid stream config)
  then show ?case by (simp add: new_reader_def newTrackReader_def)
next
  case (accept evs ok r now grace cause a r')
  from accept.hyps(2) accept.IH accept.prems show ?case
    by (cases rule: accept_turn_cases) (auto split: accepted.splits)
next
  case (accept_drop evs ok r d r')
  then show ?case using accept_drop_keeps by auto
qed (auto simp: enqueueGroup_def handle_keeps on_sub_def TrackReader_Update_def TrackReader_Close_def cancel_queued_def
    TrackReader_CloseWithError_def Let_def split: option.splits prod.splits)

text \<open>The application gets the groups in the order in which they arrived, each once: what
  AcceptGroup has returned is a prefix of what was queued, and the rest waits in the queue in that
  order, until Close, which cancels it.\<close>
lemma groups_accepted_in_order:
  assumes "rd_run evs ok r"
  shows "\<exists>rest. all_queued evs = all_accepted evs @ rest \<and>
    (tr_queueing r = Some rest \<or>
     tr_queueing r = None \<and> (\<forall>(seq, st)\<in>set rest. st \<in> fst ` set (tr_cancelled r)))"
  using queue_inv_run [OF assms] by (auto simp: queue_inv_def split: option.splits)

text \<open>io.EOF is final: once AcceptGroup has returned it, it returns it on every later call, whatever
  happens, and a group that arrives later is cancelled and never queued.\<close>
lemma eof_is_final:
  assumes "rd_run evs ok r" "EvEOF \<in> set evs"
  shows "accept_turn now grace cause r = (AcceptEOF, r) \<and>
    enqueueGroup ctxDone seq st r = r\<lparr>tr_cancelled := tr_cancelled r @ [(st, SubscribeCanceledErrorCode)]\<rparr>"
proof -
  have "tr_eof r" using eof_run [OF assms] .
  moreover have "tr_queueing r \<in> {None, Some []}"
    using queue_inv_run [OF assms(1)] calculation by (simp add: queue_inv_def)
  ultimately show ?thesis by (auto simp: accept_turn_def enqueueGroup_def)
qed

text \<open>C15 AcceptGroup does not hang at the end of a track: when SUBSCRIBE_END has arrived, nothing is
  queued and every group from the start to the end was received or dropped, it returns io.EOF,
  however many groups came and in whatever order.\<close>
theorem eof_when_complete:
  assumes "rd_run evs ok r" "ss_ended (tr_sub r)" "tr_queueing r = Some []"
    "ss_resolvedStart (tr_sub r) \<le> ss_endGroup (tr_sub r)"
    "{ss_resolvedStart (tr_sub r)..ss_endGroup (tr_sub r)} \<subseteq> all_settled evs"
  shows "fst (accept_turn now grace cause r) = AcceptEOF"
proof -
  have s: "settled_inv (tr_settled r)" "all_settled evs \<subseteq> members (tr_settled r)"
    using set_inv_run [OF assms(1)] by (simp_all add: set_inv_def)
  then have "settled_covers (tr_settled r) (ss_resolvedStart (tr_sub r)) (ss_endGroup (tr_sub r))"
    using settled.covers_iff [OF s(1) assms(4)] assms(5) by blast
  then show ?thesis using assms(2,3) by (simp add: accept_turn_def)
qed


section \<open>Examples\<close>

text \<open>A track of one group: SUBSCRIBE_OK, the group's stream, SUBSCRIBE_END, and two AcceptGroup.\<close>

definition reader1 :: TrackReader where
  "reader1 = enqueueGroup False 1 7 (handled (RespOk \<lparr>som_Group = 1\<rparr>) (new_reader 3 [] None))"

definition reader2 :: TrackReader where
  "reader2 = snd (accept_turn 0 0 None (handled (RespEnd \<lparr>sem_Group = 1\<rparr>) reader1))"

definition reader3 :: TrackReader where
  "reader3 = snd (accept_turn 0 0 None reader2)"

lemma example_turns:
  "accept_turn 0 0 None (handled (RespEnd \<lparr>sem_Group = 1\<rparr>) reader1) = (AcceptedGroup 1 7, reader2)"
  "accept_turn 0 0 None reader2 = (AcceptEOF, reader3)"
proof -
  have "fst (accept_turn 0 0 None (handled (RespEnd \<lparr>sem_Group = 1\<rparr>) reader1)) = AcceptedGroup 1 7"
    "fst (accept_turn 0 0 None reader2) = AcceptEOF"
    by code_simp+
  then show "accept_turn 0 0 None (handled (RespEnd \<lparr>sem_Group = 1\<rparr>) reader1) = (AcceptedGroup 1 7, reader2)"
    "accept_turn 0 0 None reader2 = (AcceptEOF, reader3)"
    by (simp_all add: prod_eq_iff reader2_def reader3_def)
qed

lemma example_runs:
  "rd_run [EvOther, EvQueued 1 7, EvOther, EvAccepted 1 7] True reader2"
  "rd_run [EvOther, EvQueued 1 7, EvOther, EvAccepted 1 7, EvEOF] True reader3"
proof -
  let ?r0 = "new_reader 3 [] None" let ?ok = "handled (RespOk \<lparr>som_Group = 1\<rparr>) (new_reader 3 [] None)"
  have r1: "rd_run [EvOther] True ?ok"
    using rd_run.answered [OF rd_run.start [of 3 "[]" None], of "RespOk \<lparr>som_Group = 1\<rparr>"] by simp
  have "tr_queueing ?ok \<noteq> None" "\<not> tr_eof ?ok" "below_bound ?ok"
    by (simp_all add: on_sub_def new_reader_def newTrackReader_def below_bound_def maxSettledRanges_def)
  then have "rd_run [EvOther, EvQueued 1 7] True reader1"
    using rd_run.queued [OF r1, of 1 False 7] by (simp add: reader1_def sequence_defs word_le_def)
  from rd_run.answered [OF this, of "RespEnd \<lparr>sem_Group = 1\<rparr>"]
  have "rd_run [EvOther, EvQueued 1 7, EvOther] True (handled (RespEnd \<lparr>sem_Group = 1\<rparr>) reader1)" by simp
  from rd_run.accept [OF this example_turns(1)]
  show r2: "rd_run [EvOther, EvQueued 1 7, EvOther, EvAccepted 1 7] True reader2" by simp
  from rd_run.accept [OF r2 example_turns(2)]
  show "rd_run [EvOther, EvQueued 1 7, EvOther, EvAccepted 1 7, EvEOF] True reader3" by simp
qed

lemma eof_when_complete_witness: "fst (accept_turn 3 0 None reader2) = AcceptEOF"
proof (rule eof_when_complete [OF example_runs(1)])
  show "ss_ended (tr_sub reader2)" "tr_queueing reader2 = Some []"
    "ss_resolvedStart (tr_sub reader2) \<le> ss_endGroup (tr_sub reader2)"
    by code_simp+
  have "ss_resolvedStart (tr_sub reader2) = 1" "ss_endGroup (tr_sub reader2) = 1" by code_simp+
  then show "{ss_resolvedStart (tr_sub reader2)..ss_endGroup (tr_sub reader2)}
      \<subseteq> all_settled [EvOther, EvQueued 1 7, EvOther, EvAccepted 1 7]"
    by (simp add: all_settled_def)
qed



text \<open>
  A track whose first group is 0, which OpenGroupAt takes: its SUBSCRIBE_OK names 0, which AcceptGroup
  reads as no SUBSCRIBE_OK at all, so that it ends the track though groups are still owed.
\<close>

definition zero_track :: TrackWriter where
  "zero_track = snd (the (TrackWriter_Close plain_transport plain_transport
     (snd (the (OpenGroup plain_transport None plain_transport
       (snd (the (OpenGroupAt plain_transport None plain_transport 0 new_track))))))))"

lemma zero_start_ends_early:
  "map fst (tw_groups zero_track) = [0, 1] \<and>
   (case answered_reader plain_transport 9 (written (rs_stream (tw_sub zero_track))) (new_reader 3 [] None) of
      (res, r) \<Rightarrow> res = Subscribed \<and> ss_okReceived (tr_sub r) \<and> tr_settled r = [] \<and>
        fst (accept_turn 9 100 None r) = AcceptEOF)"
  by code_simp

end
