(* ===== verification/Announcements.thy ===== *)
theory Announcements
  imports Streams Authorization "HOL-Library.Multiset"
begin

text \<open>
  The lifecycle of a broadcast and how it is told to a peer: Announcement (moqt/announcement.go),
  AnnouncementWriter (moqt/announcement_writer.go) and AnnouncementReader
  (moqt/announcement_reader.go).

  An announcement is an object with identity: the writer's \<open>actives\<close> point to it and it holds the
  callbacks they registered. The model keeps the announcements in a store and names them, and the
  writer's \<open>activeAnnouncement\<close>s, by numbers; a callback is a value that says what the closure does.
  A callback runs in the goroutine of \<open>end\<close> or in one of its own and then waits for the writer's
  lock: it is first among the \<open>ag_running\<close> ones and acts in a later step of its own.
\<close>

section \<open>Announcement\<close>

text \<open>A cleared entry of \<open>afterHandlers\<close> is None; a nil slice is the empty one.\<close>

record 'h Announcement =
  an_path :: BroadcastPath
  an_hopIDs :: "uint64 list"
  an_active :: bool
  an_once :: bool
  an_afterHandlers :: "'h option list"
  an_done :: bool

text \<open>
  None is the panic. A context that is done already has its AfterFunc, the end function, run in a
  goroutine: \<open>Announcement_end\<close> follows in a step of its own.
\<close>

definition NewAnnouncement :: "bool \<Rightarrow> BroadcastPath \<Rightarrow> 'h Announcement option" where
  "NewAnnouncement ctxDone path =
     (if \<not> isValidPath path then None
      else Some \<lparr>an_path = path, an_hopIDs = [], an_active = (\<not> ctxDone), an_once = False,
                 an_afterHandlers = [], an_done = False\<rparr>)"

definition Announcement_String :: "'h Announcement \<Rightarrow> string" where
  "Announcement_String a =
     ''{'' @ '' '' @ ''announce_status: '' @ (if an_active a then ''active'' else ''ended'') @ '', '' @
     ''broadcast_path: '' @ an_path a @ '' }''"

text \<open>The callbacks that run at once (in a goroutine), and the handle of the stop function.\<close>

definition AfterFunc :: "'h \<Rightarrow> 'h Announcement \<Rightarrow> 'h list \<times> nat option \<times> 'h Announcement" where
  "AfterFunc f a =
     (if \<not> an_active a then ([f], None, a)
      else ([], Some (length (an_afterHandlers a)), a\<lparr>an_afterHandlers := an_afterHandlers a @ [Some f]\<rparr>))"

definition stop :: "nat option \<Rightarrow> 'h Announcement \<Rightarrow> bool \<times> 'h Announcement" where
  "stop handle a =
     (case handle of
        None \<Rightarrow> (False, a)
      | Some index \<Rightarrow>
          if index \<ge> length (an_afterHandlers a) then (False, a)
          else if an_afterHandlers a ! index \<noteq> None
          then (True, a\<lparr>an_afterHandlers := (an_afterHandlers a)[index := None]\<rparr>)
          else (False, a))"

text \<open>More than 128 callbacks are shared out among workers, in chunks.\<close>

definition worker_chunks :: "nat \<Rightarrow> 'h list \<Rightarrow> 'h list list" where
  "worker_chunks numCPU hs =
     (let handlerCount = length hs;
          workerCount = min numCPU handlerCount;
          chunkSize = (handlerCount + workerCount - 1) div workerCount
      in map (\<lambda>i. let start = i * chunkSize; end' = min (start + chunkSize) handlerCount
                  in if start \<ge> handlerCount then [] else take (end' - start) (drop start hs))
           [0..<workerCount])"

text \<open>Ending: the callbacks to run, one list per goroutine, and the announcement afterwards.\<close>

definition Announcement_end :: "nat \<Rightarrow> 'h Announcement \<Rightarrow> 'h list list \<times> 'h Announcement" where
  "Announcement_end numCPU a =
     (if an_once a then ([], a)
      else
        let handlers = List.map_filter id (an_afterHandlers a)
        in (if length handlers \<le> 128 then [handlers] else worker_chunks numCPU handlers,
            a\<lparr>an_active := False, an_once := True, an_afterHandlers := [], an_done := True\<rparr>))"

lemma concat_chunks: "concat (map (\<lambda>i. take c (drop (i * c) xs)) [0..<n]) = take (n * c) xs"
proof (induction n)
  case (Suc n)
  then show ?case using take_add [of "n * c" c xs] by (simp add: add.commute)
qed simp

lemma chunk_slice:
  "(if length hs \<le> s then [] else take (min (s + c) (length hs) - s) (drop s hs)) = take c (drop s hs)"
  by (cases "s + c \<le> length hs") (auto simp: min_def)

lemma worker_chunks_all:
  assumes "0 < numCPU" "hs \<noteq> []"
  shows "concat (worker_chunks numCPU hs) = hs"
proof -
  let ?n = "length hs" let ?w = "min numCPU ?n" let ?c = "(?n + ?w - 1) div ?w"
  have w: "0 < ?w" using assms by simp
  have "concat (worker_chunks numCPU hs) = concat (map (\<lambda>i. take ?c (drop (i * ?c) hs)) [0..<?w])"
    unfolding worker_chunks_def Let_def chunk_slice ..
  also have "\<dots> = take (?w * ?c) hs" by (rule concat_chunks)
  also have "?n \<le> ?w * ?c"
    using w dividend_less_times_div [of ?w "?n + ?w - 1"] by linarith
  then have "take (?w * ?c) hs = hs" by simp
  finally show ?thesis .
qed

lemma end_runs_all:
  assumes "0 < numCPU" "\<not> an_once a"
  shows "concat (fst (Announcement_end numCPU a)) = List.map_filter id (an_afterHandlers a)"
proof (cases "length (List.map_filter id (an_afterHandlers a)) \<le> 128")
  case True
  then show ?thesis using assms(2) by (simp add: Announcement_end_def)
next
  case False
  then have "List.map_filter id (an_afterHandlers a) \<noteq> []" by (cases "List.map_filter id (an_afterHandlers a)") auto
  from worker_chunks_all [OF assms(1) this] show ?thesis using False assms(2) by (simp add: Announcement_end_def)
qed

lemma AfterFunc_simps [simp]:
  "an_path (snd (snd (AfterFunc f a))) = an_path a" "an_hopIDs (snd (snd (AfterFunc f a))) = an_hopIDs a"
  "an_active (snd (snd (AfterFunc f a))) = an_active a" "an_once (snd (snd (AfterFunc f a))) = an_once a"
  by (simp_all add: AfterFunc_def)

lemma stop_simps [simp]:
  "an_path (snd (stop h a)) = an_path a" "an_hopIDs (snd (stop h a)) = an_hopIDs a"
  "an_active (snd (stop h a)) = an_active a" "an_once (snd (stop h a)) = an_once a"
  by (simp_all add: stop_def split: option.split)

lemma end_simps [simp]:
  "an_path (snd (Announcement_end n a)) = an_path a" "an_hopIDs (snd (Announcement_end n a)) = an_hopIDs a"
  "an_once (snd (Announcement_end n a))"
  by (simp_all add: Announcement_end_def Let_def)

section \<open>What becomes of the callbacks\<close>

text \<open>
  The life of one announcement, told by its callers: \<open>ta_registered\<close> are the callbacks given to
  AfterFunc with the handles of their stop functions, \<open>ta_ran\<close> the ones that were started and
  \<open>ta_stopped\<close> the ones whose stop function returned true.
\<close>

datatype 'h ann_event = Register 'h | Stop nat | End

record 'h tally =
  ta_ann :: "'h Announcement"
  ta_registered :: "('h \<times> nat option) list"
  ta_ran :: "'h list"
  ta_stopped :: "'h list"

definition new_tally :: "'h Announcement \<Rightarrow> 'h tally" where
  "new_tally a = \<lparr>ta_ann = a, ta_registered = [], ta_ran = [], ta_stopped = []\<rparr>"

fun tally_step :: "nat \<Rightarrow> 'h ann_event \<Rightarrow> 'h tally \<Rightarrow> 'h tally" where
  "tally_step n (Register f) t =
     (case AfterFunc f (ta_ann t) of (now, handle, a) \<Rightarrow>
        t\<lparr>ta_ann := a, ta_registered := ta_registered t @ [(f, handle)], ta_ran := ta_ran t @ now\<rparr>)"
| "tally_step n (Stop i) t =
     (if i \<ge> length (ta_registered t) then t
      else case ta_registered t ! i of (f, handle) \<Rightarrow>
        (case stop handle (ta_ann t) of (ok, a) \<Rightarrow>
           t\<lparr>ta_ann := a, ta_stopped := ta_stopped t @ (if ok then [f] else [])\<rparr>))"
| "tally_step n End t =
     (case Announcement_end n (ta_ann t) of (runs, a) \<Rightarrow>
        t\<lparr>ta_ann := a, ta_ran := ta_ran t @ concat runs\<rparr>)"

definition pending :: "'h Announcement \<Rightarrow> 'h list" where
  "pending a = List.map_filter id (an_afterHandlers a)"

definition tally_inv :: "'h tally \<Rightarrow> bool" where
  "tally_inv t \<longleftrightarrow>
     mset (map fst (ta_registered t)) = mset (ta_ran t) + mset (ta_stopped t) + mset (pending (ta_ann t)) \<and>
     (\<not> an_active (ta_ann t) \<longrightarrow> an_afterHandlers (ta_ann t) = []) \<and>
     (an_once (ta_ann t) \<longrightarrow> \<not> an_active (ta_ann t)) \<and>
     (\<forall>(f, handle) \<in> set (ta_registered t). \<forall>i. handle = Some i \<longrightarrow> an_active (ta_ann t) \<longrightarrow>
        i < length (an_afterHandlers (ta_ann t)) \<and>
        (\<forall>g. an_afterHandlers (ta_ann t) ! i = Some g \<longrightarrow> g = f))"

lemma map_filter_append: "List.map_filter f (xs @ ys) = List.map_filter f xs @ List.map_filter f ys"
  by (simp add: List.map_filter_def)

lemma pending_update:
  "\<lbrakk>i < length hs; hs ! i = Some f\<rbrakk> \<Longrightarrow>
   mset (List.map_filter id hs) = add_mset f (mset (List.map_filter id (hs[i := None])))"
proof (induction hs arbitrary: i)
  case (Cons h hs)
  show ?case
  proof (cases i)
    case 0
    then show ?thesis using Cons.prems by (simp add: map_filter_simps)
  next
    case (Suc j)
    then show ?thesis using Cons.prems Cons.IH [of j] by (simp add: map_filter_simps split: option.split)
  qed
qed simp

lemma tally_register:
  assumes "tally_inv t" shows "tally_inv (tally_step n (Register f) t)"
proof (cases "an_active (ta_ann t)")
  case True
  then show ?thesis using assms
    by (auto simp: tally_inv_def AfterFunc_def pending_def map_filter_append map_filter_simps nth_append)
next
  case False
  then show ?thesis using assms by (auto simp: tally_inv_def AfterFunc_def)
qed

lemma tally_stop:
  assumes "tally_inv t" shows "tally_inv (tally_step n (Stop j) t)"
proof (cases "j < length (ta_registered t)")
  case True
  obtain f handle where f: "ta_registered t ! j = (f, handle)" by (cases "ta_registered t ! j")
  then have m: "(f, handle) \<in> set (ta_registered t)" using True nth_mem [of j "ta_registered t"] by simp
  show ?thesis
  proof (cases "fst (stop handle (ta_ann t))")
    case False
    then have "stop handle (ta_ann t) = (False, ta_ann t)" by (auto simp: stop_def split: option.splits if_splits)
    then show ?thesis using assms True f by simp
  next
    case s: True
    then obtain i g where i: "handle = Some i" "i < length (an_afterHandlers (ta_ann t))"
        "an_afterHandlers (ta_ann t) ! i = Some g"
      by (auto simp: stop_def split: option.splits if_splits)
    then have "an_active (ta_ann t)" using assms by (auto simp: tally_inv_def)
    with i m assms have "g = f" by (fastforce simp: tally_inv_def)
    let ?a = "(ta_ann t)\<lparr>an_afterHandlers := (an_afterHandlers (ta_ann t))[i := None]\<rparr>"
    have "stop handle (ta_ann t) = (True, ?a)" using i by (simp add: stop_def)
    moreover have "mset (pending (ta_ann t)) = add_mset f (mset (pending ?a))"
      using pending_update [of i "an_afterHandlers (ta_ann t)" f] i \<open>g = f\<close> by (simp add: pending_def)
    moreover have "an_afterHandlers ?a ! k = Some g' \<Longrightarrow> an_afterHandlers (ta_ann t) ! k = Some g'" for k g'
      using i(2) by (auto simp: nth_list_update split: if_splits)
    ultimately show ?thesis using assms True f by (fastforce simp: tally_inv_def)
  qed
qed (use assms in simp)

lemma tally_end:
  assumes "tally_inv t" "0 < n" shows "tally_inv (tally_step n End t)"
proof (cases "an_once (ta_ann t)")
  case True
  then show ?thesis using assms by (simp add: Announcement_end_def)
next
  case False
  obtain runs a where e: "Announcement_end n (ta_ann t) = (runs, a)" by fastforce
  then have "concat runs = pending (ta_ann t)" using end_runs_all [OF assms(2) False] by (simp add: pending_def)
  moreover have "\<not> an_active a" "an_once a" "an_afterHandlers a = []" "pending a = []"
    using e False by (auto simp: Announcement_end_def Let_def pending_def map_filter_simps)
  ultimately show ?thesis using assms(1) e by (auto simp: tally_inv_def)
qed

lemma tally_step_inv: "\<lbrakk>0 < n; tally_inv t\<rbrakk> \<Longrightarrow> tally_inv (tally_step n e t)"
  by (cases e) (simp_all only: tally_register tally_stop tally_end)

lemma tally_run:
  assumes "0 < n" "tally_inv t" shows "tally_inv (fold (tally_step n) es t)"
  using assms(2)
proof (induction es arbitrary: t)
  case (Cons e es)
  then have "tally_inv (tally_step n e t)" using tally_step_inv [OF assms(1)] by blast
  then show ?case using Cons.IH by simp
qed simp

lemma tally_ended: "an_once (ta_ann t) \<Longrightarrow> an_once (ta_ann (tally_step n e t))"
  by (cases e) (auto split: prod.splits dest: arg_cong [where f = snd]
      simp: AfterFunc_def stop_def Announcement_end_def split: option.splits if_splits)

lemma tally_once:
  "End \<in> set es \<or> an_once (ta_ann t) \<Longrightarrow> an_once (ta_ann (fold (tally_step n) es t))"
proof (induction es arbitrary: t)
  case (Cons e es)
  have "an_once (ta_ann (tally_step n End t))"
    using end_simps(3) [of n "ta_ann t"] by (simp add: split_beta del: end_simps(3))
  then have "End \<in> set es \<or> an_once (ta_ann (tally_step n e t))"
    using Cons.prems tally_ended [of t n e] by auto
  then show ?case using Cons.IH by simp
qed simp

text \<open>C26 However AfterFunc, the stop functions and the end of an announcement follow each other, each
  registration ends in exactly one way: its callback is started once, or its stop function returned
  true once and the callback is never started, or it still waits for an announcement that has not
  ended. The sharing out among workers beyond 128 callbacks loses and repeats none.\<close>
theorem callbacks_once:
  assumes "NewAnnouncement ctxDone path = Some a" "0 < numCPU"
    "t = fold (tally_step numCPU) es (new_tally a)"
  shows "mset (map fst (ta_registered t)) = mset (ta_ran t) + mset (ta_stopped t) + mset (pending (ta_ann t)) \<and>
    (End \<in> set es \<longrightarrow> pending (ta_ann t) = [] \<and> \<not> an_active (ta_ann t))"
proof -
  have "tally_inv (new_tally a)"
    using assms(1) by (auto simp: NewAnnouncement_def tally_inv_def new_tally_def pending_def map_filter_simps split: if_splits)
  then have t: "tally_inv t" using tally_run [OF assms(2)] assms(3) by simp
  moreover have "an_once (ta_ann t)" if "End \<in> set es" using tally_once [of es] that assms(3) by simp
  ultimately show ?thesis by (auto simp: tally_inv_def pending_def map_filter_simps)
qed

lemma callbacks_once_witness:
  "\<exists>a t. NewAnnouncement False ''/a'' = Some a \<and>
     t = fold (tally_step 4) [Register CHR ''x'', Register CHR ''y'', Stop 0, End, Register CHR ''z'', Stop 1] (new_tally a) \<and>
     ta_ran t = ''yz'' \<and> ta_stopped t = ''x'' \<and>
     mset (map fst (ta_registered t)) = mset (ta_ran t) + mset (ta_stopped t) + mset (pending (ta_ann t))"
proof -
  define a :: "char Announcement" where "a = the (NewAnnouncement False ''/a'')"
  have a: "NewAnnouncement False ''/a'' = Some a" by (simp add: a_def NewAnnouncement_def isValidPath_def)
  define t where "t = fold (tally_step 4) [Register CHR ''x'', Register CHR ''y'', Stop 0, End, Register CHR ''z'', Stop 1] (new_tally a)"
  have "ta_ran t = ''yz'' \<and> ta_stopped t = ''x''" unfolding t_def a_def by code_simp
  moreover have "mset (map fst (ta_registered t)) = mset (ta_ran t) + mset (ta_stopped t) + mset (pending (ta_ann t))"
    by (rule conjunct1 [OF callbacks_once [OF a _ t_def]]) simp
  ultimately show ?thesis using a t_def by blast
qed

section \<open>AnnouncementWriter\<close>

type_synonym suffix = string

text \<open>
  \<open>activeAnnouncement\<close>: an object the end handlers compare by identity, \<open>ac_id\<close>. A nil stop is
  None; the handle of a stop function is itself None when the announcement had ended already.
\<close>

record activeAnnouncement =
  ac_id :: nat
  ac_announcement :: nat
  ac_stop :: "nat option option"

datatype callback =
    RemoveActive suffix nat \<comment> \<open>what registerEndHandlerLocked registers\<close>
  | OtherCallback nat \<comment> \<open>somebody else's\<close>

datatype announce_failure =
    AnnounceError code \<comment> \<open>AnnounceError, around a StreamError\<close>
  | AnnounceTransport transport_error
  | AnnounceCause transport_error
  | AnnouncementWriterClosed
  | BroadcastPathInvalidPrefix

record AnnouncementWriter =
  anw_prefix :: string
  anw_stream :: stream_log
  anw_localHopID :: uint64
  anw_excludeHop :: uint64
  anw_actives :: "(suffix \<times> activeAnnouncement) list"
  anw_closed :: bool
  anw_initStarted :: bool \<comment> \<open>initOnce\<close>
  anw_initDone :: bool
  anw_initErr :: "announce_failure option"

text \<open>
  The writer among the announcements. \<open>ag_next\<close> is the next free identity, \<open>ag_running\<close> the
  callbacks that were started and wait for the lock, \<open>ag_todo\<close> the actives the loop of init has
  still to send, \<open>ag_sending\<close> the calls of SendAnnouncement on their way, with the active
  announcement of the same suffix that they have still to end.
  \<open>ag_over\<close> records that an ENDED was left out because the stream's context was done.
\<close>

record announcing =
  ag_anns :: "nat \<Rightarrow> callback Announcement"
  ag_writer :: AnnouncementWriter
  ag_next :: nat
  ag_running :: "callback list"
  ag_todo :: "(suffix \<times> nat) list"
  ag_sending :: "(suffix \<times> nat \<times> activeAnnouncement option) list"
  ag_over :: bool

text \<open>None is the panic.\<close>

definition newAnnouncementWriter :: "string \<Rightarrow> uint64 \<Rightarrow> uint64 \<Rightarrow> AnnouncementWriter option" where
  "newAnnouncementWriter pfx localHopID excludeHop =
     (if \<not> isValidPrefix pfx then None
      else Some \<lparr>anw_prefix = pfx, anw_stream = [], anw_localHopID = localHopID, anw_excludeHop = excludeHop,
                 anw_actives = [], anw_closed = False, anw_initStarted = False, anw_initDone = False,
                 anw_initErr = None\<rparr>)"

definition shouldExclude :: "AnnouncementWriter \<Rightarrow> 'h Announcement \<Rightarrow> bool" where
  "shouldExclude aw ann =
     (if anw_excludeHop aw = 0 then False
      else if anw_excludeHop aw = anw_localHopID aw then True
      else anw_excludeHop aw \<in> set (an_hopIDs ann))"

definition buildHopIDs :: "'h Announcement \<Rightarrow> uint64 list" where
  "buildHopIDs ann = an_hopIDs ann"

definition announce_failure_of :: "transport_error \<Rightarrow> announce_failure" where
  "announce_failure_of e = (case e of StreamErr c \<Rightarrow> AnnounceError c | _ \<Rightarrow> AnnounceTransport e)"

definition set_ann :: "nat \<Rightarrow> callback Announcement \<Rightarrow> announcing \<Rightarrow> announcing" where
  "set_ann a ann s = s\<lparr>ag_anns := (ag_anns s)(a := ann)\<rparr>"

definition on_writer :: "(AnnouncementWriter \<Rightarrow> AnnouncementWriter) \<Rightarrow> announcing \<Rightarrow> announcing" where
  "on_writer f s = s\<lparr>ag_writer := f (ag_writer s)\<rparr>"

text \<open>Encode of an ANNOUNCE_BROADCAST on the stream: the error of the write; None when it panics.\<close>

definition send_broadcast ::
    "transport \<Rightarrow> AnnounceBroadcastMessage \<Rightarrow> announcing \<Rightarrow> (transport_error option \<times> announcing) option" where
  "send_broadcast T m s =
     do { b \<leftarrow> AnnounceBroadcast_Encode m;
          let (e, log) = Stream_Write T b (anw_stream (ag_writer s));
          Some (e, on_writer (\<lambda>w. w\<lparr>anw_stream := log\<rparr>) s) }"

definition sendEndedLocked :: "transport \<Rightarrow> suffix \<Rightarrow> announcing \<Rightarrow> announcing option" where
  "sendEndedLocked T sfx s =
     (if t_done T (anw_stream (ag_writer s)) \<noteq> None then Some (s\<lparr>ag_over := True\<rparr>)
      else map_option snd
             (send_broadcast T \<lparr>am_AnnounceStatus = ENDED, am_BroadcastPathSuffix = sfx, am_HopIDs = []\<rparr> s))"

text \<open>\<open>remove\<close>: the callback, given the identity of the activeAnnouncement it was registered for.\<close>

definition remove_active :: "transport \<Rightarrow> suffix \<Rightarrow> nat \<Rightarrow> announcing \<Rightarrow> announcing option" where
  "remove_active T sfx active s =
     (if map_option ac_id (map_of (anw_actives (ag_writer s)) sfx) = Some active
      then sendEndedLocked T sfx (on_writer (\<lambda>w. w\<lparr>anw_actives := AList.delete sfx (anw_actives w)\<rparr>) s)
      else Some s)"

definition registerEndHandlerLocked :: "suffix \<Rightarrow> nat \<Rightarrow> announcing \<Rightarrow> announcing" where
  "registerEndHandlerLocked sfx ann s =
     (case map_of (anw_actives (ag_writer s)) sfx of
        None \<Rightarrow> s
      | Some active \<Rightarrow>
          if ac_announcement active \<noteq> ann then s
          else
            (case AfterFunc (RemoveActive sfx (ac_id active)) (ag_anns s ann) of (now, handle, a) \<Rightarrow>
               on_writer (\<lambda>w. w\<lparr>anw_actives := AList.update sfx (active\<lparr>ac_stop := Some handle\<rparr>) (anw_actives w)\<rparr>)
                 (set_ann ann a s\<lparr>ag_running := ag_running s @ now\<rparr>)))"

definition end_active :: "transport \<Rightarrow> suffix \<Rightarrow> activeAnnouncement \<Rightarrow> announcing \<Rightarrow> announcing option" where
  "end_active T sfx active s =
     (case ac_stop active of
        None \<Rightarrow> Some s
      | Some handle \<Rightarrow>
          (case stop handle (ag_anns s (ac_announcement active)) of (ok, a) \<Rightarrow>
             let s = set_ann (ac_announcement active) a s
             in if \<not> ok then Some s else remove_active T sfx (ac_id active) s))"

text \<open>The loop of init over the announcements; \<open>next\<close> is a free identity.\<close>

fun collect_actives :: "AnnouncementWriter \<Rightarrow> (nat \<Rightarrow> callback Announcement) \<Rightarrow> nat list \<Rightarrow>
    (suffix \<times> activeAnnouncement) list \<Rightarrow> nat \<Rightarrow> (suffix \<times> activeAnnouncement) list \<times> nat" where
  "collect_actives aw anns [] actives free = (actives, free)"
| "collect_actives aw anns (a # as) actives free =
     (let ann = anns a in
      if \<not> an_active ann then collect_actives aw anns as actives free
      else case GetSuffix (an_path ann) (anw_prefix aw) of
             (_, False) \<Rightarrow> collect_actives aw anns as actives free
           | (sfx, True) \<Rightarrow>
               if shouldExclude aw ann then collect_actives aw anns as actives free
               else collect_actives aw anns as
                      (AList.update sfx \<lparr>ac_id = free, ac_announcement = a, ac_stop = None\<rparr> actives) (Suc free))"

definition init_failed :: "announce_failure \<Rightarrow> announcing \<Rightarrow> announcing" where
  "init_failed e = on_writer (\<lambda>w. w\<lparr>anw_initErr := Some e, anw_initDone := True\<rparr>)"

text \<open>
  \<open>init\<close> up to the end of ANNOUNCE_OK. The announcements come in the order the range over the map
  picks. The length of the actives is far below \<open>2 ^ 64\<close>.
\<close>

definition init_begin :: "transport \<Rightarrow> nat list \<Rightarrow> announcing \<Rightarrow> announcing option" where
  "init_begin T announcements s =
     (let w = ag_writer s; s = on_writer (\<lambda>w. w\<lparr>anw_initStarted := True\<rparr>) s in
      if anw_initStarted w then Some s
      else case t_done T (anw_stream w) of
        Some e \<Rightarrow> Some (init_failed (AnnounceCause e) s)
      | None \<Rightarrow>
          (case collect_actives w (ag_anns s) announcements [] (ag_next s) of (actives, free) \<Rightarrow>
             if anw_closed w then Some (init_failed AnnouncementWriterClosed s)
             else
               do { b \<leftarrow> AnnounceOk_Encode \<lparr>aom_HopID = anw_localHopID w, aom_ActiveCount = of_nat (length actives)\<rparr>;
                    let (e, log) = Stream_Write T b (anw_stream w);
                    let s = on_writer (\<lambda>w. w\<lparr>anw_actives := actives, anw_stream := log\<rparr>) (s\<lparr>ag_next := free\<rparr>);
                    case e of
                      Some e \<Rightarrow> Some (init_failed (announce_failure_of e) s)
                    | None \<Rightarrow>
                        let todo = map (\<lambda>(sfx, ac). (sfx, ac_announcement ac)) actives
                        in Some (on_writer (\<lambda>w. w\<lparr>anw_initDone := (todo = [])\<rparr>) (s\<lparr>ag_todo := todo\<rparr>)) }))"

text \<open>One round of the loop that sends the actives; the deferred close of \<open>initDone\<close> ends the last.\<close>

definition init_next :: "transport \<Rightarrow> announcing \<Rightarrow> announcing option" where
  "init_next T s =
     (case ag_todo s of
        [] \<Rightarrow> Some s
      | (sfx, ann) # rest \<Rightarrow>
          do { (e, s) \<leftarrow> send_broadcast T \<lparr>am_AnnounceStatus = ACTIVE, am_BroadcastPathSuffix = sfx,
                                        am_HopIDs = buildHopIDs (ag_anns s ann)\<rparr> s;
               case e of
                 Some e \<Rightarrow> Some (init_failed (announce_failure_of e) (s\<lparr>ag_todo := []\<rparr>))
               | None \<Rightarrow>
                   Some (on_writer (\<lambda>w. w\<lparr>anw_initDone := (rest = [])\<rparr>)
                           (registerEndHandlerLocked sfx ann (s\<lparr>ag_todo := rest\<rparr>))) })"

text \<open>
  \<open>SendAnnouncement\<close> up to where it gives back the lock: it returns, or goes on with the suffix and
  the announcement to end first. It is called once initDone is closed.
\<close>

definition send_begin ::
    "nat \<Rightarrow> announcing \<Rightarrow> announce_failure option + suffix \<times> activeAnnouncement option" where
  "send_begin a s =
     (let w = ag_writer s; ann = ag_anns s a in
      case anw_initErr w of
        Some e \<Rightarrow> Inl (Some e)
      | None \<Rightarrow>
          if \<not> an_active ann then Inl None
          else if shouldExclude w ann then Inl None
          else case GetSuffix (an_path ann) (anw_prefix w) of
                 (_, False) \<Rightarrow> Inl (Some BroadcastPathInvalidPrefix)
               | (sfx, True) \<Rightarrow>
                   (case map_of (anw_actives w) sfx of
                      None \<Rightarrow> Inr (sfx, None)
                    | Some active \<Rightarrow>
                        if ac_announcement active = a then Inl None else Inr (sfx, Some active)))"

definition end_old :: "transport \<Rightarrow> suffix \<Rightarrow> activeAnnouncement option \<Rightarrow> announcing \<Rightarrow> announcing option" where
  "end_old T sfx old s = (case old of None \<Rightarrow> Some s | Some active \<Rightarrow> end_active T sfx active s)"

definition send_finish ::
    "transport \<Rightarrow> suffix \<Rightarrow> nat \<Rightarrow> announcing \<Rightarrow> (announce_failure option \<times> announcing) option" where
  "send_finish T sfx a s =
     (if anw_closed (ag_writer s) then Some (None, s)
      else
        do { (e, s) \<leftarrow> send_broadcast T \<lparr>am_AnnounceStatus = ACTIVE, am_BroadcastPathSuffix = sfx,
                                      am_HopIDs = buildHopIDs (ag_anns s a)\<rparr> s;
             case e of
               Some e \<Rightarrow> Some (Some (announce_failure_of e), s)
             | None \<Rightarrow>
                 let active = \<lparr>ac_id = ag_next s, ac_announcement = a, ac_stop = None\<rparr>;
                     s = on_writer (\<lambda>w. w\<lparr>anw_actives := AList.update sfx active (anw_actives w)\<rparr>)
                           (s\<lparr>ag_next := Suc (ag_next s)\<rparr>)
                 in Some (None, registerEndHandlerLocked sfx a s) })"

text \<open>The whole of SendAnnouncement, when nothing comes between its parts.\<close>

definition SendAnnouncement ::
    "transport \<Rightarrow> nat \<Rightarrow> announcing \<Rightarrow> (announce_failure option \<times> announcing) option" where
  "SendAnnouncement T a s =
     (if \<not> anw_initDone (ag_writer s) then
        map_option (\<lambda>e. (Some (AnnounceCause e), s)) (t_done T (anw_stream (ag_writer s)))
      else
        (case send_begin a s of
           Inl e \<Rightarrow> Some (e, s)
         | Inr (sfx, old) \<Rightarrow> do { s \<leftarrow> end_old T sfx old s; send_finish T sfx a s }))"

definition stop_actives :: "(suffix \<times> activeAnnouncement) list \<Rightarrow> announcing \<Rightarrow> announcing" where
  "stop_actives actives =
     fold (\<lambda>(_, active) s. case ac_stop active of
             None \<Rightarrow> s
           | Some handle \<Rightarrow> set_ann (ac_announcement active) (snd (stop handle (ag_anns s (ac_announcement active)))) s)
       actives"

definition stopAll :: "announcing \<Rightarrow> announcing" where
  "stopAll s =
     on_writer (\<lambda>w. w\<lparr>anw_actives := [], anw_closed := True\<rparr>) (stop_actives (anw_actives (ag_writer s)) s)"

definition AnnouncementWriter_Close :: "transport \<Rightarrow> announcing \<Rightarrow> transport_error option \<times> announcing" where
  "AnnouncementWriter_Close T s =
     (let s = stopAll s; (e, log) = Stream_Close T (anw_stream (ag_writer s))
      in (e, on_writer (\<lambda>w. w\<lparr>anw_stream := log\<rparr>) s))"

definition AnnouncementWriter_CloseWithError :: "code \<Rightarrow> announcing \<Rightarrow> announcing" where
  "AnnouncementWriter_CloseWithError code s =
     on_writer (\<lambda>w. w\<lparr>anw_stream := cancelStreamWithError code (anw_stream w)\<rparr>) (stopAll s)"

definition writer_rescope :: "transport \<Rightarrow> authScope option \<Rightarrow> announcing \<Rightarrow> announcing" where
  "writer_rescope T scope s =
     (if anw_closed (ag_writer s) \<or> t_done T (anw_stream (ag_writer s)) \<noteq> None then s
      else if \<not> canList (anw_prefix (ag_writer s)) scope
      then AnnouncementWriter_CloseWithError AnnounceErrorCodeUnauthorized s
      else s)"

text \<open>The end of an announcement starts its callbacks; each runs later.\<close>

definition end_announcement :: "nat \<Rightarrow> nat \<Rightarrow> announcing \<Rightarrow> announcing" where
  "end_announcement numCPU a s =
     (case Announcement_end numCPU (ag_anns s a) of (runs, ann) \<Rightarrow>
        set_ann a ann s\<lparr>ag_running := ag_running s @ concat runs\<rparr>)"

definition run_callback :: "transport \<Rightarrow> nat \<Rightarrow> announcing \<Rightarrow> announcing option" where
  "run_callback T i s =
     (let c = ag_running s ! i; s = s\<lparr>ag_running := take i (ag_running s) @ drop (Suc i) (ag_running s)\<rparr>
      in case c of RemoveActive sfx active \<Rightarrow> remove_active T sfx active s | OtherCallback _ \<Rightarrow> Some s)"

section \<open>AnnouncementReader\<close>

datatype reader_cause =
    ReadCause error \<comment> \<open>what a Decode failed with\<close>
  | ContextCanceled
  | StreamCause transport_error \<comment> \<open>the stream's own context\<close>

text \<open>
  \<open>ar_anns\<close> are the announcements the reader has made, named by their position; \<open>ar_calls\<close> the
  callbacks the application registered on them and that were started. \<open>ar_notify\<close> is the channel
  \<open>announcedCh\<close>: None once closed, else whether it holds its element.
\<close>

record 'h AnnouncementReader =
  ar_prefix :: string
  ar_stream :: stream_log
  ar_anns :: "'h Announcement list"
  ar_actives :: "(suffix \<times> nat) list"
  ar_pendings :: "nat list"
  ar_notify :: "bool option"
  ar_cause :: "reader_cause option"
  ar_calls :: "'h list"

definition end_reader_ann :: "nat \<Rightarrow> nat \<Rightarrow> 'h AnnouncementReader \<Rightarrow> 'h AnnouncementReader" where
  "end_reader_ann numCPU i r =
     (case Announcement_end numCPU (ar_anns r ! i) of (runs, a) \<Rightarrow>
        r\<lparr>ar_anns := (ar_anns r)[i := a], ar_calls := ar_calls r @ concat runs\<rparr>)"

text \<open>\<open>fail\<close>: the announcements are children of the reader's context, so that they all end.\<close>

definition reader_fail :: "nat \<Rightarrow> reader_cause \<Rightarrow> 'h AnnouncementReader \<Rightarrow> 'h AnnouncementReader" where
  "reader_fail numCPU cause r =
     (if ar_cause r \<noteq> None then r
      else fold (end_reader_ann numCPU) [0..<length (ar_anns r)] (r\<lparr>ar_cause := Some cause\<rparr>))"

text \<open>A new announcement under the reader's context, with its hop IDs.\<close>

definition reader_announcement ::
    "nat \<Rightarrow> suffix \<Rightarrow> uint64 list \<Rightarrow> 'h AnnouncementReader \<Rightarrow> 'h Announcement option" where
  "reader_announcement numCPU sfx hopIDs r =
     do { a \<leftarrow> NewAnnouncement (ar_cause r \<noteq> None) (ar_prefix r @ sfx);
          let a = (if ar_cause r \<noteq> None then snd (Announcement_end numCPU a) else a);
          Some (a\<lparr>an_hopIDs := hopIDs\<rparr>) }"

definition add_announcement :: "suffix \<Rightarrow> 'h Announcement \<Rightarrow> 'h AnnouncementReader \<Rightarrow> 'h AnnouncementReader" where
  "add_announcement sfx a r =
     (let i = length (ar_anns r) in
      r\<lparr>ar_anns := ar_anns r @ [a], ar_actives := AList.update sfx i (ar_actives r),
        ar_pendings := ar_pendings r @ [i]\<rparr>)"

definition activateLocked ::
    "nat \<Rightarrow> suffix \<Rightarrow> uint64 list \<Rightarrow> 'h AnnouncementReader \<Rightarrow> 'h AnnouncementReader option" where
  "activateLocked numCPU sfx hopIDs r =
     do { a \<leftarrow> reader_announcement numCPU sfx hopIDs r;
          Some ((add_announcement sfx a r)\<lparr>ar_notify := map_option (\<lambda>_. True) (ar_notify r)\<rparr>) }"

fun init_suffixes :: "nat \<Rightarrow> authScope option \<Rightarrow> suffix list \<Rightarrow> 'h AnnouncementReader \<Rightarrow> 'h AnnouncementReader option" where
  "init_suffixes numCPU scope [] r = Some r"
| "init_suffixes numCPU scope (sfx # sfxs) r =
     (if \<not> canPublish (ar_prefix r @ sfx) scope then init_suffixes numCPU scope sfxs r
      else do { a \<leftarrow> reader_announcement numCPU sfx [] r;
                init_suffixes numCPU scope sfxs (add_announcement sfx a r) })"

definition newAnnouncementReader ::
    "nat \<Rightarrow> string \<Rightarrow> suffix list \<Rightarrow> authScope option \<Rightarrow> 'h AnnouncementReader option" where
  "newAnnouncementReader numCPU pfx initSuffixes scope =
     (if \<not> isValidPrefix pfx then None
      else init_suffixes numCPU scope initSuffixes
             \<lparr>ar_prefix = pfx, ar_stream = [], ar_anns = [], ar_actives = [], ar_pendings = [],
              ar_notify = Some False, ar_cause = None, ar_calls = []\<rparr>)"

definition appendHopID :: "uint64 list \<Rightarrow> uint64 \<Rightarrow> uint64 list" where
  "appendHopID hopIDs peerHopID = (if peerHopID = 0 then hopIDs else hopIDs @ [peerHopID])"

definition AnnouncementReader_CloseWithError ::
    "nat \<Rightarrow> code \<Rightarrow> 'h AnnouncementReader \<Rightarrow> 'h AnnouncementReader" where
  "AnnouncementReader_CloseWithError numCPU code r =
     (reader_fail numCPU ContextCanceled r)
       \<lparr>ar_notify := None, ar_stream := cancelStreamWithError code (ar_stream r)\<rparr>"

definition AnnouncementReader_Close ::
    "transport \<Rightarrow> nat \<Rightarrow> 'h AnnouncementReader \<Rightarrow> transport_error option \<times> 'h AnnouncementReader" where
  "AnnouncementReader_Close T numCPU r =
     (if ar_cause r \<noteq> None then (None, r)
      else case Stream_Close T (ar_stream r) of (e, log) \<Rightarrow>
        (e, (reader_fail numCPU ContextCanceled r)\<lparr>ar_notify := None, ar_stream := log\<rparr>))"

text \<open>One message: whether the loop goes on. The suffix \<open>reader_end_active\<close> names is ended if active.\<close>

definition reader_active :: "suffix \<Rightarrow> 'h AnnouncementReader \<Rightarrow> nat option" where
  "reader_active sfx r =
     (case map_of (ar_actives r) sfx of
        Some i \<Rightarrow> if an_active (ar_anns r ! i) then Some i else None
      | None \<Rightarrow> None)"

definition handle_broadcast ::
    "nat \<Rightarrow> authScope option \<Rightarrow> uint64 \<Rightarrow> AnnounceBroadcastMessage \<Rightarrow> 'h AnnouncementReader \<Rightarrow>
     (bool \<times> 'h AnnouncementReader) option" where
  "handle_broadcast numCPU scope peerHopID am r =
     (let sfx = am_BroadcastPathSuffix am;
          old = reader_active sfx r;
          ended = (case old of Some i \<Rightarrow> end_reader_ann numCPU i r | None \<Rightarrow> r)
      in if am_AnnounceStatus am = ACTIVE then
           (if \<not> canPublish (ar_prefix r @ sfx) scope
            then Some (True, ended\<lparr>ar_actives := AList.delete sfx (ar_actives r)\<rparr>)
            else map_option (Pair True) (activateLocked numCPU sfx (appendHopID (am_HopIDs am) peerHopID) ended))
         else if am_AnnounceStatus am = ENDED then
           (if old \<noteq> None then Some (True, ended\<lparr>ar_actives := AList.delete sfx (ar_actives r)\<rparr>)
            else if scope \<noteq> None then Some (True, r)
            else Some (False, AnnouncementReader_CloseWithError numCPU AnnounceErrorCodeDuplicated r))
         else Some (False, AnnouncementReader_CloseWithError numCPU AnnounceErrorCodeInvalidStatus r))"

text \<open>The goroutine of the reader on what the stream delivers, up to the \<open>fail\<close> that ends it.\<close>

datatype loop_end = DecodeFailed error | Rejected

lemma AnnounceBroadcast_Decode_shorter:
  "AnnounceBroadcast_Decode m src = (None, m', t) \<Longrightarrow> length t < length src"
  by (auto simp: AnnounceBroadcast_Decode_def dest!: with_body_shorter)

function announce_loop ::
    "nat \<Rightarrow> authScope option \<Rightarrow> uint64 \<Rightarrow> AnnounceBroadcastMessage \<Rightarrow> bytes \<Rightarrow> 'h AnnouncementReader \<Rightarrow>
     (loop_end \<times> 'h AnnouncementReader) option" where
  "announce_loop numCPU scope peerHopID am stream r =
     (case AnnounceBroadcast_Decode am stream of
        (Some e, _, _) \<Rightarrow> Some (DecodeFailed e, r)
      | (None, am, stream') \<Rightarrow>
          (case handle_broadcast numCPU scope peerHopID am r of
             None \<Rightarrow> None
           | Some (go, r) \<Rightarrow> if go then announce_loop numCPU scope peerHopID am stream' r else Some (Rejected, r)))"
  by pat_completeness auto
termination
  by (relation "measure (\<lambda>(_, _, _, _, stream, _). length stream)")
    (auto dest: AnnounceBroadcast_Decode_shorter [OF sym])

declare announce_loop.simps [simp del]

definition zeroBroadcast :: AnnounceBroadcastMessage where
  "zeroBroadcast = \<lparr>am_AnnounceStatus = 0, am_BroadcastPathSuffix = [], am_HopIDs = []\<rparr>"

definition read_announcements ::
    "nat \<Rightarrow> authScope option \<Rightarrow> bytes \<Rightarrow> 'h AnnouncementReader \<Rightarrow> (loop_end \<times> 'h AnnouncementReader) option" where
  "read_announcements numCPU scope stream r =
     (case AnnounceOk_Decode \<lparr>aom_HopID = 0, aom_ActiveCount = 0\<rparr> stream of
        (Some e, _, _) \<Rightarrow> Some (DecodeFailed e, r)
      | (None, okMsg, stream) \<Rightarrow> announce_loop numCPU scope (aom_HopID okMsg) zeroBroadcast stream r)"

definition reader_goroutine ::
    "nat \<Rightarrow> authScope option \<Rightarrow> bytes \<Rightarrow> 'h AnnouncementReader \<Rightarrow> 'h AnnouncementReader option" where
  "reader_goroutine numCPU scope stream r =
     (case read_announcements numCPU scope stream r of
        None \<Rightarrow> None
      | Some (DecodeFailed e, r) \<Rightarrow> Some (reader_fail numCPU (ReadCause e) r)
      | Some (Rejected, r) \<Rightarrow> Some r)"

text \<open>The scope, if there is one, has changed; \<open>actives\<close> is what the range over the map visits.\<close>

definition reader_rescope :: "nat \<Rightarrow> authScope option \<Rightarrow> 'h AnnouncementReader \<Rightarrow> 'h AnnouncementReader" where
  "reader_rescope numCPU scope r =
     (if scope = None \<or> ar_cause r \<noteq> None then r
      else fold (\<lambda>(sfx, i) r.
                   if canPublish (an_path (ar_anns r ! i)) scope then r
                   else (end_reader_ann numCPU i r)\<lparr>ar_actives := AList.delete sfx (ar_actives r)\<rparr>)
             (ar_actives r) r)"

text \<open>One turn of ReceiveAnnouncement; Waits is a turn that waits for the channel or a context.\<close>

datatype received = ReceivedAnn nat | ReceiveFailed reader_cause | ReceiveWaits

definition receive_turn :: "'h AnnouncementReader \<Rightarrow> received \<times> 'h AnnouncementReader" where
  "receive_turn r =
     (case ar_pendings r of
        next # rest \<Rightarrow> (ReceivedAnn next, r\<lparr>ar_pendings := rest\<rparr>)
      | [] \<Rightarrow> (case ar_cause r of Some c \<Rightarrow> (ReceiveFailed c, r) | None \<Rightarrow> (ReceiveWaits, r)))"

section \<open>What the reader keeps\<close>

definition ended_of :: "'h Announcement \<Rightarrow> 'h Announcement \<Rightarrow> bool" where
  "ended_of a b \<longleftrightarrow> b = a \<or> \<not> an_active b \<and> an_path b = an_path a \<and> an_hopIDs b = an_hopIDs a"

text \<open>
  Every announcement that is active is the one \<open>actives\<close> has for its suffix: none is lost, so that
  the end the peer sends, and a narrower scope, reach it.
\<close>

definition reader_inv :: "'h AnnouncementReader \<Rightarrow> bool" where
  "reader_inv r \<longleftrightarrow>
     isValidPrefix (ar_prefix r) \<and> distinct (map fst (ar_actives r)) \<and>
     (\<forall>(sfx, i) \<in> set (ar_actives r). i < length (ar_anns r) \<and> an_path (ar_anns r ! i) = ar_prefix r @ sfx) \<and>
     (\<forall>i < length (ar_anns r). an_active (ar_anns r ! i) \<longrightarrow>
        \<not> an_once (ar_anns r ! i) \<and> i \<in> snd ` set (ar_actives r) \<and> ar_cause r = None)"

lemma end_inactive: "an_active a \<longrightarrow> \<not> an_once a \<Longrightarrow> \<not> an_active (snd (Announcement_end n a))"
  by (auto simp: Announcement_end_def Let_def)

lemma ended_of_end: "an_active a \<longrightarrow> \<not> an_once a \<Longrightarrow> ended_of a (snd (Announcement_end n a))"
  by (simp add: ended_of_def end_inactive)

lemma ended_of_trans: "ended_of a b \<Longrightarrow> ended_of b c \<Longrightarrow> ended_of a c"
  by (auto simp: ended_of_def)

lemma end_reader_ann_simps [simp]:
  "ar_prefix (end_reader_ann n i r) = ar_prefix r" "ar_actives (end_reader_ann n i r) = ar_actives r"
  "ar_cause (end_reader_ann n i r) = ar_cause r" "ar_pendings (end_reader_ann n i r) = ar_pendings r"
  "ar_notify (end_reader_ann n i r) = ar_notify r" "ar_stream (end_reader_ann n i r) = ar_stream r"
  "length (ar_anns (end_reader_ann n i r)) = length (ar_anns r)"
  "ar_anns (end_reader_ann n i r) = (ar_anns r)[i := snd (Announcement_end n (ar_anns r ! i))]"
  by (simp_all add: end_reader_ann_def split_beta)

text \<open>Ending some announcements keeps the rest as it was.\<close>

definition some_ended :: "nat set \<Rightarrow> 'h AnnouncementReader \<Rightarrow> 'h AnnouncementReader \<Rightarrow> bool" where
  "some_ended I r r' \<longleftrightarrow> length (ar_anns r') = length (ar_anns r) \<and>
     (\<forall>j < length (ar_anns r). ended_of (ar_anns r ! j) (ar_anns r' ! j) \<and> (j \<in> I \<longrightarrow> \<not> an_active (ar_anns r' ! j)))"

definition ann_wf :: "'h AnnouncementReader \<Rightarrow> bool" where
  "ann_wf r \<longleftrightarrow> (\<forall>a\<in>set (ar_anns r). an_active a \<longrightarrow> \<not> an_once a)"

lemma some_ended_end:
  assumes "ann_wf r" shows "some_ended {i} r (end_reader_ann n i r)"
proof -
  have "ended_of (ar_anns r ! j) (ar_anns (end_reader_ann n i r) ! j)" if "j < length (ar_anns r)" for j
    using that assms by (cases "j = i") (auto simp: ann_wf_def intro: ended_of_end, simp add: ended_of_def)
  then show ?thesis using assms by (auto simp: some_ended_def ann_wf_def intro!: end_inactive)
qed

lemma some_ended_trans:
  "some_ended I r r' \<Longrightarrow> some_ended J r' r'' \<Longrightarrow> some_ended (I \<union> J) r r''"
  by (auto simp: some_ended_def ended_of_def) metis+

lemma some_ended_wf: "ann_wf r \<Longrightarrow> some_ended I r r' \<Longrightarrow> ann_wf r'"
  unfolding some_ended_def ended_of_def ann_wf_def all_set_conv_all_nth by metis

lemma reader_inv_wf: "reader_inv r \<Longrightarrow> ann_wf r"
  by (auto simp: reader_inv_def ann_wf_def in_set_conv_nth)

lemma fold_end:
  assumes "ann_wf r"
  shows "some_ended (set is) r (fold (end_reader_ann n) is r) \<and>
    ar_prefix (fold (end_reader_ann n) is r) = ar_prefix r \<and> ar_actives (fold (end_reader_ann n) is r) = ar_actives r \<and>
    ar_cause (fold (end_reader_ann n) is r) = ar_cause r"
  using assms
proof (induction "is" arbitrary: r)
  case Nil
  then show ?case by (simp add: some_ended_def ended_of_def)
next
  case (Cons i "is")
  have 1: "some_ended {i} r (end_reader_ann n i r)" by (rule some_ended_end [OF Cons.prems])
  show ?case using Cons.IH [OF some_ended_wf [OF Cons.prems 1]] some_ended_trans [OF 1] by auto
qed

text \<open>What is ended or taken out of the map together keeps the invariant.\<close>

lemma reader_inv_ended:
  assumes "reader_inv r" "some_ended I r r'" "ar_prefix r' = ar_prefix r"
    "distinct (map fst (ar_actives r'))" "set (ar_actives r') \<subseteq> set (ar_actives r)"
    "snd ` set (ar_actives r) \<subseteq> snd ` set (ar_actives r') \<union> I"
    "ar_cause r' = ar_cause r \<or> {..<length (ar_anns r)} \<subseteq> I"
  shows "reader_inv r'"
proof -
  have path: "i < length (ar_anns r') \<and> an_path (ar_anns r' ! i) = ar_prefix r' @ sfx" if "(sfx, i) \<in> set (ar_actives r')" for sfx i
  proof -
    have "(sfx, i) \<in> set (ar_actives r)" using that assms(5) by blast
    then have "i < length (ar_anns r)" "an_path (ar_anns r ! i) = ar_prefix r @ sfx"
      using assms(1) by (auto simp: reader_inv_def)
    moreover from this have "ended_of (ar_anns r ! i) (ar_anns r' ! i)" using assms(2) by (simp add: some_ended_def)
    ultimately show ?thesis using assms(2,3) by (auto simp: some_ended_def ended_of_def)
  qed
  have act: "\<not> an_once (ar_anns r' ! i) \<and> i \<in> snd ` set (ar_actives r') \<and> ar_cause r' = None"
    if i: "i < length (ar_anns r')" "an_active (ar_anns r' ! i)" for i
  proof -
    have "i < length (ar_anns r)" "ar_anns r' ! i = ar_anns r ! i" "i \<notin> I"
      using i assms(2) by (auto simp: some_ended_def ended_of_def)
    moreover from this have "\<not> an_once (ar_anns r ! i)" "i \<in> snd ` set (ar_actives r)" "ar_cause r = None"
      using i assms(1) by (auto simp: reader_inv_def)
    ultimately show ?thesis using assms(6,7) by auto
  qed
  show ?thesis using path act assms(1,3,4) by (auto simp: reader_inv_def)
qed

lemma reader_fail_some_ended:
  assumes "reader_inv r"
  shows "some_ended (if ar_cause r = None then {..<length (ar_anns r)} else {}) r (reader_fail n c r) \<and>
    ar_prefix (reader_fail n c r) = ar_prefix r \<and> ar_actives (reader_fail n c r) = ar_actives r \<and>
    ar_cause (reader_fail n c r) \<noteq> None"
proof (cases "ar_cause r")
  case None
  have "ann_wf (r\<lparr>ar_cause := Some c\<rparr>)" using reader_inv_wf [OF assms] by (simp add: ann_wf_def)
  from fold_end [OF this, of "[0..<length (ar_anns r)]" n] show ?thesis
    using None by (simp add: reader_fail_def some_ended_def lessThan_atLeast0)
qed (simp add: reader_fail_def some_ended_def ended_of_def)

lemma reader_inv_fail: "reader_inv r \<Longrightarrow> reader_inv (reader_fail n c r)"
  by (rule reader_inv_ended [OF _ conjunct1 [OF reader_fail_some_ended]])
    (use reader_fail_some_ended [of r n c] in \<open>auto simp: reader_inv_def reader_fail_def split: if_splits\<close>)

lemma reader_fail_inactive:
  assumes "reader_inv r" "i < length (ar_anns r)" shows "\<not> an_active (ar_anns (reader_fail n c r) ! i)"
  using reader_fail_some_ended [OF assms(1), of n c] assms
  by (auto simp: some_ended_def reader_inv_def ended_of_def split: if_splits)

lemma reader_inv_more [simp]:
  "reader_inv (r\<lparr>ar_notify := x\<rparr>) = reader_inv r" "reader_inv (r\<lparr>ar_stream := y\<rparr>) = reader_inv r"
  "reader_inv (r\<lparr>ar_pendings := z\<rparr>) = reader_inv r"
  by (simp_all add: reader_inv_def)

section \<open>A reader with a scope\<close>

definition confined :: "authScope option \<Rightarrow> 'h AnnouncementReader \<Rightarrow> bool" where
  "confined scope r \<longleftrightarrow>
     (\<forall>i < length (ar_anns r). an_active (ar_anns r ! i) \<longrightarrow> canPublish (an_path (ar_anns r ! i)) scope)"

text \<open>
  The reader along what happens to it, with the scope of the session: \<open>stale\<close> between a change of
  the scope and the \<open>rescope\<close> it causes.
\<close>

inductive reader_reach :: "nat \<Rightarrow> authScope option \<Rightarrow> bool \<Rightarrow> 'h AnnouncementReader \<Rightarrow> bool" for n where
  init: "\<lbrakk>newAnnouncementReader n pfx sfxs sc = Some r; distinct sfxs\<rbrakk> \<Longrightarrow> reader_reach n sc False r"
| message: "\<lbrakk>reader_reach n sc stale r; handle_broadcast n sc peer am r = Some (go, r')\<rbrakk> \<Longrightarrow> reader_reach n sc stale r'"
| scope_changed: "reader_reach n (Some sc) stale r \<Longrightarrow> reader_reach n (Some sc') True r"
| rescoped: "reader_reach n sc stale r \<Longrightarrow> reader_reach n sc False (reader_rescope n sc r)"
| received: "reader_reach n sc stale r \<Longrightarrow> reader_reach n sc stale (snd (receive_turn r))"
| failed: "reader_reach n sc stale r \<Longrightarrow> reader_reach n sc stale (reader_fail n cause r)"
| closed: "reader_reach n sc stale r \<Longrightarrow> reader_reach n sc stale (snd (AnnouncementReader_Close T n r))"
| closed_error: "reader_reach n sc stale r \<Longrightarrow> reader_reach n sc stale (AnnouncementReader_CloseWithError n code r)"
| watched: "\<lbrakk>reader_reach n sc stale r; i < length (ar_anns r); AfterFunc f (ar_anns r ! i) = (now, handle, a)\<rbrakk> \<Longrightarrow>
    reader_reach n sc stale (r\<lparr>ar_anns := (ar_anns r)[i := a], ar_calls := ar_calls r @ now\<rparr>)"

lemma confined_ended: "\<lbrakk>confined sc r; some_ended I r r'\<rbrakk> \<Longrightarrow> confined sc r'"
  unfolding confined_def some_ended_def ended_of_def by metis

lemma some_ended_refl [simp]: "some_ended {} r (r'\<lparr>ar_anns := ar_anns r\<rparr>)" "some_ended {} r r"
  by (auto simp: some_ended_def ended_of_def)

lemma confined_more [simp]:
  "confined sc (r\<lparr>ar_notify := x\<rparr>) = confined sc r" "confined sc (r\<lparr>ar_stream := y\<rparr>) = confined sc r"
  "confined sc (r\<lparr>ar_pendings := z\<rparr>) = confined sc r"
  by (simp_all add: confined_def)

lemma reader_announcement_cases:
  assumes "reader_announcement n sfx hops r = Some a" "isValidPrefix (ar_prefix r)"
  shows "an_path a = ar_prefix r @ sfx \<and> an_hopIDs a = hops \<and> (an_active a \<longleftrightarrow> ar_cause r = None) \<and>
    (an_active a \<longrightarrow> \<not> an_once a)"
  using assms by (auto simp: reader_announcement_def NewAnnouncement_def Announcement_end_def Let_def bind_Some_eq split: if_splits)

lemma valid_prefix_path: "isValidPrefix p \<Longrightarrow> isValidPath (p @ x)"
  by (auto simp: isValidPrefix_cases isValidPath_def)

lemma reader_announcement_total: "isValidPrefix (ar_prefix r) \<Longrightarrow> \<exists>a. reader_announcement n sfx hops r = Some a"
  using valid_prefix_path [of "ar_prefix r" sfx] by (simp add: reader_announcement_def NewAnnouncement_def)

lemma add_announcement_inv:
  assumes "reader_inv r" "reader_announcement n sfx hops r = Some a"
    "\<forall>i. map_of (ar_actives r) sfx = Some i \<longrightarrow> \<not> an_active (ar_anns r ! i)"
  shows "reader_inv (add_announcement sfx a r)"
proof -
  let ?r = "add_announcement sfx a r" let ?k = "length (ar_anns r)"
  have a: "an_path a = ar_prefix r @ sfx" "an_active a \<longrightarrow> \<not> an_once a \<and> ar_cause r = None"
    using reader_announcement_cases [OF assms(2)] assms(1) by (auto simp: reader_inv_def)
  have d: "distinct (map fst (ar_actives ?r))"
    using assms(1) by (simp add: add_announcement_def Let_def reader_inv_def distinct_update)
  have m: "map_of (ar_actives ?r) = (map_of (ar_actives r))(sfx \<mapsto> ?k)"
    by (simp add: add_announcement_def Let_def update_conv')
  have mem: "(t, i) \<in> set (ar_actives ?r) \<longleftrightarrow> (if t = sfx then i = ?k else (t, i) \<in> set (ar_actives r))" for t i
    using map_of_eq_Some_iff [OF d, of t i] map_of_eq_Some_iff [of "ar_actives r" t i] assms(1) m
    by (auto simp: reader_inv_def)
  have "i < length (ar_anns ?r) \<and> an_path (ar_anns ?r ! i) = ar_prefix ?r @ t" if "(t, i) \<in> set (ar_actives ?r)" for t i
    using that mem [of t i] assms(1) a(1)
    by (auto simp: reader_inv_def add_announcement_def Let_def nth_append split: if_splits)
  moreover have "\<not> an_once (ar_anns ?r ! i) \<and> i \<in> snd ` set (ar_actives ?r) \<and> ar_cause ?r = None"
    if i: "i < length (ar_anns ?r)" "an_active (ar_anns ?r ! i)" for i
  proof (cases "i = ?k")
    case True
    then show ?thesis using a(2) i mem [of sfx ?k] by (force simp: add_announcement_def Let_def)
  next
    case False
    then have "i < ?k" "an_active (ar_anns r ! i)" using i by (auto simp: add_announcement_def Let_def nth_append)
    then obtain t where t: "(t, i) \<in> set (ar_actives r)" "\<not> an_once (ar_anns r ! i)" "ar_cause r = None"
      using assms(1) by (auto simp: reader_inv_def)
    then have "t \<noteq> sfx" using assms(1,3) \<open>an_active (ar_anns r ! i)\<close> by (auto simp: reader_inv_def)
    then show ?thesis using t mem [of t i] \<open>i < ?k\<close> by (force simp: add_announcement_def Let_def nth_append)
  qed
  ultimately show ?thesis using assms(1) d by (auto simp: reader_inv_def add_announcement_def Let_def)
qed

lemma add_announcement_confined:
  assumes "confined sc r" "reader_announcement n sfx hops r = Some a" "isValidPrefix (ar_prefix r)"
    "canPublish (ar_prefix r @ sfx) sc"
  shows "confined sc (add_announcement sfx a r)"
  using assms reader_announcement_cases [OF assms(2,3)]
  by (auto simp: confined_def add_announcement_def Let_def nth_append less_Suc_eq)

lemma init_suffixes_inv:
  "\<lbrakk>init_suffixes n sc sfxs r = Some r'; distinct sfxs; fst ` set (ar_actives r) \<inter> set sfxs = {}; reader_inv r; confined sc r\<rbrakk> \<Longrightarrow>
   reader_inv r' \<and> confined sc r'"
proof (induction n sc sfxs r rule: init_suffixes.induct)
  case (2 n sc sfx sfxs r)
  show ?case
  proof (cases "canPublish (ar_prefix r @ sfx) sc")
    case True
    then obtain a where a: "reader_announcement n sfx [] r = Some a"
        "init_suffixes n sc sfxs (add_announcement sfx a r) = Some r'"
      using 2(3) by (auto simp: bind_Some_eq)
    have "map_of (ar_actives r) sfx = None" using 2(5) by (auto simp: map_of_eq_None_iff)
    then have "reader_inv (add_announcement sfx a r)" using add_announcement_inv [OF 2(6) a(1)] by simp
    moreover have "confined sc (add_announcement sfx a r)"
      using add_announcement_confined [OF 2(7) a(1)] 2(6) True by (simp add: reader_inv_def)
    moreover have "fst ` set (ar_actives (add_announcement sfx a r)) \<inter> set sfxs = {}"
      using 2(4,5) by (auto simp: add_announcement_def Let_def update_conv' simp flip: dom_map_of_conv_image_fst split: if_splits)
    ultimately show ?thesis using 2(2) [OF _ a(1)] True a(2) 2(4) by auto
  qed (use 2 in auto)
qed simp

lemma active_listed:
  "\<lbrakk>reader_inv r; map_of (ar_actives r) sfx = Some i\<rbrakk> \<Longrightarrow> i < length (ar_anns r) \<and> an_path (ar_anns r ! i) = ar_prefix r @ sfx"
  by (auto simp: reader_inv_def dest!: map_of_SomeD)

text \<open>Ending the announcement of a suffix and taking the suffix out of the map.\<close>

lemma delete_ended:
  assumes "reader_inv r" "(sfx, i) \<in> set (ar_actives r)"
  shows "reader_inv ((end_reader_ann n i r)\<lparr>ar_actives := AList.delete sfx (ar_actives r)\<rparr>)"
    "some_ended {i} r ((end_reader_ann n i r)\<lparr>ar_actives := AList.delete sfx (ar_actives r)\<rparr>)"
proof -
  let ?r = "(end_reader_ann n i r)\<lparr>ar_actives := AList.delete sfx (ar_actives r)\<rparr>"
  show e: "some_ended {i} r ?r" using some_ended_end [OF reader_inv_wf [OF assms(1)], of i n] by (simp add: some_ended_def)
  have k: "distinct (map fst (ar_actives r))" using assms(1) by (simp add: reader_inv_def)
  show "reader_inv ?r"
  proof (rule reader_inv_ended [OF assms(1) e])
    show "snd ` set (ar_actives r) \<subseteq> snd ` set (ar_actives ?r) \<union> {i}"
    proof
      fix j assume "j \<in> snd ` set (ar_actives r)"
      then obtain t where t: "(t, j) \<in> set (ar_actives r)" by auto
      show "j \<in> snd ` set (ar_actives ?r) \<union> {i}"
      proof (cases "t = sfx")
        case True
        then have "j = i" using t assms(2) k by (metis map_of_is_SomeI option.inject)
        then show ?thesis by simp
      next
        case False
        then show ?thesis using t by (force simp: AList.delete_eq)
      qed
    qed
  qed (use k in \<open>auto simp: AList.delete_eq distinct_map_filter\<close>)
qed

lemma handle_broadcast_inv:
  assumes "handle_broadcast n sc peer am r = Some (go, r')" "reader_inv r"
  shows "reader_inv r' \<and> (confined sc r \<longrightarrow> confined sc r')"
proof -
  let ?sfx = "am_BroadcastPathSuffix am"
  let ?old = "reader_active ?sfx r"
  let ?ended = "case ?old of Some i \<Rightarrow> end_reader_ann n i r | None \<Rightarrow> r"
  have p: "isValidPrefix (ar_prefix r)" "distinct (map fst (ar_actives r))" using assms(2) by (simp_all add: reader_inv_def)
  obtain I where e: "some_ended I r ?ended" "reader_inv ?ended" "ar_actives ?ended = ar_actives r" "ar_prefix ?ended = ar_prefix r"
      "\<forall>i. map_of (ar_actives r) ?sfx = Some i \<longrightarrow> \<not> an_active (ar_anns ?ended ! i)"
    and d: "reader_inv (?ended\<lparr>ar_actives := AList.delete ?sfx (ar_actives r)\<rparr>)"
      "some_ended I r (?ended\<lparr>ar_actives := AList.delete ?sfx (ar_actives r)\<rparr>)"
  proof (cases ?old)
    case None
    then have n: "\<forall>i. map_of (ar_actives r) ?sfx = Some i \<longrightarrow> \<not> an_active (ar_anns r ! i)"
      by (auto simp: reader_active_def split: option.splits if_splits)
    have "reader_inv (r\<lparr>ar_actives := AList.delete ?sfx (ar_actives r)\<rparr>)"
    proof -
      have "i \<in> snd ` set (AList.delete ?sfx (ar_actives r))"
        if i: "i < length (ar_anns r)" "an_active (ar_anns r ! i)" for i
      proof -
        obtain t where t: "(t, i) \<in> set (ar_actives r)" using assms(2) i by (auto simp: reader_inv_def)
        then have "t \<noteq> ?sfx" using n i p(2) by (metis map_of_is_SomeI)
        then show ?thesis using t by (force simp: AList.delete_eq)
      qed
      then show ?thesis using assms(2) by (auto simp: reader_inv_def AList.delete_eq distinct_map_filter)
    qed
    moreover have "some_ended {} r (r\<lparr>ar_actives := AList.delete ?sfx (ar_actives r)\<rparr>)"
      by (simp add: some_ended_def ended_of_def)
    ultimately show ?thesis using that [of "{}"] None assms(2) n by simp
  next
    case (Some i)
    then have m: "map_of (ar_actives r) ?sfx = Some i"
      by (auto simp: reader_active_def split: option.splits if_splits)
    then have l: "i < length (ar_anns r)" "(?sfx, i) \<in> set (ar_actives r)"
      using active_listed [OF assms(2)] by (auto dest: map_of_SomeD)
    have s: "some_ended {i} r (end_reader_ann n i r)" by (rule some_ended_end [OF reader_inv_wf [OF assms(2)]])
    moreover have "reader_inv (end_reader_ann n i r)"
      using reader_inv_ended [OF assms(2) s] p by auto
    ultimately show ?thesis using that [of "{i}"] Some delete_ended [OF assms(2) l(2)] m l(1)
      by (auto simp: some_ended_def)
  qed
  have close: "reader_inv (AnnouncementReader_CloseWithError n c r) \<and>
      (confined sc r \<longrightarrow> confined sc (AnnouncementReader_CloseWithError n c r))" for c
    using reader_inv_fail [OF assms(2)] confined_ended [OF _ conjunct1 [OF reader_fail_some_ended [OF assms(2)]]]
    by (simp add: AnnouncementReader_CloseWithError_def)
  show ?thesis
  proof (cases "am_AnnounceStatus am = ACTIVE")
    case act: True
    show ?thesis
    proof (cases "canPublish (ar_prefix r @ ?sfx) sc")
      case True
      then obtain a where a: "reader_announcement n ?sfx (appendHopID (am_HopIDs am) peer) ?ended = Some a"
          "r' = (add_announcement ?sfx a ?ended)\<lparr>ar_notify := map_option (\<lambda>_. True) (ar_notify ?ended)\<rparr>"
        using assms(1) act
        by (auto simp: handle_broadcast_def Let_def activateLocked_def bind_Some_eq add_announcement_def)
      have "reader_inv (add_announcement ?sfx a ?ended)"
        by (rule add_announcement_inv [OF e(2) a(1)]) (use e(3,5) in simp)
      moreover have "confined sc (add_announcement ?sfx a ?ended)" if "confined sc r"
        by (rule add_announcement_confined [OF confined_ended [OF that e(1)] a(1)]) (use e(4) p True in simp_all)
      ultimately show ?thesis using a(2) by simp
    next
      case False
      then show ?thesis using assms(1) act d confined_ended by (auto simp: handle_broadcast_def Let_def)
    qed
  next
    case False
    then show ?thesis using assms d close confined_ended
      by (auto simp: handle_broadcast_def Let_def split: if_splits)
  qed
qed

lemma rescope_fold:
  assumes "reader_inv r" "set xs \<subseteq> set (ar_actives r)" "distinct (map fst xs)"
  shows "\<exists>I. some_ended I r (fold (\<lambda>(sfx, i) r. if canPublish (an_path (ar_anns r ! i)) sc then r
            else (end_reader_ann n i r)\<lparr>ar_actives := AList.delete sfx (ar_actives r)\<rparr>) xs r) \<and>
      reader_inv (fold (\<lambda>(sfx, i) r. if canPublish (an_path (ar_anns r ! i)) sc then r
            else (end_reader_ann n i r)\<lparr>ar_actives := AList.delete sfx (ar_actives r)\<rparr>) xs r) \<and>
      (\<forall>(sfx, i) \<in> set xs. i \<in> I \<or> canPublish (an_path (ar_anns r ! i)) sc)"
  using assms
proof (induction xs arbitrary: r)
  case Nil
  then show ?case by (intro exI [of _ "{}"]) simp
next
  case (Cons x xs)
  obtain sfx i where x: "x = (sfx, i)" by (cases x)
  show ?case
  proof (cases "canPublish (an_path (ar_anns r ! i)) sc")
    case True
    then show ?thesis using Cons.IH [OF Cons.prems(1)] Cons.prems x by auto
  next
    case False
    let ?r = "(end_reader_ann n i r)\<lparr>ar_actives := AList.delete sfx (ar_actives r)\<rparr>"
    have m: "(sfx, i) \<in> set (ar_actives r)" using Cons.prems(2) x by simp
    note d = delete_ended [OF Cons.prems(1) m, of n]
    have "set xs \<subseteq> set (ar_actives ?r)" using Cons.prems(2,3) x by (force simp: AList.delete_eq)
    then obtain I where I: "some_ended I ?r (fold (\<lambda>(sfx, i) r. if canPublish (an_path (ar_anns r ! i)) sc then r
            else (end_reader_ann n i r)\<lparr>ar_actives := AList.delete sfx (ar_actives r)\<rparr>) xs ?r)"
        "reader_inv (fold (\<lambda>(sfx, i) r. if canPublish (an_path (ar_anns r ! i)) sc then r
            else (end_reader_ann n i r)\<lparr>ar_actives := AList.delete sfx (ar_actives r)\<rparr>) xs ?r)"
        "\<forall>(sfx, i) \<in> set xs. i \<in> I \<or> canPublish (an_path (ar_anns ?r ! i)) sc"
      using Cons.IH [OF d(1)] Cons.prems(3) x by auto
    have "an_path (ar_anns ?r ! j) = an_path (ar_anns r ! j)" for j
      by (cases "j = i"; cases "i < length (ar_anns r)") (simp_all add: not_less list_update_beyond)
    then have "\<forall>(sfx, j) \<in> set (x # xs). j \<in> {i} \<union> I \<or> canPublish (an_path (ar_anns r ! j)) sc"
      using I(3) x by auto
    then show ?thesis using some_ended_trans [OF d(2) I(1)] I(2) False x by (auto intro!: exI [of _ "{i} \<union> I"])
  qed
qed

lemma reader_rescope_inv:
  assumes "reader_inv r"
  shows "reader_inv (reader_rescope n sc r) \<and> confined sc (reader_rescope n sc r)"
proof (cases "sc = None \<or> ar_cause r \<noteq> None")
  case True
  then show ?thesis using assms
    by (auto simp: reader_rescope_def confined_def reader_inv_def canPublish_def anyGrant_def)
next
  case False
  have "distinct (map fst (ar_actives r))" using assms by (simp add: reader_inv_def)
  from rescope_fold [OF assms subset_refl this, of sc n] False obtain I where
    I: "some_ended I r (reader_rescope n sc r)" "reader_inv (reader_rescope n sc r)"
      "\<forall>(sfx, i) \<in> set (ar_actives r). i \<in> I \<or> canPublish (an_path (ar_anns r ! i)) sc"
    by (auto simp: reader_rescope_def)
  have "canPublish (an_path (ar_anns (reader_rescope n sc r) ! i)) sc"
    if i: "i < length (ar_anns (reader_rescope n sc r))" "an_active (ar_anns (reader_rescope n sc r) ! i)" for i
  proof -
    have "i < length (ar_anns r)" "ar_anns (reader_rescope n sc r) ! i = ar_anns r ! i" "i \<notin> I"
      using i I(1) by (auto simp: some_ended_def ended_of_def)
    moreover from this have "i \<in> snd ` set (ar_actives r)" using i assms by (auto simp: reader_inv_def)
    ultimately show ?thesis using I(3) by auto
  qed
  then show ?thesis using I(2) by (simp add: confined_def)
qed

lemma reader_watched:
  assumes "i < length (ar_anns r)" "AfterFunc f (ar_anns r ! i) = (now, handle, a)"
  shows "reader_inv r \<Longrightarrow> reader_inv (r\<lparr>ar_anns := (ar_anns r)[i := a], ar_calls := c\<rparr>)"
    "confined sc r \<Longrightarrow> confined sc (r\<lparr>ar_anns := (ar_anns r)[i := a], ar_calls := c\<rparr>)"
proof -
  have a: "an_path a = an_path (ar_anns r ! i)" "an_active a = an_active (ar_anns r ! i)" "an_once a = an_once (ar_anns r ! i)"
    using assms(2) AfterFunc_simps [of f "ar_anns r ! i"] by simp_all
  then have "an_path ((ar_anns r)[i := a] ! j) = an_path (ar_anns r ! j)"
    "an_active ((ar_anns r)[i := a] ! j) = an_active (ar_anns r ! j)"
    "an_once ((ar_anns r)[i := a] ! j) = an_once (ar_anns r ! j)" for j
    using assms(1) by (cases "j = i"; simp)+
  then show "reader_inv r \<Longrightarrow> reader_inv (r\<lparr>ar_anns := (ar_anns r)[i := a], ar_calls := c\<rparr>)"
    "confined sc r \<Longrightarrow> confined sc (r\<lparr>ar_anns := (ar_anns r)[i := a], ar_calls := c\<rparr>)"
    by (simp_all add: reader_inv_def confined_def)
qed

lemma reader_reach_inv: "reader_reach n sc stale r \<Longrightarrow> reader_inv r \<and> (\<not> stale \<longrightarrow> confined sc r)"
proof (induction rule: reader_reach.induct)
  case (init pfx sfxs sc r)
  show ?case
  proof (cases "isValidPrefix pfx")
    case True
    let ?r = "\<lparr>ar_prefix = pfx, ar_stream = [], ar_anns = [], ar_actives = [], ar_pendings = [],
      ar_notify = Some False, ar_cause = None, ar_calls = []\<rparr>"
    have "init_suffixes n sc sfxs ?r = Some r" "reader_inv ?r" "confined sc ?r"
      using init True by (simp_all add: newAnnouncementReader_def reader_inv_def confined_def)
    from init_suffixes_inv [OF this(1) init(2) _ this(2,3)] show ?thesis by simp
  qed (use init in \<open>simp add: newAnnouncementReader_def\<close>)
next
  case (message sc stale r peer am go r')
  then show ?case using handle_broadcast_inv by blast
next
  case (received sc stale r)
  then show ?case by (simp add: receive_turn_def split: list.split option.split)
next
  case (failed sc stale r cause)
  then show ?case
    using reader_inv_fail confined_ended [OF _ conjunct1 [OF reader_fail_some_ended]] by blast
next
  case (closed sc stale r T)
  have "reader_inv (reader_fail n ContextCanceled r) \<and> (confined sc r \<longrightarrow> confined sc (reader_fail n ContextCanceled r))"
    using closed reader_inv_fail confined_ended [OF _ conjunct1 [OF reader_fail_some_ended]] by blast
  then show ?case using closed by (auto simp: AnnouncementReader_Close_def split_beta)
next
  case (closed_error sc stale r code)
  have "reader_inv (reader_fail n ContextCanceled r) \<and> (confined sc r \<longrightarrow> confined sc (reader_fail n ContextCanceled r))"
    using closed_error reader_inv_fail confined_ended [OF _ conjunct1 [OF reader_fail_some_ended]] by blast
  then show ?case using closed_error by (auto simp: AnnouncementReader_CloseWithError_def)
next
  case (watched sc stale r i f now handle a)
  then show ?case using reader_watched [OF watched.hyps(2,3)] by simp
qed (use reader_rescope_inv in blast)+

text \<open>C20 A reader confined to a scope: whatever the peer sends, whatever the application does and
  however the scope changes, once the change has been passed on the broadcasts the application sees as
  active are all ones the peer may publish. A broadcast outside the scope never becomes active.\<close>
theorem announcements_confined:
  assumes "reader_reach n (Some sc) False r" "i < length (ar_anns r)" "an_active (ar_anns r ! i)"
  shows "canPublish (an_path (ar_anns r ! i)) (Some sc)"
  using reader_reach_inv [OF assms(1)] assms(2,3) by (simp add: confined_def)

end
