(* ===== verification/Announcing.thy ===== *)
theory Announcing
  imports Announcements
begin

text \<open>
  What an AnnouncementWriter tells its peer, along any interleaving of its calls, the ends of the
  announcements and the callbacks they start (moqt/announcement_writer.go), and what an
  AnnouncementReader (moqt/announcement_reader.go) makes of it: the writer's invariant, the agreement
  of the two ends, and that an ended announcement is told once its callbacks have run.
\<close>

section \<open>What the writer tells its peer\<close>

declare map_of_eq_Some_iff [simp del]

text \<open>The steps of a writer and of the announcements around it, in any order.\<close>

inductive ann_step :: "announcing \<Rightarrow> announcing \<Rightarrow> bool" where
  init_begin: "\<lbrakk>stream_contract T; init_begin T as s = Some s'\<rbrakk> \<Longrightarrow> ann_step s s'"
| init_next: "\<lbrakk>stream_contract T; init_next T s = Some s'\<rbrakk> \<Longrightarrow> ann_step s s'"
| send_begin: "\<lbrakk>anw_initDone (ag_writer s); send_begin a s = Inr (sfx, old)\<rbrakk> \<Longrightarrow>
    ann_step s (s\<lparr>ag_sending := (sfx, a, old) # ag_sending s\<rparr>)"
| end_old: "\<lbrakk>stream_contract T; ag_sending s = xs @ (sfx, a, Some old) # ys; end_active T sfx old s = Some s'\<rbrakk> \<Longrightarrow>
    ann_step s (s'\<lparr>ag_sending := xs @ (sfx, a, None) # ys\<rparr>)"
| send_finish: "\<lbrakk>stream_contract T; ag_sending s = xs @ (sfx, a, None) # ys; send_finish T sfx a s = Some (e, s')\<rbrakk> \<Longrightarrow>
    ann_step s (s'\<lparr>ag_sending := xs @ ys\<rparr>)"
| writer_close: "ann_step s (snd (AnnouncementWriter_Close T s))"
| writer_close_error: "ann_step s (AnnouncementWriter_CloseWithError code s)"
| announcement_end: "0 < n \<Longrightarrow> ann_step s (end_announcement n a s)"
| callback: "\<lbrakk>stream_contract T; i < length (ag_running s); run_callback T i s = Some s'\<rbrakk> \<Longrightarrow> ann_step s s'"
| other_after: "AfterFunc (OtherCallback k) (ag_anns s a) = (now, handle, ann) \<Longrightarrow>
    ann_step s ((set_ann a ann s)\<lparr>ag_running := ag_running s @ now\<rparr>)"
| other_stop: "\<lbrakk>an_afterHandlers (ag_anns s a) ! i = Some (OtherCallback k); stop (Some i) (ag_anns s a) = (ok, ann)\<rbrakk> \<Longrightarrow>
    ann_step s (set_ann a ann s)"

text \<open>At the start no announcement holds a callback of this writer.\<close>

definition others_only :: "callback Announcement \<Rightarrow> bool" where
  "others_only a \<longleftrightarrow> (\<forall>c. Some c \<in> set (an_afterHandlers a) \<longrightarrow> (\<exists>k. c = OtherCallback k))"

inductive ann_reach :: "(nat \<Rightarrow> callback Announcement) \<Rightarrow> AnnouncementWriter \<Rightarrow> announcing \<Rightarrow> bool" for anns w where
  start: "\<lbrakk>newAnnouncementWriter pfx localHopID excludeHop = Some w; \<forall>a. others_only (anns a)\<rbrakk> \<Longrightarrow>
    ann_reach anns w \<lparr>ag_anns = anns, ag_writer = w, ag_next = 0, ag_running = [], ag_todo = [], ag_sending = [], ag_over = False\<rparr>"
| step: "ann_reach anns w s \<Longrightarrow> ann_step s s' \<Longrightarrow> ann_reach anns w s'"

text \<open>The whole calls are such steps, and so is a rescope.\<close>

lemma rescope_step: "writer_rescope T sc s = s \<or> ann_step s (writer_rescope T sc s)"
  by (simp add: writer_rescope_def ann_step.writer_close_error)

lemma SendAnnouncement_steps:
  assumes "stream_contract T" "SendAnnouncement T a s = Some (e, s')"
  shows "ann_step\<^sup>*\<^sup>* s s'"
proof (cases "\<exists>sfx old. anw_initDone (ag_writer s) \<and> send_begin a s = Inr (sfx, old)")
  case False
  then show ?thesis using assms(2) by (auto simp: SendAnnouncement_def split: if_splits sum.splits)
next
  case True
  then obtain sfx old s1 where b: "anw_initDone (ag_writer s)" "send_begin a s = Inr (sfx, old)"
      "end_old T sfx old s = Some s1" "send_finish T sfx a s1 = Some (e, s')"
    using assms(2) by (auto simp: SendAnnouncement_def bind_Some_eq)
  let ?q = "ag_sending s"
  have sending: "end_active T sfx x (u\<lparr>ag_sending := q\<rparr>) = map_option (\<lambda>v. v\<lparr>ag_sending := q\<rparr>) (end_active T sfx x u)"
      "send_finish T sfx a (u\<lparr>ag_sending := q\<rparr>) = map_option (\<lambda>(e, v). (e, v\<lparr>ag_sending := q\<rparr>)) (send_finish T sfx a u)"
    for x u q
    by (auto simp: end_active_def remove_active_def sendEndedLocked_def send_broadcast_def set_ann_def on_writer_def
        send_finish_def registerEndHandlerLocked_def split_beta bind_eq_None_conv Let_def
        split: option.split Option.bind_split)
  have keep: "ag_sending s1 = ag_sending s \<and> ag_sending s' = ag_sending s"
    using b(3,4)
    by (auto simp: end_old_def end_active_def remove_active_def sendEndedLocked_def send_broadcast_def set_ann_def on_writer_def
        send_finish_def registerEndHandlerLocked_def split_beta Let_def bind_Some_eq
        split: option.splits if_splits)
  have "ann_step s (s\<lparr>ag_sending := (sfx, a, old) # ?q\<rparr>)" by (rule ann_step.send_begin [OF b(1,2)])
  moreover have "ann_step\<^sup>*\<^sup>* (s\<lparr>ag_sending := (sfx, a, old) # ?q\<rparr>) (s1\<lparr>ag_sending := (sfx, a, None) # ?q\<rparr>)"
  proof (cases old)
    case None
    then show ?thesis using b(3) by (simp add: end_old_def)
  next
    case (Some x)
    have "ann_step (s\<lparr>ag_sending := (sfx, a, old) # ?q\<rparr>) ((s1\<lparr>ag_sending := (sfx, a, old) # ?q\<rparr>)\<lparr>ag_sending := [] @ (sfx, a, None) # ?q\<rparr>)"
      by (rule ann_step.end_old [OF assms(1), of _ "[]" sfx a x ?q]) (use b(3) Some in \<open>simp_all add: end_old_def sending\<close>)
    then show ?thesis by simp
  qed
  moreover have "ann_step (s1\<lparr>ag_sending := (sfx, a, None) # ?q\<rparr>)
      ((s'\<lparr>ag_sending := (sfx, a, None) # ?q\<rparr>)\<lparr>ag_sending := [] @ ?q\<rparr>)"
    by (rule ann_step.send_finish [OF assms(1), of _ "[]" sfx a ?q]) (use b(4) in \<open>simp_all add: sending\<close>)
  moreover have "s'\<lparr>ag_sending := ?q\<rparr> = s'" using keep by (cases s') simp
  ultimately show ?thesis by (simp add: converse_rtranclp_into_rtranclp rtranclp.rtrancl_into_rtrancl)
qed

text \<open>The messages written, and what they leave announced at a peer that reads them.\<close>

fun broadcasts_enc :: "AnnounceBroadcastMessage list \<Rightarrow> bytes option" where
  "broadcasts_enc [] = Some []"
| "broadcasts_enc (m # ms) = do { b \<leftarrow> AnnounceBroadcast_Encode m; bs \<leftarrow> broadcasts_enc ms; Some (b @ bs) }"

lemma broadcasts_enc_append:
  "broadcasts_enc (a @ b) = do { x \<leftarrow> broadcasts_enc a; y \<leftarrow> broadcasts_enc b; Some (x @ y) }"
  by (induction a) (auto split: Option.bind_splits)

definition told_step :: "AnnounceBroadcastMessage \<Rightarrow> (suffix \<rightharpoonup> uint64 list) \<Rightarrow> (suffix \<rightharpoonup> uint64 list)" where
  "told_step m v =
     (if am_AnnounceStatus m = ACTIVE then v(am_BroadcastPathSuffix m \<mapsto> am_HopIDs m)
      else v(am_BroadcastPathSuffix m := None))"

definition told :: "AnnounceBroadcastMessage list \<Rightarrow> (suffix \<rightharpoonup> uint64 list)" where
  "told ms = fold told_step ms Map.empty"

text \<open>An ENDED names a suffix that is active; otherwise the peer resets the stream.\<close>

definition legal :: "AnnounceBroadcastMessage \<Rightarrow> (suffix \<rightharpoonup> uint64 list) \<Rightarrow> bool" where
  "legal m v \<longleftrightarrow> am_AnnounceStatus m = ACTIVE \<or> am_AnnounceStatus m = ENDED \<and> v (am_BroadcastPathSuffix m) \<noteq> None"

fun legal_from :: "(suffix \<rightharpoonup> uint64 list) \<Rightarrow> AnnounceBroadcastMessage list \<Rightarrow> bool" where
  "legal_from v [] = True"
| "legal_from v (m # ms) = (legal m v \<and> legal_from (told_step m v) ms)"

lemma legal_from_append: "legal_from v (a @ b) \<longleftrightarrow> legal_from v a \<and> legal_from (fold told_step a v) b"
  by (induction a arbitrary: v) auto

lemma told_snoc: "told (ms @ [m]) = told_step m (told ms)" by (simp add: told_def)

text \<open>The announcement \<open>a\<close> goes out under \<open>sfx\<close>. It does not change: paths and hops are fixed.\<close>

definition announced :: "(nat \<Rightarrow> callback Announcement) \<Rightarrow> AnnouncementWriter \<Rightarrow> suffix \<Rightarrow> nat \<Rightarrow> bool" where
  "announced anns w sfx a \<longleftrightarrow> GetSuffix (an_path (anns a)) (anw_prefix w) = (sfx, True) \<and> \<not> shouldExclude w (anns a)"

definition proper :: "(nat \<Rightarrow> callback Announcement) \<Rightarrow> AnnouncementWriter \<Rightarrow> AnnounceBroadcastMessage \<Rightarrow> bool" where
  "proper anns w m \<longleftrightarrow> (\<exists>a. announced anns w (am_BroadcastPathSuffix m) a \<and>
     (am_AnnounceStatus m = ACTIVE \<and> am_HopIDs m = an_hopIDs (anns a) \<or> am_AnnounceStatus m = ENDED \<and> am_HopIDs m = []))"

definition same_anns :: "(nat \<Rightarrow> callback Announcement) \<Rightarrow> (nat \<Rightarrow> callback Announcement) \<Rightarrow> bool" where
  "same_anns anns anns' \<longleftrightarrow> (\<forall>a. an_path (anns' a) = an_path (anns a) \<and> an_hopIDs (anns' a) = an_hopIDs (anns a))"

definition same_writer :: "AnnouncementWriter \<Rightarrow> AnnouncementWriter \<Rightarrow> bool" where
  "same_writer w w' \<longleftrightarrow> anw_prefix w' = anw_prefix w \<and> anw_localHopID w' = anw_localHopID w \<and> anw_excludeHop w' = anw_excludeHop w"

definition callbacks :: "announcing \<Rightarrow> callback set" where
  "callbacks s = set (ag_running s) \<union> {c. \<exists>a. Some c \<in> set (an_afterHandlers (ag_anns s a))}"

definition todo_keys :: "announcing \<Rightarrow> suffix set" where
  "todo_keys s = fst ` set (ag_todo s)"

text \<open>The writer's own state: nothing an end handler can touch is still to be sent.\<close>

definition writer_shape :: "(nat \<Rightarrow> callback Announcement) \<Rightarrow> AnnouncementWriter \<Rightarrow> announcing \<Rightarrow> bool" where
  "writer_shape anns w0 s \<longleftrightarrow>
     same_writer w0 (ag_writer s) \<and>
     (anw_closed (ag_writer s) \<longleftrightarrow> send_over (anw_stream (ag_writer s))) \<and>
     (anw_closed (ag_writer s) \<longrightarrow> anw_actives (ag_writer s) = []) \<and>
     (\<not> anw_initStarted (ag_writer s) \<longrightarrow>
        anw_actives (ag_writer s) = [] \<and> ag_todo s = [] \<and> \<not> anw_initDone (ag_writer s)) \<and>
     (anw_initDone (ag_writer s) \<longrightarrow> ag_todo s = []) \<and>
     (ag_sending s \<noteq> [] \<longrightarrow> anw_initDone (ag_writer s) \<and> anw_initErr (ag_writer s) = None) \<and>
     distinct (map fst (anw_actives (ag_writer s))) \<and> distinct (map fst (ag_todo s)) \<and>
     (\<not> anw_closed (ag_writer s) \<longrightarrow> (\<forall>(sfx, a) \<in> set (ag_todo s).
        \<exists>act. map_of (anw_actives (ag_writer s)) sfx = Some act \<and> ac_announcement act = a)) \<and>
     (\<forall>(sfx, a) \<in> set (ag_todo s). announced anns w0 sfx a) \<and>
     (\<forall>(sfx, a, old) \<in> set (ag_sending s). announced anns w0 sfx a) \<and>
     (\<forall>sfx act. map_of (anw_actives (ag_writer s)) sfx = Some act \<longrightarrow>
        announced anns w0 sfx (ac_announcement act) \<and> ac_id act < ag_next s)"

definition callbacks_fit :: "announcing \<Rightarrow> bool" where
  "callbacks_fit s \<longleftrightarrow>
     (\<forall>sfx i. RemoveActive sfx i \<in> callbacks s \<longrightarrow> i < ag_next s \<and>
        (sfx \<in> todo_keys s \<longrightarrow> (\<forall>act. map_of (anw_actives (ag_writer s)) sfx = Some act \<longrightarrow> ac_id act \<noteq> i)))"

definition shape :: "(nat \<Rightarrow> callback Announcement) \<Rightarrow> AnnouncementWriter \<Rightarrow> announcing \<Rightarrow> bool" where
  "shape anns w0 s \<longleftrightarrow> same_anns anns (ag_anns s) \<and> writer_shape anns w0 s \<and> callbacks_fit s"

text \<open>Nothing was written yet, or ANNOUNCE_OK and messages that tell what the actives are.\<close>

definition telling :: "(nat \<Rightarrow> callback Announcement) \<Rightarrow> AnnouncementWriter \<Rightarrow> announcing \<Rightarrow> AnnounceBroadcastMessage list \<Rightarrow> bool" where
  "telling anns w0 s ms \<longleftrightarrow>
     (\<exists>k okb mb. AnnounceOk_Encode \<lparr>aom_HopID = anw_localHopID w0, aom_ActiveCount = k\<rparr> = Some okb \<and>
        broadcasts_enc ms = Some mb \<and> written (anw_stream (ag_writer s)) = okb @ mb) \<and>
     (\<forall>m\<in>set ms. proper anns w0 m) \<and> legal_from Map.empty ms \<and>
     (\<forall>sfx act. map_of (anw_actives (ag_writer s)) sfx = Some act \<and> sfx \<notin> todo_keys s \<longrightarrow>
        told ms sfx = Some (an_hopIDs (anns (ac_announcement act)))) \<and>
     (\<not> anw_closed (ag_writer s) \<and> \<not> ag_over s \<longrightarrow>
        (\<forall>sfx. map_of (anw_actives (ag_writer s)) sfx = None \<or> sfx \<in> todo_keys s \<longrightarrow> told ms sfx = None))"

definition silent :: "announcing \<Rightarrow> bool" where
  "silent s \<longleftrightarrow> written (anw_stream (ag_writer s)) = [] \<and> anw_actives (ag_writer s) = [] \<and> ag_todo s = [] \<and>
     \<not> (anw_initDone (ag_writer s) \<and> anw_initErr (ag_writer s) = None)"

definition ann_inv :: "(nat \<Rightarrow> callback Announcement) \<Rightarrow> AnnouncementWriter \<Rightarrow> announcing \<Rightarrow> bool" where
  "ann_inv anns w0 s \<longleftrightarrow> shape anns w0 s \<and>
     (\<not> torn (anw_stream (ag_writer s)) \<longrightarrow>
        silent s \<or> anw_initStarted (ag_writer s) \<and> (\<exists>ms. telling anns w0 s ms)) \<and>
     (\<not> anw_initStarted (ag_writer s) \<longrightarrow> written (anw_stream (ag_writer s)) = [])"

lemma on_writer_simps [simp]:
  "ag_anns (on_writer f s) = ag_anns s" "ag_writer (on_writer f s) = f (ag_writer s)" "ag_next (on_writer f s) = ag_next s"
  "ag_running (on_writer f s) = ag_running s" "ag_todo (on_writer f s) = ag_todo s"
  "ag_sending (on_writer f s) = ag_sending s" "ag_over (on_writer f s) = ag_over s"
  by (simp_all add: on_writer_def)

lemma set_ann_simps [simp]:
  "ag_anns (set_ann a ann s) = (ag_anns s)(a := ann)" "ag_writer (set_ann a ann s) = ag_writer s"
  "ag_next (set_ann a ann s) = ag_next s" "ag_running (set_ann a ann s) = ag_running s"
  "ag_todo (set_ann a ann s) = ag_todo s" "ag_sending (set_ann a ann s) = ag_sending s" "ag_over (set_ann a ann s) = ag_over s"
  by (simp_all add: set_ann_def)

lemma callbacks_on_writer [simp]: "callbacks (on_writer f s) = callbacks s" by (simp add: callbacks_def)

text \<open>What only moves callbacks about changes nothing.\<close>

lemma ann_inv_callbacks:
  assumes "ann_inv anns w0 s" "same_anns (ag_anns s) (ag_anns s')" "callbacks s' \<subseteq> callbacks s \<union> range OtherCallback"
    "ag_writer s' = ag_writer s" "ag_next s' = ag_next s" "ag_todo s' = ag_todo s" "ag_sending s' = ag_sending s" "ag_over s' = ag_over s"
  shows "ann_inv anns w0 s'"
proof -
  have "same_anns anns (ag_anns s')" using assms(1,2) by (auto simp: ann_inv_def shape_def same_anns_def)
  moreover have "writer_shape anns w0 s' = writer_shape anns w0 s" by (simp add: writer_shape_def assms(4-8))
  moreover have "callbacks_fit s'"
  proof -
    have "RemoveActive sfx i \<in> callbacks s" if "RemoveActive sfx i \<in> callbacks s'" for sfx i
      using that assms(3) by auto
    moreover have "callbacks_fit s" using assms(1) by (simp add: ann_inv_def shape_def)
    ultimately show ?thesis unfolding callbacks_fit_def todo_keys_def assms(4-8) by blast
  qed
  ultimately have "shape anns w0 s'" using assms(1) by (simp add: ann_inv_def shape_def)
  moreover have "silent s' = silent s" "telling anns w0 s' = telling anns w0 s"
    using assms(4-8) by (auto simp: silent_def telling_def todo_keys_def fun_eq_iff)
  ultimately show ?thesis using assms(1,4) by (simp add: ann_inv_def)
qed

lemma same_anns_upd:
  "\<lbrakk>an_path b = an_path (f a); an_hopIDs b = an_hopIDs (f a)\<rbrakk> \<Longrightarrow> same_anns f (f(a := b))"
  by (simp add: same_anns_def)

lemma AfterFunc_callbacks:
  "AfterFunc f (ag_anns s a) = (now, handle, ann) \<Longrightarrow>
   callbacks ((set_ann a ann s)\<lparr>ag_running := ag_running s @ now\<rparr>) \<subseteq> insert f (callbacks s)"
  by (auto simp: AfterFunc_def callbacks_def split: if_splits)

lemma stop_callbacks: "callbacks (set_ann a (snd (stop h (ag_anns s a))) s) \<subseteq> callbacks s"
  by (auto simp: stop_def callbacks_def split: option.splits if_splits dest!: subsetD [OF set_update_subset_insert])

lemma end_callbacks:
  assumes "0 < n" "Announcement_end n (ag_anns s a) = (runs, ann)"
  shows "callbacks ((set_ann a ann s)\<lparr>ag_running := ag_running s @ concat runs\<rparr>) \<subseteq> callbacks s"
proof (cases "an_once (ag_anns s a)")
  case True
  then show ?thesis using assms(2) by (auto simp: Announcement_end_def callbacks_def split: if_splits)
next
  case False
  have "concat runs = List.map_filter id (an_afterHandlers (ag_anns s a))"
    using end_runs_all [OF assms(1) False] assms(2) by simp
  then have "set (concat runs) \<subseteq> {c. Some c \<in> set (an_afterHandlers (ag_anns s a))}"
    by (auto simp: List.map_filter_def)
  moreover have "an_afterHandlers ann = []" using assms(2) False by (auto simp: Announcement_end_def Let_def)
  ultimately show ?thesis by (auto simp: callbacks_def split: if_splits)
qed

text \<open>One message on the stream.\<close>

lemma send_broadcast_cases:
  assumes "send_broadcast T m s = Some (e, s')" "stream_contract T" "writer_shape anns w0 s"
  obtains (ok) b where "e = None" "AnnounceBroadcast_Encode m = Some b" "\<not> anw_closed (ag_writer s)"
      "s' = on_writer (\<lambda>w. w\<lparr>anw_stream := anw_stream (ag_writer s) @ [Wrote b]\<rparr>) s"
  | (failed) b x where "e = Some x"
      "s' = on_writer (\<lambda>w. w\<lparr>anw_stream := anw_stream (ag_writer s) @ [WriteFailed b x]\<rparr>) s"
proof -
  obtain b where b: "AnnounceBroadcast_Encode m = Some b"
      "(e, s') = (case Stream_Write T b (anw_stream (ag_writer s)) of (e, log) \<Rightarrow> (e, on_writer (\<lambda>w. w\<lparr>anw_stream := log\<rparr>) s))"
    using assms(1) by (auto simp: send_broadcast_def bind_Some_eq Let_def split_beta)
  obtain e1 log where w: "Stream_Write T b (anw_stream (ag_writer s)) = (e1, log)" by fastforce
  show thesis
  proof (cases rule: Stream_Write_cases [OF w])
    case 1
    moreover have "\<not> anw_closed (ag_writer s)"
      using write_contract [OF assms(2) 1(3)] assms(3) by (simp add: writer_shape_def)
    ultimately show ?thesis using b w ok by simp
  next
    case (2 x)
    then show ?thesis using b w failed by simp
  qed
qed

lemma told_snoc_active: "am_AnnounceStatus m = ACTIVE \<Longrightarrow> told (ms @ [m]) = (told ms)(am_BroadcastPathSuffix m \<mapsto> am_HopIDs m)"
  by (simp add: told_snoc told_step_def)

lemma told_snoc_ended: "am_AnnounceStatus m = ENDED \<Longrightarrow> told (ms @ [m]) = (told ms)(am_BroadcastPathSuffix m := None)"
  by (simp add: told_snoc told_step_def ACTIVE_def ENDED_def)

text \<open>The messages after one more: only what they tell has to be looked at.\<close>

lemma telling_snoc:
  assumes "telling anns w0 s ms" "AnnounceBroadcast_Encode m = Some b" "proper anns w0 m" "legal m (told ms)"
    "anw_stream (ag_writer s') = anw_stream (ag_writer s) @ [Wrote b]"
    "\<And>sfx act. map_of (anw_actives (ag_writer s')) sfx = Some act \<Longrightarrow> sfx \<notin> todo_keys s' \<Longrightarrow>
       told (ms @ [m]) sfx = Some (an_hopIDs (anns (ac_announcement act)))"
    "\<And>sfx. \<not> anw_closed (ag_writer s') \<Longrightarrow> \<not> ag_over s' \<Longrightarrow>
       map_of (anw_actives (ag_writer s')) sfx = None \<or> sfx \<in> todo_keys s' \<Longrightarrow> told (ms @ [m]) sfx = None"
  shows "telling anns w0 s' (ms @ [m])"
proof -
  obtain k okb mb where "AnnounceOk_Encode \<lparr>aom_HopID = anw_localHopID w0, aom_ActiveCount = k\<rparr> = Some okb"
      "broadcasts_enc ms = Some mb" "written (anw_stream (ag_writer s)) = okb @ mb"
    using assms(1) by (auto simp: telling_def)
  then have "AnnounceOk_Encode \<lparr>aom_HopID = anw_localHopID w0, aom_ActiveCount = k\<rparr> = Some okb \<and>
      broadcasts_enc (ms @ [m]) = Some (mb @ b) \<and> written (anw_stream (ag_writer s')) = okb @ mb @ b"
    using assms(2,5) by (simp add: broadcasts_enc_append)
  moreover have "\<forall>x\<in>set (ms @ [m]). proper anns w0 x" "legal_from Map.empty (ms @ [m])"
    using assms(1,3,4) by (auto simp: telling_def legal_from_append told_def)
  ultimately show ?thesis using assms(6,7) unfolding telling_def by blast
qed

text \<open>After the writer is closed nothing more is told.\<close>

lemma telling_closed:
  assumes "telling anns w0 s ms" "anw_closed (ag_writer s')" "anw_actives (ag_writer s') = []"
    "written (anw_stream (ag_writer s')) = written (anw_stream (ag_writer s))"
  shows "telling anns w0 s' ms"
  using assms unfolding telling_def by simp

lemma write_failed_inv:
  assumes "ann_inv anns w0 s" "shape anns w0 s'" "anw_stream (ag_writer s') = anw_stream (ag_writer s) @ [WriteFailed b x]"
    "anw_closed (ag_writer s') = anw_closed (ag_writer s)" "anw_initStarted (ag_writer s')"
    "anw_closed (ag_writer s) \<Longrightarrow> anw_initErr (ag_writer s') \<noteq> None \<and> ag_todo s' = [] \<or> ag_todo s' = ag_todo s \<and>
       anw_initDone (ag_writer s') = anw_initDone (ag_writer s) \<and> anw_initErr (ag_writer s') = anw_initErr (ag_writer s) \<and>
       anw_initStarted (ag_writer s)"
  shows "ann_inv anns w0 s'"
proof (cases "torn (anw_stream (ag_writer s'))")
  case True
  then show ?thesis using assms(2,5) by (simp add: ann_inv_def)
next
  case False
  then have t: "\<not> torn (anw_stream (ag_writer s))" "send_over (anw_stream (ag_writer s))"
    using assms(3) by auto
  then have c: "anw_closed (ag_writer s)" "anw_closed (ag_writer s')" "anw_actives (ag_writer s') = []" "anw_actives (ag_writer s) = []"
    using assms(1,2,4) by (auto simp: ann_inv_def shape_def writer_shape_def)
  have w: "written (anw_stream (ag_writer s')) = written (anw_stream (ag_writer s))" using assms(3) by simp
  have "silent s \<or> (\<exists>ms. telling anns w0 s ms)" using assms(1) t(1) by (auto simp: ann_inv_def)
  then show ?thesis
  proof
    assume "silent s"
    then have "silent s'" using c w assms(6) by (auto simp: silent_def)
    then show ?thesis using assms(2,5) by (simp add: ann_inv_def)
  next
    assume "\<exists>ms. telling anns w0 s ms"
    then show ?thesis using telling_closed [OF _ c(2,3) w] assms(2,5) by (auto simp: ann_inv_def)
  qed
qed

section \<open>The invariant along the steps\<close>

lemma shape_simps:
  "same_anns anns f \<Longrightarrow> an_path (f a) = an_path (anns a)" "same_anns anns f \<Longrightarrow> an_hopIDs (f a) = an_hopIDs (anns a)"
  by (simp_all add: same_anns_def)

lemma shouldExclude_same:
  "\<lbrakk>same_anns anns f; same_writer w0 w\<rbrakk> \<Longrightarrow> shouldExclude w (f a) = shouldExclude w0 (anns a)"
  by (simp add: shouldExclude_def same_anns_def same_writer_def)

text \<open>Registering the end handler of an active that was sent.\<close>

lemma register_inv:
  assumes "ann_inv anns w0 s" "sfx \<notin> todo_keys s"
  shows "ann_inv anns w0 (registerEndHandlerLocked sfx a s)"
proof (cases "\<exists>act. map_of (anw_actives (ag_writer s)) sfx = Some act \<and> ac_announcement act = a")
  case False
  then have "registerEndHandlerLocked sfx a s = s" by (auto simp: registerEndHandlerLocked_def split: option.split)
  then show ?thesis using assms(1) by simp
next
  case True
  then obtain act where act: "map_of (anw_actives (ag_writer s)) sfx = Some act" "ac_announcement act = a" by blast
  obtain now handle ann where f: "AfterFunc (RemoveActive sfx (ac_id act)) (ag_anns s a) = (now, handle, ann)"
    by (cases "AfterFunc (RemoveActive sfx (ac_id act)) (ag_anns s a)")
  let ?s1 = "set_ann a ann s\<lparr>ag_running := ag_running s @ now\<rparr>"
  let ?new = "act\<lparr>ac_stop := Some handle\<rparr>"
  let ?s' = "on_writer (\<lambda>w. w\<lparr>anw_actives := AList.update sfx ?new (anw_actives w)\<rparr>) ?s1"
  have s': "registerEndHandlerLocked sfx a s = ?s'"
    using act f by (simp add: registerEndHandlerLocked_def set_ann_def)
  have m: "map_of (AList.update sfx ?new (anw_actives (ag_writer s))) = (map_of (anw_actives (ag_writer s)))(sfx \<mapsto> ?new)"
    by (rule update_conv')
  have cb: "callbacks ?s' \<subseteq> insert (RemoveActive sfx (ac_id act)) (callbacks s)"
    using AfterFunc_callbacks [OF f] by (simp add: callbacks_def set_ann_def)
  have sh: "shape anns w0 s" using assms(1) by (simp add: ann_inv_def)
  have "same_anns (ag_anns s) (ag_anns ?s')"
    using AfterFunc_simps [of "RemoveActive sfx (ac_id act)" "ag_anns s a"] f by (simp add: same_anns_upd)
  then have "same_anns anns (ag_anns ?s')" using sh by (simp add: shape_def same_anns_def)
  moreover have "writer_shape anns w0 ?s'"
  proof -
    have w: "writer_shape anns w0 s" using sh by (simp add: shape_def)
    have c: "\<not> anw_closed (ag_writer s)" "anw_initStarted (ag_writer s)"
      using w act(1) by (auto simp: writer_shape_def)
    have "t \<noteq> sfx" if "(t, b) \<in> set (ag_todo s)" for t b using that assms(2) by (force simp: todo_keys_def)
    then have "\<forall>(t, b) \<in> set (ag_todo s). \<exists>x. map_of (anw_actives (ag_writer ?s')) t = Some x \<and> ac_announcement x = b"
      using w c unfolding writer_shape_def by (fastforce simp: m)
    moreover have "\<forall>t x. map_of (anw_actives (ag_writer ?s')) t = Some x \<longrightarrow> announced anns w0 t (ac_announcement x) \<and> ac_id x < ag_next s"
      using w act unfolding writer_shape_def by (auto simp: m)
    moreover have "distinct (map fst (anw_actives (ag_writer ?s')))" using w by (simp add: writer_shape_def distinct_update)
    ultimately show ?thesis using w c unfolding writer_shape_def by (simp add: same_writer_def)
  qed
  moreover have "callbacks_fit ?s'"
    unfolding callbacks_fit_def
  proof (intro allI impI)
    fix t i assume "RemoveActive t i \<in> callbacks ?s'"
    then have c: "RemoveActive t i \<in> callbacks s \<or> t = sfx \<and> i = ac_id act" using cb by auto
    have "i < ag_next s" using c act(1) sh by (auto simp: shape_def writer_shape_def callbacks_fit_def)
    moreover have "ac_id act' \<noteq> i" if t: "t \<in> todo_keys s" "map_of (anw_actives (ag_writer ?s')) t = Some act'" for act'
    proof -
      have "t \<noteq> sfx" using assms(2) t(1) by blast
      then have "map_of (anw_actives (ag_writer s)) t = Some act'" "RemoveActive t i \<in> callbacks s"
        using t(2) m c by auto
      then show ?thesis using sh t(1) by (auto simp: shape_def callbacks_fit_def)
    qed
    ultimately show "i < ag_next ?s' \<and> (t \<in> todo_keys ?s' \<longrightarrow>
        (\<forall>act. map_of (anw_actives (ag_writer ?s')) t = Some act \<longrightarrow> ac_id act \<noteq> i))"
      by (simp add: todo_keys_def set_ann_def)
  qed
  ultimately have "shape anns w0 ?s'" by (simp add: shape_def)
  moreover have "telling anns w0 ?s' ms" if "telling anns w0 s ms" for ms
    using that act unfolding telling_def by (auto simp: m todo_keys_def)
  moreover have "\<not> silent s" using act by (auto simp: silent_def)
  ultimately have "ann_inv anns w0 ?s'" using assms(1) unfolding ann_inv_def by auto
  then show ?thesis using s' by simp
qed

text \<open>Taking a suffix out of the actives keeps the shape.\<close>

lemma delete_shape:
  assumes "shape anns w0 s" "\<not> anw_closed (ag_writer s)" "sfx \<notin> todo_keys s"
    "ag_anns s' = ag_anns s" "ag_next s' = ag_next s" "ag_todo s' = ag_todo s" "ag_sending s' = ag_sending s" "ag_running s' = ag_running s"
    "ag_writer s' = (ag_writer s)\<lparr>anw_actives := AList.delete sfx (anw_actives (ag_writer s)), anw_stream := log\<rparr>"
    "send_over log = send_over (anw_stream (ag_writer s))"
  shows "shape anns w0 s'"
proof -
  have w: "writer_shape anns w0 s" using assms(1) by (simp add: shape_def)
  have m: "map_of (anw_actives (ag_writer s')) = (map_of (anw_actives (ag_writer s)))(sfx := None)"
    by (simp add: assms(9) delete_conv')
  have st: "anw_actives (ag_writer s) = [] \<longrightarrow> anw_actives (ag_writer s') = []" by (simp add: assms(9))
  have "t \<noteq> sfx" if "(t, b) \<in> set (ag_todo s)" for t b using that assms(3) by (force simp: todo_keys_def)
  then have "\<forall>(t, b) \<in> set (ag_todo s). \<exists>x. map_of (anw_actives (ag_writer s')) t = Some x \<and> ac_announcement x = b"
    using w assms(2) unfolding writer_shape_def by (fastforce simp: m)
  moreover have "\<forall>t x. map_of (anw_actives (ag_writer s')) t = Some x \<longrightarrow> announced anns w0 t (ac_announcement x) \<and> ac_id x < ag_next s"
    using w unfolding writer_shape_def by (auto simp: m)
  moreover have "distinct (map fst (anw_actives (ag_writer s')))" using w by (simp add: writer_shape_def assms(9) distinct_delete)
  ultimately have "writer_shape anns w0 s'"
    using w assms(2,10) st unfolding writer_shape_def by (simp add: same_writer_def assms(5-7,9))
  moreover have "callbacks s' = callbacks s" by (simp add: callbacks_def assms(4,8))
  then have "callbacks_fit s'"
    using assms(1) by (simp add: shape_def callbacks_fit_def todo_keys_def m assms(5,6))
  ultimately show ?thesis using assms(1,4) by (simp add: shape_def)
qed

lemma remove_active_inv:
  assumes "ann_inv anns w0 s" "stream_contract T" "remove_active T sfx i s = Some s'"
    "\<And>act. map_of (anw_actives (ag_writer s)) sfx = Some act \<Longrightarrow> ac_id act = i \<Longrightarrow> sfx \<notin> todo_keys s"
  shows "ann_inv anns w0 s'"
proof (cases "map_option ac_id (map_of (anw_actives (ag_writer s)) sfx) = Some i")
  case False
  then have "s' = s" using assms(3) by (simp only: remove_active_def if_False option.inject)
  then show ?thesis using assms(1) by simp
next
  case True
  then obtain act where act: "map_of (anw_actives (ag_writer s)) sfx = Some act" "ac_id act = i" by auto
  have nt: "sfx \<notin> todo_keys s" by (rule assms(4) [OF act])
  have sh: "shape anns w0 s" using assms(1) by (simp add: ann_inv_def)
  then have w: "writer_shape anns w0 s" by (simp add: shape_def)
  have nc: "\<not> anw_closed (ag_writer s)" and st: "anw_initStarted (ag_writer s)" using w act(1) by (auto simp: writer_shape_def)
  have ns: "\<not> silent s" using act(1) by (auto simp: silent_def)
  let ?s1 = "on_writer (\<lambda>w. w\<lparr>anw_actives := AList.delete sfx (anw_actives w)\<rparr>) s"
  have m: "map_of (anw_actives (ag_writer ?s1)) = (map_of (anw_actives (ag_writer s)))(sfx := None)"
    by (simp add: delete_conv')
  show ?thesis
  proof (cases "t_done T (anw_stream (ag_writer s))")
    case (Some e)
    then have s': "s' = ?s1\<lparr>ag_over := True\<rparr>" using assms(3) True by (simp add: remove_active_def sendEndedLocked_def)
    have "shape anns w0 s'"
      by (rule delete_shape [OF sh nc nt, where log = "anw_stream (ag_writer s)"]) (simp_all add: s')
    moreover have "telling anns w0 s' ms" if "telling anns w0 s ms" for ms
      using that unfolding telling_def by (simp add: s' todo_keys_def delete_conv')
    ultimately show ?thesis using assms(1) ns st unfolding ann_inv_def by (auto simp: s')
  next
    case None
    let ?m = "\<lparr>am_AnnounceStatus = ENDED, am_BroadcastPathSuffix = sfx, am_HopIDs = []\<rparr>"
    obtain e where e: "send_broadcast T ?m ?s1 = Some (e, s')"
      using assms(3) True None by (auto simp: remove_active_def sendEndedLocked_def)
    have "shape anns w0 ?s1"
      by (rule delete_shape [OF sh nc nt, where log = "anw_stream (ag_writer s)"]) simp_all
    then have w1: "writer_shape anns w0 ?s1" by (simp add: shape_def)
    show ?thesis
    proof (cases rule: send_broadcast_cases [OF e assms(2) w1])
      case (1 b)
      have "shape anns w0 s'"
        by (rule delete_shape [OF sh nc nt, where log = "anw_stream (ag_writer s) @ [Wrote b]"]) (simp_all add: 1(4))
      moreover have "\<exists>ms. telling anns w0 s' ms" if "telling anns w0 s ms" for ms
      proof -
        have v: "told ms sfx = Some (an_hopIDs (anns (ac_announcement act)))"
          using that act(1) nt unfolding telling_def by blast
        have "announced anns w0 sfx (ac_announcement act)" using w act(1) unfolding writer_shape_def by blast
        then have p: "proper anns w0 ?m" by (auto simp: proper_def)
        have lg: "legal ?m (told ms)" using v by (simp add: legal_def)
        have log: "anw_stream (ag_writer s') = anw_stream (ag_writer s) @ [Wrote b]" using 1(4) by simp
        have m': "map_of (anw_actives (ag_writer s')) = (map_of (anw_actives (ag_writer s)))(sfx := None)"
          "todo_keys s' = todo_keys s" "anw_closed (ag_writer s') = anw_closed (ag_writer s)" "ag_over s' = ag_over s"
          by (simp_all add: 1(4) delete_conv' todo_keys_def)
        have "telling anns w0 s' (ms @ [?m])"
          by (rule telling_snoc [OF that 1(2) p lg log])
            (use that in \<open>auto simp: told_snoc_ended telling_def m' split: if_splits\<close>)
        then show ?thesis by blast
      qed
      ultimately show ?thesis using assms(1) ns st unfolding ann_inv_def by (auto simp: 1(4))
    next
      case (2 b x)
      have "shape anns w0 s'"
        by (rule delete_shape [OF sh nc nt, where log = "anw_stream (ag_writer s) @ [WriteFailed b x]"]) (simp_all add: 2(2))
      then show ?thesis
        by (rule write_failed_inv [OF assms(1), where b = b and x = x]) (use nc st in \<open>simp_all add: 2(2)\<close>)
    qed
  qed
qed

lemma end_active_inv:
  assumes "ann_inv anns w0 s" "stream_contract T" "end_active T sfx old s = Some s'" "todo_keys s = {}"
  shows "ann_inv anns w0 s'"
proof (cases "ac_stop old")
  case None
  then show ?thesis using assms(1,3) by (simp add: end_active_def)
next
  case (Some handle)
  let ?a = "ac_announcement old"
  let ?s = "set_ann ?a (snd (stop handle (ag_anns s ?a))) s"
  have i: "ann_inv anns w0 ?s"
    by (rule ann_inv_callbacks [OF assms(1)])
      (use stop_callbacks [of ?a handle s] in \<open>auto simp: same_anns_upd\<close>)
  have "s' = ?s \<or> remove_active T sfx (ac_id old) ?s = Some s'"
    using assms(3) Some by (simp add: end_active_def split_beta Let_def split: if_splits)
  then show ?thesis using i remove_active_inv [OF i assms(2)] assms(4) by (auto simp: todo_keys_def)
qed

lemma shape_log:
  assumes "shape anns w0 s" "ag_anns s' = ag_anns s" "ag_next s' = ag_next s" "ag_todo s' = ag_todo s" "ag_sending s' = ag_sending s"
    "ag_running s' = ag_running s" "ag_writer s' = (ag_writer s)\<lparr>anw_stream := log\<rparr>"
    "send_over log = send_over (anw_stream (ag_writer s))"
  shows "shape anns w0 s'"
  using assms unfolding shape_def writer_shape_def callbacks_fit_def todo_keys_def callbacks_def same_writer_def
  by simp

lemma init_done_inv:
  assumes "ann_inv anns w0 s" "anw_initStarted (ag_writer s)" "ag_sending s = []" "\<not> silent s"
  shows "ann_inv anns w0 (on_writer (\<lambda>w. w\<lparr>anw_initDone := (ag_todo s = [])\<rparr>) s)"
proof -
  let ?s = "on_writer (\<lambda>w. w\<lparr>anw_initDone := (ag_todo s = [])\<rparr>) s"
  have "shape anns w0 ?s"
    using assms(1-3) unfolding ann_inv_def shape_def writer_shape_def callbacks_fit_def
    by (simp add: todo_keys_def same_writer_def)
  moreover have "telling anns w0 ?s ms = telling anns w0 s ms" for ms by (simp add: telling_def todo_keys_def)
  ultimately show ?thesis using assms unfolding ann_inv_def by auto
qed

text \<open>One round of the loop of init.\<close>

lemma init_next_inv:
  assumes "ann_inv anns w0 s" "stream_contract T" "init_next T s = Some s'"
  shows "ann_inv anns w0 s'"
proof (cases "ag_todo s")
  case Nil
  then show ?thesis using assms(1,3) by (simp add: init_next_def)
next
  case (Cons x rest)
  obtain sfx a where x: "x = (sfx, a)" by (cases x)
  have sh: "shape anns w0 s" using assms(1) by (simp add: ann_inv_def)
  then have w: "writer_shape anns w0 s" and sa: "same_anns anns (ag_anns s)" by (simp_all add: shape_def)
  have st: "anw_initStarted (ag_writer s)" "\<not> anw_initDone (ag_writer s)" "ag_sending s = []" "\<not> silent s"
    using w Cons by (auto simp: writer_shape_def silent_def)
  have fresh: "sfx \<notin> fst ` set rest" using w Cons x by (simp add: writer_shape_def)
  let ?m = "\<lparr>am_AnnounceStatus = ACTIVE, am_BroadcastPathSuffix = sfx, am_HopIDs = buildHopIDs (ag_anns s a)\<rparr>"
  obtain e s1 where e: "send_broadcast T ?m s = Some (e, s1)"
    using assms(3) Cons x by (auto simp: init_next_def bind_Some_eq)
  show ?thesis
  proof (cases rule: send_broadcast_cases [OF e assms(2) w])
    case (1 b)
    let ?s2 = "s1\<lparr>ag_todo := rest\<rparr>"
    have s': "s' = on_writer (\<lambda>w. w\<lparr>anw_initDone := (rest = [])\<rparr>) (registerEndHandlerLocked sfx a ?s2)"
      using assms(3) Cons x e 1(1) by (simp add: init_next_def)
    obtain act where act: "map_of (anw_actives (ag_writer s)) sfx = Some act" "ac_announcement act = a"
      using w 1(3) Cons x unfolding writer_shape_def by auto
    have "writer_shape anns w0 ?s2"
      using w st Cons 1(3) unfolding writer_shape_def by (simp add: 1(4) same_writer_def)
    moreover have "callbacks_fit ?s2"
      using sh Cons unfolding shape_def callbacks_fit_def by (auto simp: 1(4) todo_keys_def callbacks_def)
    ultimately have "shape anns w0 ?s2" using sa by (simp add: shape_def 1(4))
    moreover have "\<exists>ms. telling anns w0 ?s2 ms" if "telling anns w0 s ms" for ms
    proof -
      have p: "proper anns w0 ?m"
        using w Cons x shape_simps(2) [OF sa] by (auto simp: proper_def writer_shape_def buildHopIDs_def)
      have log: "anw_stream (ag_writer ?s2) = anw_stream (ag_writer s) @ [Wrote b]" by (simp add: 1(4))
      have "telling anns w0 ?s2 (ms @ [?m])"
        by (rule telling_snoc [OF that 1(2) p _ log])
          (use that act Cons x fresh in \<open>auto simp: legal_def told_snoc_active telling_def todo_keys_def 1(4) buildHopIDs_def
             shape_simps(2) [OF sa] split: if_splits\<close>)
      then show ?thesis by blast
    qed
    ultimately have "ann_inv anns w0 ?s2" using assms(1) st unfolding ann_inv_def by (auto simp: 1(4))
    then have i: "ann_inv anns w0 (registerEndHandlerLocked sfx a ?s2)"
      by (rule register_inv) (use fresh in \<open>simp add: todo_keys_def\<close>)
    have r: "ag_todo (registerEndHandlerLocked sfx a ?s2) = rest" "ag_sending (registerEndHandlerLocked sfx a ?s2) = []"
        "anw_initStarted (ag_writer (registerEndHandlerLocked sfx a ?s2))"
        "anw_stream (ag_writer (registerEndHandlerLocked sfx a ?s2)) = anw_stream (ag_writer s) @ [Wrote b]"
      using st by (auto simp: registerEndHandlerLocked_def 1(4) split: option.splits prod.splits)
    have act': "anw_actives (ag_writer (registerEndHandlerLocked sfx a ?s2)) \<noteq> []"
      using act by (auto simp: registerEndHandlerLocked_def 1(4) update_conv' split: option.splits prod.splits
          dest: arg_cong [where f = map_of])
    show ?thesis using init_done_inv [OF i r(3,2)] act' r(1) by (simp add: s' silent_def)
  next
    case (2 b y)
    let ?s2 = "s1\<lparr>ag_todo := []\<rparr>"
    have s': "s' = init_failed (announce_failure_of y) ?s2"
      using assms(3) Cons x e 2(1) by (simp add: init_next_def)
    have "shape anns w0 s'"
      using sh st unfolding shape_def writer_shape_def callbacks_fit_def
      by (simp add: s' 2(2) init_failed_def todo_keys_def same_writer_def callbacks_def)
    then show ?thesis
      by (rule write_failed_inv [OF assms(1), where b = b and x = y])
        (use st in \<open>simp_all add: s' 2(2) init_failed_def\<close>)
  qed
qed

text \<open>The end of SendAnnouncement.\<close>

lemma send_finish_inv:
  assumes "ann_inv anns w0 s" "stream_contract T" "ag_sending s = xs @ (sfx, a, None) # ys" "send_finish T sfx a s = Some (r, s')"
  shows "ann_inv anns w0 s'"
proof (cases "anw_closed (ag_writer s)")
  case True
  then show ?thesis using assms(1,4) by (simp add: send_finish_def)
next
  case nc: False
  have sh: "shape anns w0 s" using assms(1) by (simp add: ann_inv_def)
  then have w: "writer_shape anns w0 s" and sa: "same_anns anns (ag_anns s)" by (simp_all add: shape_def)
  have st: "anw_initStarted (ag_writer s)" "ag_todo s = []" "todo_keys s = {}" "\<not> silent s"
    using w assms(3) by (auto simp: writer_shape_def silent_def todo_keys_def)
  have an: "announced anns w0 sfx a" using w assms(3) by (auto simp: writer_shape_def)
  let ?m = "\<lparr>am_AnnounceStatus = ACTIVE, am_BroadcastPathSuffix = sfx, am_HopIDs = buildHopIDs (ag_anns s a)\<rparr>"
  obtain e s1 where e: "send_broadcast T ?m s = Some (e, s1)"
    using assms(4) nc by (auto simp: send_finish_def bind_Some_eq)
  show ?thesis
  proof (cases rule: send_broadcast_cases [OF e assms(2) w])
    case (1 b)
    let ?act = "\<lparr>ac_id = ag_next s, ac_announcement = a, ac_stop = None\<rparr>"
    let ?s2 = "on_writer (\<lambda>w. w\<lparr>anw_actives := AList.update sfx ?act (anw_actives w)\<rparr>) (s1\<lparr>ag_next := Suc (ag_next s)\<rparr>)"
    have s': "s' = registerEndHandlerLocked sfx a ?s2"
      using assms(4) nc e 1(1) by (simp add: send_finish_def) (simp add: 1(4))
    have m: "map_of (anw_actives (ag_writer ?s2)) = (map_of (anw_actives (ag_writer s)))(sfx \<mapsto> ?act)"
      by (simp add: 1(4) update_conv')
    have "\<forall>t x. map_of (anw_actives (ag_writer ?s2)) t = Some x \<longrightarrow> announced anns w0 t (ac_announcement x) \<and> ac_id x < Suc (ag_next s)"
      using w an unfolding writer_shape_def m by (auto simp: less_Suc_eq)
    moreover have "distinct (map fst (anw_actives (ag_writer ?s2)))"
      using w by (simp add: writer_shape_def distinct_update 1(4))
    ultimately have "writer_shape anns w0 ?s2"
      using w nc st unfolding writer_shape_def by (simp add: 1(4) same_writer_def)
    moreover have "callbacks_fit ?s2"
      using sh st unfolding shape_def callbacks_fit_def by (auto simp: 1(4) todo_keys_def callbacks_def less_Suc_eq)
    ultimately have "shape anns w0 ?s2" using sa by (simp add: shape_def 1(4))
    moreover have "\<exists>ms. telling anns w0 ?s2 ms" if "telling anns w0 s ms" for ms
    proof -
      have p: "proper anns w0 ?m" using an shape_simps(2) [OF sa] by (auto simp: proper_def buildHopIDs_def)
      have log: "anw_stream (ag_writer ?s2) = anw_stream (ag_writer s) @ [Wrote b]" by (simp add: 1(4))
      have "telling anns w0 ?s2 (ms @ [?m])"
        by (rule telling_snoc [OF that 1(2) p _ log])
          (use that st in \<open>auto simp: legal_def told_snoc_active telling_def update_conv' 1(4) todo_keys_def buildHopIDs_def
             shape_simps(2) [OF sa] split: if_splits\<close>)
      then show ?thesis by blast
    qed
    ultimately have "ann_inv anns w0 ?s2" using assms(1) st unfolding ann_inv_def by (auto simp: 1(4))
    then show ?thesis unfolding s' by (rule register_inv) (use st in \<open>simp add: todo_keys_def 1(4)\<close>)
  next
    case (2 b y)
    have s': "s' = s1" using assms(4) nc e 2(1) by (simp add: send_finish_def)
    have "shape anns w0 s'"
      by (rule shape_log [OF sh, where log = "anw_stream (ag_writer s) @ [WriteFailed b y]"]) (simp_all add: s' 2(2))
    then show ?thesis
      by (rule write_failed_inv [OF assms(1), where b = b and x = y]) (use st in \<open>simp_all add: s' 2(2)\<close>)
  qed
qed

text \<open>The beginning of init.\<close>

lemma collect_actives_inv:
  assumes "collect_actives w anns as acts free = (acts', free')" "distinct (map fst acts)"
    "\<forall>(sfx, act) \<in> set acts. GetSuffix (an_path (anns (ac_announcement act))) (anw_prefix w) = (sfx, True) \<and>
       \<not> shouldExclude w (anns (ac_announcement act)) \<and> low \<le> ac_id act \<and> ac_id act < free" "low \<le> free"
  shows "distinct (map fst acts') \<and> low \<le> free' \<and>
    (\<forall>(sfx, act) \<in> set acts'. GetSuffix (an_path (anns (ac_announcement act))) (anw_prefix w) = (sfx, True) \<and>
       \<not> shouldExclude w (anns (ac_announcement act)) \<and> low \<le> ac_id act \<and> ac_id act < free')"
  using assms
proof (induction as arbitrary: acts free)
  case (Cons a as)
  obtain sfx ok where g: "GetSuffix (an_path (anns a)) (anw_prefix w) = (sfx, ok)" by fastforce
  show ?case
  proof (cases "an_active (anns a) \<and> ok \<and> \<not> shouldExclude w (anns a)")
    case True
    let ?act = "\<lparr>ac_id = free, ac_announcement = a, ac_stop = None\<rparr>"
    have "collect_actives w anns as (AList.update sfx ?act acts) (Suc free) = (acts', free')"
      using Cons.prems(1) True g by (simp add: Let_def)
    moreover have "distinct (map fst (AList.update sfx ?act acts))" using Cons.prems(2) by (rule distinct_update)
    moreover have "\<forall>(t, act) \<in> set (AList.update sfx ?act acts).
        GetSuffix (an_path (anns (ac_announcement act))) (anw_prefix w) = (t, True) \<and>
        \<not> shouldExclude w (anns (ac_announcement act)) \<and> low \<le> ac_id act \<and> ac_id act < Suc free"
    proof (intro ballI, clarify)
      fix t act assume "(t, act) \<in> set (AList.update sfx ?act acts)"
      then have "map_of (AList.update sfx ?act acts) t = Some act"
        using distinct_update [OF Cons.prems(2)] by (simp add: map_of_eq_Some_iff)
      then have "t = sfx \<and> act = ?act \<or> (t, act) \<in> set acts"
        by (auto simp: update_conv' split: if_splits dest: map_of_SomeD)
      then show "GetSuffix (an_path (anns (ac_announcement act))) (anw_prefix w) = (t, True) \<and>
          \<not> shouldExclude w (anns (ac_announcement act)) \<and> low \<le> ac_id act \<and> ac_id act < Suc free"
        using Cons.prems(3,4) g True by auto
    qed
    ultimately show ?thesis using Cons.IH [of "AList.update sfx ?act acts" "Suc free"] Cons.prems(4) by simp
  next
    case False
    then have "collect_actives w anns as acts free = (acts', free')"
      using Cons.prems(1) g by (auto simp: Let_def split: bool.splits if_splits)
    then show ?thesis using Cons.IH Cons.prems by blast
  qed
qed simp

lemma init_begin_inv:
  assumes "ann_inv anns w0 s" "stream_contract T" "init_begin T as s = Some s'"
  shows "ann_inv anns w0 s'"
proof -
  let ?w = "ag_writer s"
  have sh: "shape anns w0 s" using assms(1) by (simp add: ann_inv_def)
  then have w: "writer_shape anns w0 s" and sa: "same_anns anns (ag_anns s)" by (simp_all add: shape_def)
  let ?s0 = "on_writer (\<lambda>w. w\<lparr>anw_initStarted := True\<rparr>) s"
  show ?thesis
  proof (cases "anw_initStarted ?w")
    case True
    then have "s' = ?s0" using assms(3) by (simp add: init_begin_def Let_def)
    also have "?s0 = s" using True by (cases s; cases ?w) (simp add: on_writer_def)
    finally show ?thesis using assms(1) by simp
  next
    case False
    then have st: "anw_actives ?w = []" "ag_todo s = []" "\<not> anw_initDone ?w" "ag_sending s = []" "written (anw_stream ?w) = []"
      using w assms(1) by (auto simp: writer_shape_def ann_inv_def)
    have failed: "ann_inv anns w0 (init_failed e ?s0)" for e
    proof -
      have "shape anns w0 (init_failed e ?s0)"
        using sh st unfolding shape_def writer_shape_def callbacks_fit_def
        by (simp add: init_failed_def same_writer_def todo_keys_def)
      moreover have "silent (init_failed e ?s0)" using st by (simp add: silent_def init_failed_def)
      ultimately show ?thesis by (simp add: ann_inv_def init_failed_def)
    qed
    obtain acts free where c: "collect_actives ?w (ag_anns s) as [] (ag_next s) = (acts, free)" by fastforce
    note ci = collect_actives_inv [OF c, of "ag_next s"]
    show ?thesis
    proof (cases "t_done T (anw_stream ?w) = None \<and> \<not> anw_closed ?w")
      case False
      then show ?thesis using assms(3) failed \<open>\<not> anw_initStarted ?w\<close> c
        by (auto simp: init_begin_def Let_def split: option.splits)
    next
      case True
      obtain b where b: "AnnounceOk_Encode \<lparr>aom_HopID = anw_localHopID ?w, aom_ActiveCount = of_nat (length acts)\<rparr> = Some b"
        using assms(3) True \<open>\<not> anw_initStarted ?w\<close> c by (auto simp: init_begin_def Let_def bind_Some_eq)
      obtain e log where l: "Stream_Write T b (anw_stream ?w) = (e, log)" by fastforce
      let ?s1 = "on_writer (\<lambda>w. w\<lparr>anw_actives := acts, anw_stream := log\<rparr>) (?s0\<lparr>ag_next := free\<rparr>)"
      let ?todo = "map (\<lambda>(sfx, ac). (sfx, ac_announcement ac)) acts"
      have d: "distinct (map fst acts)" and low: "ag_next s \<le> free" and each:
        "\<And>sfx act. (sfx, act) \<in> set acts \<Longrightarrow> announced anns w0 sfx (ac_announcement act) \<and> ag_next s \<le> ac_id act \<and> ac_id act < free"
      proof -
        have sw: "same_writer w0 ?w" using w by (simp add: writer_shape_def)
        have ci': "distinct (map fst acts) \<and> ag_next s \<le> free \<and>
          (\<forall>(sfx, act) \<in> set acts. GetSuffix (an_path (ag_anns s (ac_announcement act))) (anw_prefix ?w) = (sfx, True) \<and>
             \<not> shouldExclude ?w (ag_anns s (ac_announcement act)) \<and> ag_next s \<le> ac_id act \<and> ac_id act < free)"
          by (rule ci) simp_all
        then show "distinct (map fst acts)" "ag_next s \<le> free" by simp_all
        fix sfx act assume "(sfx, act) \<in> set acts"
        with ci' have "GetSuffix (an_path (ag_anns s (ac_announcement act))) (anw_prefix ?w) = (sfx, True) \<and>
             \<not> shouldExclude ?w (ag_anns s (ac_announcement act)) \<and> ag_next s \<le> ac_id act \<and> ac_id act < free" by blast
        then show "announced anns w0 sfx (ac_announcement act) \<and> ag_next s \<le> ac_id act \<and> ac_id act < free"
          using shouldExclude_same [OF sa sw] shape_simps(1) [OF sa] sw by (simp add: announced_def same_writer_def)
      qed
      have so: "send_over log = send_over (anw_stream ?w)" and nt: "e \<noteq> None \<Longrightarrow> torn log"
        using l True w by (auto simp: Stream_Write_def writer_shape_def split: option.splits)
      have sh1: "shape anns w0 (on_writer (\<lambda>w. w\<lparr>anw_initDone := dn, anw_initErr := er\<rparr>) (?s1\<lparr>ag_todo := td\<rparr>))"
        if "td = [] \<or> td = ?todo \<and> (dn \<longrightarrow> acts = [])" for dn er td
      proof -
        let ?s2 = "on_writer (\<lambda>w. w\<lparr>anw_initDone := dn, anw_initErr := er\<rparr>) (?s1\<lparr>ag_todo := td\<rparr>)"
        have "\<forall>(sfx, a) \<in> set td. announced anns w0 sfx a \<and> (\<exists>act. map_of acts sfx = Some act \<and> ac_announcement act = a)"
          using that each d by (fastforce simp: map_of_eq_Some_iff)
        moreover have "distinct (map fst td)" using that d by (auto simp: o_def split_beta)
        moreover have "\<forall>sfx act. map_of acts sfx = Some act \<longrightarrow> announced anns w0 sfx (ac_announcement act) \<and> ac_id act < free"
          using each by (auto dest: map_of_SomeD)
        moreover have "dn \<longrightarrow> td = []" using that by auto
        ultimately have "writer_shape anns w0 ?s2"
          using w True st d so unfolding writer_shape_def by (auto simp: same_writer_def)
        moreover have "callbacks_fit ?s2"
          unfolding callbacks_fit_def
        proof (intro allI impI)
          fix sfx i assume "RemoveActive sfx i \<in> callbacks ?s2"
          then have "RemoveActive sfx i \<in> callbacks s" by (simp add: callbacks_def)
          then have "i < ag_next s" using sh by (simp add: shape_def callbacks_fit_def)
          then show "i < ag_next ?s2 \<and> (sfx \<in> todo_keys ?s2 \<longrightarrow>
              (\<forall>act. map_of (anw_actives (ag_writer ?s2)) sfx = Some act \<longrightarrow> ac_id act \<noteq> i))"
            using low each by (fastforce dest: map_of_SomeD)
        qed
        ultimately show ?thesis using sa by (simp add: shape_def)
      qed
      show ?thesis
      proof (cases e)
        case None
        then have s': "s' = on_writer (\<lambda>w. w\<lparr>anw_initDone := (?todo = [])\<rparr>) (?s1\<lparr>ag_todo := ?todo\<rparr>)"
          using assms(3) True \<open>\<not> anw_initStarted ?w\<close> c b l by (simp add: init_begin_def Let_def)
        let ?er = "anw_initErr ?w"
        have "s' = on_writer (\<lambda>w. w\<lparr>anw_initDone := (?todo = []), anw_initErr := ?er\<rparr>) (?s1\<lparr>ag_todo := ?todo\<rparr>)"
          by (simp add: s' on_writer_def)
        then have "shape anns w0 s'" using sh1 [of ?todo "?todo = []" ?er] by simp
        moreover have "telling anns w0 s' []"
        proof -
          have "log = anw_stream ?w @ [Wrote b]" using l None by (auto simp: Stream_Write_def split: option.splits)
          then have "written (anw_stream (ag_writer s')) = b" using st by (simp add: s')
          moreover have "AnnounceOk_Encode \<lparr>aom_HopID = anw_localHopID w0, aom_ActiveCount = of_nat (length acts)\<rparr> = Some b"
            using b w by (simp add: writer_shape_def same_writer_def)
          moreover have "sfx \<in> todo_keys s'" if "map_of acts sfx = Some act" for sfx act
            using that by (force simp: s' todo_keys_def dest: map_of_SomeD)
          ultimately show ?thesis unfolding telling_def by (auto simp: s' told_def)
        qed
        ultimately show ?thesis unfolding ann_inv_def by (auto simp: s')
      next
        case (Some x)
        then have s': "s' = init_failed (announce_failure_of x) ?s1"
          using assms(3) True \<open>\<not> anw_initStarted ?w\<close> c b l by (simp add: init_begin_def Let_def)
        have "s' = on_writer (\<lambda>w. w\<lparr>anw_initDone := True, anw_initErr := Some (announce_failure_of x)\<rparr>) (?s1\<lparr>ag_todo := []\<rparr>)"
          using st by (simp add: s' init_failed_def on_writer_def)
        then have "shape anns w0 s'" using sh1 [of "[]"] by simp
        moreover have "torn (anw_stream (ag_writer s'))" using nt Some by (simp add: s' init_failed_def)
        ultimately show ?thesis unfolding ann_inv_def by (simp add: s' init_failed_def)
      qed
    qed
  qed
qed

text \<open>Closing.\<close>

lemma stop_actives_inv:
  "ann_inv anns w0 s \<Longrightarrow> ann_inv anns w0 (stop_actives acts s) \<and> ag_writer (stop_actives acts s) = ag_writer s \<and>
   ag_todo (stop_actives acts s) = ag_todo s"
proof (induction acts arbitrary: s)
  case Nil
  then show ?case by (simp add: stop_actives_def)
next
  case (Cons x acts)
  obtain sfx act where x: "x = (sfx, act)" by (cases x)
  let ?a = "ac_announcement act"
  let ?s = "case ac_stop act of None \<Rightarrow> s | Some h \<Rightarrow> set_ann ?a (snd (stop h (ag_anns s ?a))) s"
  have "ann_inv anns w0 ?s"
  proof (cases "ac_stop act")
    case None
    then show ?thesis using Cons.prems by simp
  next
    case (Some h)
    have "ann_inv anns w0 (set_ann ?a (snd (stop h (ag_anns s ?a))) s)"
      by (rule ann_inv_callbacks [OF Cons.prems]) (use stop_callbacks [of ?a h s] in \<open>auto simp: same_anns_upd\<close>)
    then show ?thesis using Some by simp
  qed
  moreover have "stop_actives (x # acts) s = stop_actives acts ?s" by (simp add: stop_actives_def x)
  ultimately show ?case using Cons.IH [of ?s] by (auto split: option.split)
qed

lemma close_inv:
  assumes "ann_inv anns w0 s" "written log = written (anw_stream (ag_writer s))" "send_over log"
    "torn (anw_stream (ag_writer s)) \<Longrightarrow> torn log"
  shows "ann_inv anns w0 (on_writer (\<lambda>w. w\<lparr>anw_stream := log\<rparr>) (stopAll s))"
proof -
  let ?s1 = "stop_actives (anw_actives (ag_writer s)) s"
  let ?s' = "on_writer (\<lambda>w. w\<lparr>anw_stream := log\<rparr>) (stopAll s)"
  have i: "ann_inv anns w0 ?s1" "ag_writer ?s1 = ag_writer s" "ag_todo ?s1 = ag_todo s"
    using stop_actives_inv [OF assms(1)] by simp_all
  have s': "?s' = on_writer (\<lambda>w. w\<lparr>anw_actives := [], anw_closed := True, anw_stream := log\<rparr>) ?s1"
    by (simp add: stopAll_def on_writer_def)
  have "shape anns w0 ?s'"
    using i(1) assms(3) unfolding s' ann_inv_def shape_def writer_shape_def callbacks_fit_def
    by (simp add: todo_keys_def same_writer_def)
  moreover have "silent ?s'" if "silent s" using that assms(2) i by (simp add: s' silent_def)
  moreover have "telling anns w0 ?s' ms" if "telling anns w0 s ms" for ms
    by (rule telling_closed [OF that]) (simp_all add: s' assms(2))
  ultimately show ?thesis using assms i(2) unfolding ann_inv_def by (auto simp: s')
qed

lemma shape_sending:
  assumes "ann_inv anns w0 s" "\<forall>(sfx, a, old) \<in> set q. announced anns w0 sfx a"
    "q \<noteq> [] \<Longrightarrow> anw_initDone (ag_writer s) \<and> anw_initErr (ag_writer s) = None"
  shows "ann_inv anns w0 (s\<lparr>ag_sending := q\<rparr>)"
proof -
  have "shape anns w0 (s\<lparr>ag_sending := q\<rparr>)"
    using assms unfolding ann_inv_def shape_def writer_shape_def callbacks_fit_def
    by (simp add: todo_keys_def callbacks_def)
  moreover have "telling anns w0 (s\<lparr>ag_sending := q\<rparr>) ms = telling anns w0 s ms" for ms
    by (simp add: telling_def todo_keys_def)
  moreover have "silent (s\<lparr>ag_sending := q\<rparr>) = silent s" by (simp add: silent_def)
  ultimately show ?thesis using assms(1) by (simp add: ann_inv_def)
qed

lemma send_begin_announced:
  assumes "send_begin a s = Inr (sfx, old)" "shape anns w0 s"
  shows "announced anns w0 sfx a \<and> anw_initErr (ag_writer s) = None"
proof -
  have "GetSuffix (an_path (ag_anns s a)) (anw_prefix (ag_writer s)) = (sfx, True)" "\<not> shouldExclude (ag_writer s) (ag_anns s a)"
    "anw_initErr (ag_writer s) = None"
    using assms(1) by (auto simp: send_begin_def Let_def split: option.splits if_splits prod.splits bool.splits)
  then show ?thesis
    using assms(2) shouldExclude_same shape_simps(1) by (auto simp: announced_def shape_def writer_shape_def same_writer_def)
qed

text \<open>The calls leave the sends on their way and what they rely on as they were.\<close>

lemma broadcast_frame:
  "send_broadcast T m s = Some (e, s') \<Longrightarrow> ag_sending s' = ag_sending s \<and>
     anw_initDone (ag_writer s') = anw_initDone (ag_writer s) \<and> anw_initErr (ag_writer s') = anw_initErr (ag_writer s)"
  by (auto simp: send_broadcast_def bind_Some_eq Let_def split_beta)

lemma register_frame:
  "ag_sending (registerEndHandlerLocked sfx a s) = ag_sending s"
  "anw_initDone (ag_writer (registerEndHandlerLocked sfx a s)) = anw_initDone (ag_writer s)"
  "anw_initErr (ag_writer (registerEndHandlerLocked sfx a s)) = anw_initErr (ag_writer s)"
  by (auto simp: registerEndHandlerLocked_def split: option.split prod.split)

lemma remove_frame:
  "remove_active T sfx i s = Some s' \<Longrightarrow> ag_sending s' = ag_sending s \<and>
     anw_initDone (ag_writer s') = anw_initDone (ag_writer s) \<and> anw_initErr (ag_writer s') = anw_initErr (ag_writer s)"
  by (auto simp: remove_active_def sendEndedLocked_def dest!: broadcast_frame split: if_splits)

lemma end_active_frame:
  "end_active T sfx old s = Some s' \<Longrightarrow> ag_sending s' = ag_sending s \<and>
     anw_initDone (ag_writer s') = anw_initDone (ag_writer s) \<and> anw_initErr (ag_writer s') = anw_initErr (ag_writer s)"
  by (auto simp: end_active_def Let_def dest!: remove_frame split: option.splits prod.splits if_splits)

lemma send_finish_frame:
  "send_finish T sfx a s = Some (e, s') \<Longrightarrow> ag_sending s' = ag_sending s \<and>
     anw_initDone (ag_writer s') = anw_initDone (ag_writer s) \<and> anw_initErr (ag_writer s') = anw_initErr (ag_writer s)"
  by (auto simp: send_finish_def bind_Some_eq Let_def register_frame dest!: broadcast_frame split: option.splits if_splits)

lemma ann_step_inv:
  assumes "ann_step s s'" "ann_inv anns w0 s"
  shows "ann_inv anns w0 s'"
proof -
  have w: "writer_shape anns w0 s" using assms(2) by (simp add: ann_inv_def shape_def)
  from assms(1) show ?thesis
  proof cases
    case (init_begin T as)
    then show ?thesis using init_begin_inv [OF assms(2)] by blast
  next
    case (init_next T)
    then show ?thesis using init_next_inv [OF assms(2)] by blast
  next
    case (send_begin a sfx old)
    have "announced anns w0 sfx a \<and> anw_initErr (ag_writer s) = None"
      by (rule send_begin_announced [OF send_begin(3)]) (use assms(2) in \<open>simp add: ann_inv_def\<close>)
    moreover have "\<forall>(sfx, a, old) \<in> set (ag_sending s). announced anns w0 sfx a" using w by (simp add: writer_shape_def)
    ultimately show ?thesis using send_begin(2) unfolding send_begin(1) by (intro shape_sending [OF assms(2)]) simp_all
  next
    case (end_old T xs sfx a old ys s1)
    have "todo_keys s = {}" using w end_old(3) by (simp add: writer_shape_def todo_keys_def)
    from end_active_inv [OF assms(2) end_old(2,4) this] have i: "ann_inv anns w0 s1" .
    have "ag_sending s1 = ag_sending s" "anw_initDone (ag_writer s1)" "anw_initErr (ag_writer s1) = None"
      using end_active_frame [OF end_old(4)] w end_old(3) by (auto simp: writer_shape_def)
    moreover have "\<forall>(sfx, a, old) \<in> set (xs @ (sfx, a, None) # ys). announced anns w0 sfx a"
      using w end_old(3) by (auto simp: writer_shape_def)
    ultimately show ?thesis unfolding end_old(1) by (intro shape_sending [OF i]) simp_all
  next
    case (send_finish T xs sfx a ys e s1)
    have i: "ann_inv anns w0 s1" by (rule send_finish_inv [OF assms(2) send_finish(2-4)])
    have "anw_initDone (ag_writer s1)" "anw_initErr (ag_writer s1) = None"
      using send_finish_frame [OF send_finish(4)] w send_finish(3) by (auto simp: writer_shape_def)
    moreover have "\<forall>(sfx, a, old) \<in> set (xs @ ys). announced anns w0 sfx a"
      using w send_finish(3) by (auto simp: writer_shape_def)
    ultimately show ?thesis unfolding send_finish(1) by (intro shape_sending [OF i]) simp_all
  next
    case (writer_close T)
    have st: "ag_writer (stopAll s) = (ag_writer s)\<lparr>anw_actives := [], anw_closed := True\<rparr>"
      using stop_actives_inv [OF assms(2)] by (simp add: stopAll_def)
    have "s' = on_writer (\<lambda>w. w\<lparr>anw_stream := anw_stream (ag_writer s) @ [CloseOp]\<rparr>) (stopAll s)"
      by (simp add: writer_close AnnouncementWriter_Close_def Stream_Close_def Let_def st)
    then show ?thesis by (simp add: close_inv [OF assms(2)])
  next
    case (writer_close_error code)
    have st: "ag_writer (stopAll s) = (ag_writer s)\<lparr>anw_actives := [], anw_closed := True\<rparr>"
      using stop_actives_inv [OF assms(2)] by (simp add: stopAll_def)
    have "s' = on_writer (\<lambda>w. w\<lparr>anw_stream := cancelStreamWithError code (anw_stream (ag_writer s))\<rparr>) (stopAll s)"
      by (simp add: writer_close_error AnnouncementWriter_CloseWithError_def on_writer_def st)
    then show ?thesis by (simp add: close_inv [OF assms(2)] cancelStreamWithError_def)
  next
    case (announcement_end n a)
    obtain runs ann where e: "Announcement_end n (ag_anns s a) = (runs, ann)" by fastforce
    have "s' = (set_ann a ann s)\<lparr>ag_running := ag_running s @ concat runs\<rparr>"
      by (simp add: announcement_end end_announcement_def e set_ann_def)
    then show ?thesis
      using end_callbacks [OF announcement_end(2) e] end_simps [of n "ag_anns s a"] e
      by (intro ann_inv_callbacks [OF assms(2)]) (auto simp: same_anns_upd)
  next
    case (callback T i)
    let ?s1 = "s\<lparr>ag_running := take i (ag_running s) @ drop (Suc i) (ag_running s)\<rparr>"
    have "set (take i (ag_running s) @ drop (Suc i) (ag_running s)) \<subseteq> set (ag_running s)"
      using set_take_subset set_drop_subset by fastforce
    then have i: "ann_inv anns w0 ?s1"
      by (intro ann_inv_callbacks [OF assms(2)]) (auto simp: same_anns_def callbacks_def)
    show ?thesis
    proof (cases "ag_running s ! i")
      case (OtherCallback k)
      then have "s' = ?s1" using callback(3) by (simp add: run_callback_def)
      then show ?thesis using i by simp
    next
      case (RemoveActive sfx j)
      then have "RemoveActive sfx j \<in> callbacks s" using callback(2) nth_mem [of i "ag_running s"] by (simp add: callbacks_def)
      then have "sfx \<notin> todo_keys ?s1" if "map_of (anw_actives (ag_writer ?s1)) sfx = Some act" "ac_id act = j" for act
        using that assms(2) unfolding ann_inv_def shape_def callbacks_fit_def by (auto simp: todo_keys_def)
      moreover have "remove_active T sfx j ?s1 = Some s'" using callback(3) RemoveActive by (simp add: run_callback_def Let_def)
      ultimately show ?thesis using remove_active_inv [OF i callback(1)] by blast
    qed
  next
    case (other_after k a now handle ann)
    then show ?thesis
      using AfterFunc_callbacks [OF other_after(2)] AfterFunc_simps [of "OtherCallback k" "ag_anns s a"]
      by (intro ann_inv_callbacks [OF assms(2)]) (auto simp: same_anns_upd)
  next
    case (other_stop a i k ok ann)
    then show ?thesis
      using stop_callbacks [of a "Some i" s] stop_simps [of "Some i" "ag_anns s a"]
      by (intro ann_inv_callbacks [OF assms(2)]) (auto simp: same_anns_upd)
  qed
qed

lemma ann_reach_inv: "ann_reach anns w s \<Longrightarrow> ann_inv anns w s"
proof (induction rule: ann_reach.induct)
  case (start pfx l x)
  then have "anw_actives w = []" "anw_stream w = []" "\<not> anw_closed w" "\<not> anw_initStarted w" "\<not> anw_initDone w" "anw_initErr w = None"
    by (auto simp: newAnnouncementWriter_def split: if_splits)
  with start show ?case
    by (fastforce simp: ann_inv_def shape_def writer_shape_def callbacks_fit_def callbacks_def todo_keys_def same_anns_def
        same_writer_def silent_def others_only_def)
next
  case (step s s')
  then show ?case using ann_step_inv by blast
qed

section \<open>Writer and reader together\<close>

text \<open>What the application sees as active, with the full hop path.\<close>

definition reader_view :: "'h AnnouncementReader \<Rightarrow> (suffix \<rightharpoonup> uint64 list)" where
  "reader_view r = (\<lambda>sfx. map_option (\<lambda>i. an_hopIDs (ar_anns r ! i)) (reader_active sfx r))"

definition seen :: "uint64 \<Rightarrow> (suffix \<rightharpoonup> uint64 list) \<Rightarrow> (suffix \<rightharpoonup> uint64 list)" where
  "seen peer v = (\<lambda>sfx. map_option (\<lambda>h. appendHopID h peer) (v sfx))"

text \<open>The hop paths of all the announcements a reader was given.\<close>

definition hop_paths :: "'h AnnouncementReader \<Rightarrow> uint64 list set" where
  "hop_paths r = an_hopIDs ` set (ar_anns r)"

lemma active_distinct:
  assumes "reader_inv r" "map_of (ar_actives r) t = Some i" "map_of (ar_actives r) u = Some i" shows "t = u"
  using active_listed [OF assms(1,2)] active_listed [OF assms(1,3)] by simp

lemma canPublish_None [simp]: "canPublish p None" by (simp add: canPublish_def anyGrant_def)

lemma view_after_end:
  assumes "reader_inv r" "reader_active sfx r = Some i"
  shows "reader_active t (end_reader_ann n i r) = (if t = sfx then None else reader_active t r)"
    "t \<noteq> sfx \<Longrightarrow> reader_active t r = Some j \<Longrightarrow> ar_anns (end_reader_ann n i r) ! j = ar_anns r ! j"
proof -
  have m: "map_of (ar_actives r) sfx = Some i" using assms(2) by (auto simp: reader_active_def split: option.splits if_splits)
  then have l: "i < length (ar_anns r)" using active_listed [OF assms(1)] by blast
  have o: "j \<noteq> i" if "t \<noteq> sfx" "map_of (ar_actives r) t = Some j" for t j
    using active_distinct [OF assms(1) m, of t] that by blast
  have e: "\<not> an_active (snd (Announcement_end n (ar_anns r ! i)))"
    using end_inactive [of "ar_anns r ! i" n] assms(1) l by (auto simp: reader_inv_def)
  show "reader_active t (end_reader_ann n i r) = (if t = sfx then None else reader_active t r)"
  proof (cases "t = sfx")
    case True
    then show ?thesis using m l e by (simp add: reader_active_def)
  next
    case False
    then show ?thesis using o [OF False] by (cases "map_of (ar_actives r) t") (simp_all add: reader_active_def)
  qed
  assume "t \<noteq> sfx" "reader_active t r = Some j"
  then show "ar_anns (end_reader_ann n i r) ! j = ar_anns r ! j"
    using o [of t j] by (auto simp: reader_active_def split: option.splits if_splits)
qed

text \<open>After the first half of handling a message, the suffix is no longer active; the others are.\<close>

lemma ended_view:
  fixes sfx :: suffix and n :: nat
  assumes "reader_inv r"
  defines "q \<equiv> (case reader_active sfx r of Some i \<Rightarrow> end_reader_ann n i r | None \<Rightarrow> r)"
  shows "reader_view q = (reader_view r)(sfx := None)" "ar_actives q = ar_actives r" "ar_prefix q = ar_prefix r"
    "ar_cause q = ar_cause r" "hop_paths q = hop_paths r" "reader_inv q"
proof -
  show "reader_view q = (reader_view r)(sfx := None)"
  proof (cases "reader_active sfx r")
    case None
    then show ?thesis by (auto simp: q_def reader_view_def)
  next
    case (Some i)
    show ?thesis
    proof
      fix t show "reader_view q t = ((reader_view r)(sfx := None)) t"
      proof (cases "t = sfx")
        case True
        then show ?thesis using view_after_end(1) [OF assms(1) Some, of t n] Some by (simp add: q_def reader_view_def)
      next
        case False
        then show ?thesis
          using view_after_end(1) [OF assms(1) Some, of t n] view_after_end(2) [OF assms(1) Some False, of _ n] Some
          by (cases "reader_active t r") (simp_all add: q_def reader_view_def del: end_reader_ann_simps(8))
      qed
    qed
  qed
  show "ar_actives q = ar_actives r" "ar_prefix q = ar_prefix r" "ar_cause q = ar_cause r"
    by (simp_all add: q_def split: option.split)
  show "hop_paths q = hop_paths r"
  proof (cases "reader_active sfx r")
    case (Some i)
    have "map an_hopIDs (ar_anns (end_reader_ann n i r)) = map an_hopIDs (ar_anns r)"
    proof (rule nth_equalityI)
      fix j assume "j < length (map an_hopIDs (ar_anns (end_reader_ann n i r)))"
      then show "map an_hopIDs (ar_anns (end_reader_ann n i r)) ! j = map an_hopIDs (ar_anns r) ! j"
        by (cases "j = i") simp_all
    qed simp
    then show ?thesis unfolding hop_paths_def by (metis Some list.set_map option.simps(5) q_def)
  qed (simp add: q_def)
  show "reader_inv q"
  proof (cases "reader_active sfx r")
    case (Some i)
    then have m: "map_of (ar_actives r) sfx = Some i" by (auto simp: reader_active_def split: option.splits if_splits)
    have s: "some_ended {i} r (end_reader_ann n i r)" by (rule some_ended_end [OF reader_inv_wf [OF assms(1)]])
    show ?thesis using reader_inv_ended [OF assms(1) s] assms(1) Some by (auto simp: q_def reader_inv_def)
  qed (simp add: q_def assms(1))
qed

lemma handle_legal:
  assumes "reader_inv r" "ar_cause r = None" "reader_view r = seen peer v" "legal m v"
  shows "\<exists>r'. handle_broadcast n None peer m r = Some (True, r') \<and> reader_inv r' \<and> ar_cause r' = None \<and>
    reader_view r' = seen peer (told_step m v) \<and>
    hop_paths r' \<subseteq> hop_paths r \<union> (if am_AnnounceStatus m = ACTIVE then {appendHopID (am_HopIDs m) peer} else {})"
proof -
  let ?sfx = "am_BroadcastPathSuffix m"
  let ?q = "case reader_active ?sfx r of Some i \<Rightarrow> end_reader_ann n i r | None \<Rightarrow> r"
  note q = ended_view [OF assms(1), where sfx = ?sfx and n = n]
  show ?thesis
  proof (cases "am_AnnounceStatus m = ACTIVE")
    case True
    let ?h = "appendHopID (am_HopIDs m) peer"
    obtain a where a: "reader_announcement n ?sfx ?h ?q = Some a"
      using reader_announcement_total [of ?q n ?sfx ?h] q(3) assms(1) by (auto simp: reader_inv_def)
    have ap: "an_hopIDs a = ?h" "an_active a"
      using reader_announcement_cases [OF a] q(3,4) assms(1,2) by (auto simp: reader_inv_def)
    let ?r = "(add_announcement ?sfx a ?q)\<lparr>ar_notify := map_option (\<lambda>_. True) (ar_notify ?q)\<rparr>"
    have h: "handle_broadcast n None peer m r = Some (True, ?r)"
      using True a by (simp add: handle_broadcast_def Let_def activateLocked_def add_announcement_def)
    have inv: "reader_inv ?r" using handle_broadcast_inv [OF h assms(1)] by simp
    have ra: "reader_active t ?r = (if t = ?sfx then Some (length (ar_anns ?q)) else reader_active t ?q)" for t
    proof -
      have m: "map_of (ar_actives ?r) t = (if t = ?sfx then Some (length (ar_anns ?q)) else map_of (ar_actives ?q) t)"
        by (simp add: add_announcement_def Let_def update_conv')
      have l: "j < length (ar_anns ?q)" if "map_of (ar_actives ?q) t = Some j" for j
        using active_listed [OF q(6) that] by blast
      show ?thesis
        using m l ap(2) by (cases "t = ?sfx"; cases "map_of (ar_actives ?q) t")
          (simp_all add: reader_active_def add_announcement_def Let_def nth_append)
    qed
    have "reader_view ?r = (reader_view ?q)(?sfx \<mapsto> ?h)"
    proof
      fix t show "reader_view ?r t = ((reader_view ?q)(?sfx \<mapsto> ?h)) t"
      proof (cases "t = ?sfx")
        case True
        then show ?thesis using ra [of t] ap by (simp add: reader_view_def add_announcement_def Let_def)
      next
        case False
        have "j < length (ar_anns ?q)" if "reader_active t ?q = Some j" for j
          using that active_listed [OF q(6)] by (auto simp: reader_active_def split: option.splits if_splits)
        then show ?thesis using ra [of t] False
          by (cases "reader_active t ?q") (simp_all add: reader_view_def add_announcement_def Let_def nth_append)
      qed
    qed
    then have "reader_view ?r = seen peer (told_step m v)"
      using q(1) assms(3) True by (auto simp: seen_def told_step_def fun_eq_iff)
    moreover have "hop_paths ?r = insert ?h (hop_paths ?q)"
      using ap by (simp add: hop_paths_def add_announcement_def Let_def)
    moreover have "ar_cause ?r = None" using q(4) assms(2) by (simp add: add_announcement_def Let_def)
    ultimately show ?thesis using h inv q(5) True by auto
  next
    case False
    then have e: "am_AnnounceStatus m = ENDED" "v ?sfx \<noteq> None" using assms(4) by (auto simp: legal_def)
    then have "reader_view r ?sfx \<noteq> None" using assms(3) by (simp add: seen_def)
    then have old: "reader_active ?sfx r \<noteq> None" by (simp add: reader_view_def)
    let ?r = "?q\<lparr>ar_actives := AList.delete ?sfx (ar_actives r)\<rparr>"
    have h: "handle_broadcast n None peer m r = Some (True, ?r)"
      using False e(1) old by (simp add: handle_broadcast_def Let_def)
    have inv: "reader_inv ?r" using handle_broadcast_inv [OF h assms(1)] by simp
    have "reader_active t ?r = (if t = ?sfx then None else reader_active t ?q)" for t
      by (simp add: reader_active_def delete_conv' q(2) split: option.split)
    then have "reader_view ?r = (reader_view ?q)(?sfx := None)" by (auto simp: reader_view_def fun_eq_iff)
    then have "reader_view ?r = seen peer (told_step m v)"
      using q(1) assms(3) False by (auto simp: seen_def told_step_def fun_eq_iff)
    moreover have "hop_paths ?r = hop_paths ?q" by (simp add: hop_paths_def)
    ultimately show ?thesis using h inv q(4,5) assms(2) False by auto
  qed
qed

definition broadcast_fits :: "AnnounceBroadcastMessage \<Rightarrow> bool" where
  "broadcast_fits m \<longleftrightarrow> (\<exists>l. AnnounceBroadcast_Len m = Some l \<and> l \<le> 65536)"

lemma announce_loop_enc:
  "\<lbrakk>broadcasts_enc ms = Some e; \<forall>m\<in>set ms. broadcast_fits m; legal_from v ms; reader_inv r; ar_cause r = None;
    reader_view r = seen peer v\<rbrakk> \<Longrightarrow>
   \<exists>r'. announce_loop n None peer am e r = Some (DecodeFailed EOF, r') \<and> reader_view r' = seen peer (fold told_step ms v) \<and>
     hop_paths r' \<subseteq> hop_paths r \<union> {appendHopID (am_HopIDs m) peer |m. m \<in> set ms \<and> am_AnnounceStatus m = ACTIVE}"
proof (induction ms arbitrary: e v r am)
  case Nil
  have "AnnounceBroadcast_Decode am [] = (Some EOF, am, [])"
    by (simp add: AnnounceBroadcast_Decode_def with_body_def readBody_def)
  then show ?case using Nil by (subst announce_loop.simps) simp
next
  case (Cons m ms)
  obtain b bs where e: "AnnounceBroadcast_Encode m = Some b" "broadcasts_enc ms = Some bs" "e = b @ bs"
    using Cons.prems(1) by (auto simp: bind_Some_eq)
  obtain l where "AnnounceBroadcast_Len m = Some l" "l \<le> 65536" using Cons.prems(2) by (auto simp: broadcast_fits_def)
  then have d: "AnnounceBroadcast_Decode am e = (None, m, bs)"
    using AnnounceBroadcast.roundtrip [OF e(1), of l am bs] e(3) by simp
  obtain r1 where r1: "handle_broadcast n None peer m r = Some (True, r1)" "reader_inv r1" "ar_cause r1 = None"
      "reader_view r1 = seen peer (told_step m v)"
      "hop_paths r1 \<subseteq> hop_paths r \<union> (if am_AnnounceStatus m = ACTIVE then {appendHopID (am_HopIDs m) peer} else {})"
    using handle_legal [OF Cons.prems(4-6), of m n] Cons.prems(3) by (auto simp del: Un_iff)
  obtain r' where "announce_loop n None peer m bs r1 = Some (DecodeFailed EOF, r')"
      "reader_view r' = seen peer (fold told_step ms (told_step m v))"
      "hop_paths r' \<subseteq> hop_paths r1 \<union> {appendHopID (am_HopIDs m) peer |m. m \<in> set ms \<and> am_AnnounceStatus m = ACTIVE}"
    using Cons.IH [OF e(2) _ _ r1(2-4), of m] Cons.prems(2,3) by (simp, blast)
  then show ?case using r1(1,5) d by (subst announce_loop.simps) (auto split: if_splits)
qed

text \<open>A message about an announcement of moderate size fits.\<close>

lemma VarintLen_le: "VarintLen i = Some l \<Longrightarrow> l \<le> 8"
  by (auto simp: VarintLen_def split: if_splits)

lemma hops_len_le: "AnnounceBroadcast_Len_hops l hops = Some k \<Longrightarrow> k \<le> l + 8 * length hops"
  by (induction hops arbitrary: l) (fastforce simp: bind_Some_eq dest!: VarintLen_le)+

lemma proper_fits:
  assumes "proper anns w m" "AnnounceBroadcast_Encode m = Some b"
    "\<forall>a. length (an_path (anns a)) + 8 * length (an_hopIDs (anns a)) \<le> 65000"
  shows "broadcast_fits m"
proof -
  obtain a where a: "GetSuffix (an_path (anns a)) (anw_prefix w) = (am_BroadcastPathSuffix m, True)"
      "am_HopIDs m = an_hopIDs (anns a) \<or> am_HopIDs m = []"
    using assms(1) by (auto simp: proper_def announced_def)
  have "length (am_BroadcastPathSuffix m) \<le> length (an_path (anns a))"
    using a(1) by (auto simp: GetSuffix_def split: if_splits dest: arg_cong [where f = length])
  then have s: "length (am_BroadcastPathSuffix m) + 8 * length (am_HopIDs m) \<le> 65000"
    using a(2) assms(3) [rule_format, of a] by auto
  obtain l where l: "AnnounceBroadcast_Len m = Some l"
    using assms(2) by (auto simp: AnnounceBroadcast_Encode_def bind_Some_eq)
  obtain l1 l2 l3 where p: "VarintLen (ucast (am_AnnounceStatus m)) = Some l1" "StringLen (am_BroadcastPathSuffix m) = Some l2"
      "VarintLen (of_nat (length (am_HopIDs m))) = Some l3" "AnnounceBroadcast_Len_hops (l1 + l2 + l3) (am_HopIDs m) = Some l"
    using l by (auto simp: AnnounceBroadcast_Len_def bind_Some_eq)
  have "l2 \<le> 8 + length (am_BroadcastPathSuffix m)"
    using p(2) by (auto simp: StringLen_def bind_Some_eq dest!: VarintLen_le)
  then have "l \<le> 65536"
    using hops_len_le [OF p(4)] VarintLen_le [OF p(1)] VarintLen_le [OF p(3)] s by simp
  with l show ?thesis by (simp add: broadcast_fits_def)
qed

lemma encoded_all: "\<lbrakk>broadcasts_enc ms = Some e; m \<in> set ms\<rbrakk> \<Longrightarrow> \<exists>b. AnnounceBroadcast_Encode m = Some b"
  by (induction ms arbitrary: e) (auto simp: bind_Some_eq)

lemma new_reader_empty:
  assumes "newAnnouncementReader n pfx [] None = Some r"
  shows "reader_inv r" "ar_cause r = None" "reader_view r = seen peer Map.empty" "hop_paths r = {}"
  using assms by (auto simp: newAnnouncementReader_def reader_inv_def reader_view_def reader_active_def seen_def hop_paths_def
      split: if_splits)

text \<open>The two ends together; the theorems below are parts of it.\<close>

lemma announcements_told:
  assumes "ann_reach anns w s" "\<not> torn (anw_stream (ag_writer s))"
    "\<forall>a. length (an_path (anns a)) + 8 * length (an_hopIDs (anns a)) \<le> 65000"
    "newAnnouncementReader n pfx [] None = Some r"
  shows "\<exists>r'. read_announcements n None (written (anw_stream (ag_writer s))) r = Some (DecodeFailed EOF, r') \<and>
    (anw_initDone (ag_writer s) \<and> anw_initErr (ag_writer s) = None \<and> \<not> anw_closed (ag_writer s) \<and> \<not> ag_over s \<longrightarrow>
      reader_view r' = (\<lambda>sfx. map_option (\<lambda>act. appendHopID (an_hopIDs (anns (ac_announcement act))) (anw_localHopID w))
                               (map_of (anw_actives (ag_writer s)) sfx))) \<and>
    (\<forall>h \<in> hop_paths r'. anw_excludeHop w \<noteq> 0 \<longrightarrow> anw_excludeHop w \<notin> set h)"
proof -
  have inv: "ann_inv anns w s" by (rule ann_reach_inv [OF assms(1)])
  note r = new_reader_empty [OF assms(4)]
  consider "silent s" | ms where "telling anns w s ms" using inv assms(2) by (auto simp: ann_inv_def)
  then show ?thesis
  proof cases
    case 1
    then have "written (anw_stream (ag_writer s)) = []" by (simp add: silent_def)
    moreover have "AnnounceOk_Decode \<lparr>aom_HopID = 0, aom_ActiveCount = 0\<rparr> [] = (Some EOF, \<lparr>aom_HopID = 0, aom_ActiveCount = 0\<rparr>, [])"
      by (simp add: AnnounceOk_Decode_def with_body_def readBody_def)
    ultimately show ?thesis using 1 r(4) by (auto simp: read_announcements_def silent_def)
  next
    case (2 ms)
    let ?peer = "anw_localHopID w"
    obtain k okb mb where e: "AnnounceOk_Encode \<lparr>aom_HopID = ?peer, aom_ActiveCount = k\<rparr> = Some okb"
        "broadcasts_enc ms = Some mb" "written (anw_stream (ag_writer s)) = okb @ mb"
      using 2 by (auto simp: telling_def)
    obtain l where l: "AnnounceOk_Len \<lparr>aom_HopID = ?peer, aom_ActiveCount = k\<rparr> = Some l"
      using e(1) by (auto simp: AnnounceOk_Encode_def bind_Some_eq)
    then have "l \<le> 65536" by (auto simp: AnnounceOk_Len_def bind_Some_eq dest!: VarintLen_le)
    then have d: "AnnounceOk_Decode \<lparr>aom_HopID = 0, aom_ActiveCount = 0\<rparr> (okb @ mb) =
        (None, \<lparr>aom_HopID = ?peer, aom_ActiveCount = k\<rparr>, mb)"
      using AnnounceOk.roundtrip [OF e(1) l, of _ mb] by simp
    have pr: "\<forall>m\<in>set ms. proper anns w m" "legal_from Map.empty ms" using 2 by (simp_all add: telling_def)
    have "\<forall>m\<in>set ms. broadcast_fits m"
      using pr(1) encoded_all [OF e(2)] proper_fits [OF _ _ assms(3)] by blast
    from announce_loop_enc [OF e(2) this pr(2) r(1,2,3), where n = n and am = zeroBroadcast and peer = ?peer]
    obtain r' where r': "announce_loop n None ?peer zeroBroadcast mb r = Some (DecodeFailed EOF, r')"
        "reader_view r' = seen ?peer (told ms)"
        "hop_paths r' \<subseteq> {appendHopID (am_HopIDs m) ?peer |m. m \<in> set ms \<and> am_AnnounceStatus m = ACTIVE}"
      using r(4) by (auto simp: told_def)
    have "read_announcements n None (written (anw_stream (ag_writer s))) r = Some (DecodeFailed EOF, r')"
      using d r'(1) e(3) by (simp add: read_announcements_def)
    moreover have "reader_view r' = (\<lambda>sfx. map_option (\<lambda>act. appendHopID (an_hopIDs (anns (ac_announcement act))) ?peer)
        (map_of (anw_actives (ag_writer s)) sfx))"
      if c: "anw_initDone (ag_writer s)" "\<not> anw_closed (ag_writer s)" "\<not> ag_over s"
    proof
      fix sfx
      have "todo_keys s = {}" using inv c(1) by (simp add: ann_inv_def shape_def writer_shape_def todo_keys_def)
      then have "told ms sfx = map_option (\<lambda>act. an_hopIDs (anns (ac_announcement act))) (map_of (anw_actives (ag_writer s)) sfx)"
        using 2 c by (cases "map_of (anw_actives (ag_writer s)) sfx") (simp_all add: telling_def)
      then show "reader_view r' sfx = map_option (\<lambda>act. appendHopID (an_hopIDs (anns (ac_announcement act))) ?peer)
          (map_of (anw_actives (ag_writer s)) sfx)"
        using r'(2) by (simp add: seen_def option.map_comp o_def)
    qed
    moreover have "anw_excludeHop w \<notin> set h" if h: "h \<in> hop_paths r'" "anw_excludeHop w \<noteq> 0" for h
    proof -
      obtain m where m: "h = appendHopID (am_HopIDs m) ?peer" "m \<in> set ms" "am_AnnounceStatus m = ACTIVE" using h(1) r'(3) by blast
      then obtain a where "\<not> shouldExclude w (anns a)" "am_HopIDs m = an_hopIDs (anns a)"
        using pr(1) by (auto simp: proper_def announced_def ACTIVE_def ENDED_def)
      then show ?thesis using m(1) h(2) by (auto simp: shouldExclude_def appendHopID_def split: if_splits)
    qed
    ultimately show ?thesis by blast
  qed
qed

text \<open>C3 What a peer sees is what the node announces. Whatever the order in which announcements begin and
  end, callbacks are delayed, announcements replace each other and the writer is closed, a reader of the
  bytes written never meets an ENDED it must reject nor a message it cannot decode; and once the writer
  has started and neither it nor its stream has ended, the reader's active broadcasts are exactly the
  writer's, each with its hop path and the writer's own hop appended.\<close>
theorem announcement_agreement:
  assumes "ann_reach anns w s" "\<not> torn (anw_stream (ag_writer s))"
    "\<forall>a. length (an_path (anns a)) + 8 * length (an_hopIDs (anns a)) \<le> 65000"
    "newAnnouncementReader n pfx [] None = Some r"
  shows "\<exists>r'. read_announcements n None (written (anw_stream (ag_writer s))) r = Some (DecodeFailed EOF, r') \<and>
    (anw_initDone (ag_writer s) \<and> anw_initErr (ag_writer s) = None \<and> \<not> anw_closed (ag_writer s) \<and> \<not> ag_over s \<longrightarrow>
      reader_view r' = (\<lambda>sfx. map_option (\<lambda>act. appendHopID (an_hopIDs (anns (ac_announcement act))) (anw_localHopID w))
                               (map_of (anw_actives (ag_writer s)) sfx)))"
  using announcements_told [OF assms] by blast

text \<open>C32 No announcement is echoed: a peer that named its hop ID in its request is never handed a
  broadcast whose full hop path, the writer's own hop included, runs through that hop.\<close>
theorem no_announcement_echo:
  assumes "ann_reach anns w s" "\<not> torn (anw_stream (ag_writer s))"
    "\<forall>a. length (an_path (anns a)) + 8 * length (an_hopIDs (anns a)) \<le> 65000"
    "newAnnouncementReader n pfx [] None = Some r" "anw_excludeHop w \<noteq> 0"
  shows "\<exists>r'. read_announcements n None (written (anw_stream (ag_writer s))) r = Some (DecodeFailed EOF, r') \<and>
    (\<forall>a \<in> set (ar_anns r'). anw_excludeHop w \<notin> set (an_hopIDs a))"
  using announcements_told [OF assms(1-4)] assms(5) by (auto simp: hop_paths_def)

section \<open>Ended announcements are told\<close>

text \<open>
  Each active that was sent is watched: its callback is registered with an announcement that is still
  active, or has been started.
\<close>

definition ann_ok :: "'h Announcement \<Rightarrow> bool" where
  "ann_ok a \<longleftrightarrow> (an_active a \<longrightarrow> \<not> an_once a) \<and> (\<not> an_active a \<longrightarrow> an_afterHandlers a = [])"

definition watched_by :: "announcing \<Rightarrow> suffix \<Rightarrow> activeAnnouncement \<Rightarrow> bool" where
  "watched_by s sfx act \<longleftrightarrow> RemoveActive sfx (ac_id act) \<in> set (ag_running s) \<or>
     (\<exists>h. ac_stop act = Some (Some h) \<and> an_active (ag_anns s (ac_announcement act)) \<and>
        h < length (an_afterHandlers (ag_anns s (ac_announcement act))) \<and>
        an_afterHandlers (ag_anns s (ac_announcement act)) ! h = Some (RemoveActive sfx (ac_id act)))"

definition handle_ok :: "announcing \<Rightarrow> suffix \<Rightarrow> activeAnnouncement \<Rightarrow> bool" where
  "handle_ok s sfx act \<longleftrightarrow>
     (\<forall>h. ac_stop act = Some (Some h) \<longrightarrow> an_active (ag_anns s (ac_announcement act)) \<longrightarrow>
        h < length (an_afterHandlers (ag_anns s (ac_announcement act))) \<and>
        an_afterHandlers (ag_anns s (ac_announcement act)) ! h \<in> {None, Some (RemoveActive sfx (ac_id act))})"

definition watching :: "suffix set \<Rightarrow> announcing \<Rightarrow> bool" where
  "watching X s \<longleftrightarrow> (\<forall>a. ann_ok (ag_anns s a)) \<and>
     (\<forall>sfx act. map_of (anw_actives (ag_writer s)) sfx = Some act \<longrightarrow> handle_ok s sfx act) \<and>
     (\<forall>sfx act. map_of (anw_actives (ag_writer s)) sfx = Some act \<longrightarrow> anw_initErr (ag_writer s) = None \<longrightarrow>
        sfx \<notin> todo_keys s \<union> X \<longrightarrow> watched_by s sfx act) \<and>
     (\<forall>(sfx, a, old) \<in> set (ag_sending s). \<forall>act. old = Some act \<longrightarrow> handle_ok s sfx act)"

text \<open>A change of the announcements that takes no callback of this writer away unless it starts it.\<close>

definition kept_callbacks :: "announcing \<Rightarrow> announcing \<Rightarrow> bool" where
  "kept_callbacks s s' \<longleftrightarrow> set (ag_running s) \<subseteq> set (ag_running s') \<and>
     (\<forall>a. ann_ok (ag_anns s' a) \<and>
        (an_active (ag_anns s' a) \<longrightarrow> an_active (ag_anns s a) \<and>
           length (an_afterHandlers (ag_anns s a)) \<le> length (an_afterHandlers (ag_anns s' a)) \<and>
           (\<forall>h < length (an_afterHandlers (ag_anns s a)).
              an_afterHandlers (ag_anns s' a) ! h = an_afterHandlers (ag_anns s a) ! h \<or>
              an_afterHandlers (ag_anns s' a) ! h = None \<and> (\<exists>k. an_afterHandlers (ag_anns s a) ! h = Some (OtherCallback k)))) \<and>
        (\<not> an_active (ag_anns s' a) \<longrightarrow> (\<forall>c. Some c \<in> set (an_afterHandlers (ag_anns s a)) \<longrightarrow> c \<in> set (ag_running s'))))"

lemma watched_kept:
  assumes "kept_callbacks s s'" "watched_by s sfx act" shows "watched_by s' sfx act"
proof (cases "RemoveActive sfx (ac_id act) \<in> set (ag_running s)")
  case True
  then show ?thesis using assms(1) by (auto simp: watched_by_def kept_callbacks_def)
next
  case False
  let ?a = "ac_announcement act"
  let ?H = "an_afterHandlers (ag_anns s ?a)" and ?H' = "an_afterHandlers (ag_anns s' ?a)"
  obtain h where h: "ac_stop act = Some (Some h)" "h < length ?H" "?H ! h = Some (RemoveActive sfx (ac_id act))"
    using assms(2) False by (auto simp: watched_by_def)
  show ?thesis
  proof (cases "an_active (ag_anns s' ?a)")
    case True
    then have "length ?H \<le> length ?H'" "?H' ! h = ?H ! h \<or> (\<exists>k. ?H ! h = Some (OtherCallback k))"
      using assms(1) h(2) unfolding kept_callbacks_def by blast+
    then show ?thesis using True h by (auto simp: watched_by_def)
  next
    case False
    moreover have "Some (RemoveActive sfx (ac_id act)) \<in> set ?H" using h(2,3) by (metis nth_mem)
    ultimately show ?thesis using assms(1) unfolding kept_callbacks_def watched_by_def by blast
  qed
qed

lemma handle_kept:
  assumes "kept_callbacks s s'" "handle_ok s sfx act" shows "handle_ok s' sfx act"
  unfolding handle_ok_def
proof (intro allI impI)
  let ?a = "ac_announcement act"
  let ?H = "an_afterHandlers (ag_anns s ?a)" and ?H' = "an_afterHandlers (ag_anns s' ?a)"
  fix h assume h: "ac_stop act = Some (Some h)" "an_active (ag_anns s' ?a)"
  then have k: "an_active (ag_anns s ?a)" "length ?H \<le> length ?H'"
      "\<forall>h < length ?H. ?H' ! h = ?H ! h \<or> ?H' ! h = None \<and> (\<exists>k. ?H ! h = Some (OtherCallback k))"
    using assms(1) unfolding kept_callbacks_def by blast+
  then have "h < length ?H" "?H ! h \<in> {None, Some (RemoveActive sfx (ac_id act))}"
    using assms(2) h(1) by (auto simp: handle_ok_def)
  then show "h < length ?H' \<and> ?H' ! h \<in> {None, Some (RemoveActive sfx (ac_id act))}" using k(2,3) by fastforce
qed

lemma watching_kept:
  assumes "watching X s" "kept_callbacks s s'" "ag_writer s' = ag_writer s" "ag_todo s' = ag_todo s" "ag_sending s' = ag_sending s"
  shows "watching X s'"
  using assms watched_kept [OF assms(2)] handle_kept [OF assms(2)]
  unfolding watching_def todo_keys_def by (auto simp: kept_callbacks_def)

lemma kept_after:
  assumes "\<forall>a. ann_ok (ag_anns s a)" "AfterFunc f (ag_anns s a) = (now, handle, ann)"
  shows "kept_callbacks s ((set_ann a ann s)\<lparr>ag_running := ag_running s @ now\<rparr>)"
  using assms(1) [rule_format, of a] assms(1) assms(2)
  by (auto simp: kept_callbacks_def AfterFunc_def ann_ok_def nth_append split: if_splits)

lemma map_filter_id_iff: "c \<in> set (List.map_filter id hs) \<longleftrightarrow> Some c \<in> set hs"
  by (force simp: List.map_filter_def)

lemma kept_end:
  assumes "\<forall>a. ann_ok (ag_anns s a)" "0 < n" shows "kept_callbacks s (end_announcement n a s)"
proof -
  obtain runs ann where e: "Announcement_end n (ag_anns s a) = (runs, ann)" by fastforce
  have s': "end_announcement n a s = (set_ann a ann s)\<lparr>ag_running := ag_running s @ concat runs\<rparr>"
    by (simp add: end_announcement_def e set_ann_def)
  show ?thesis
  proof (cases "an_once (ag_anns s a)")
    case True
    then have "ann = ag_anns s a" "runs = []" using e by (auto simp: Announcement_end_def)
    then show ?thesis using assms(1) by (auto simp: s' kept_callbacks_def ann_ok_def)
  next
    case False
    then have "concat runs = List.map_filter id (an_afterHandlers (ag_anns s a))"
      using end_runs_all [OF assms(2) False] e by simp
    then have c: "Some c \<in> set (an_afterHandlers (ag_anns s a)) \<Longrightarrow> c \<in> set (concat runs)" for c
      using map_filter_id_iff by metis
    have a: "\<not> an_active ann" "an_afterHandlers ann = []" using e False by (auto simp: Announcement_end_def Let_def)
    show ?thesis
      unfolding kept_callbacks_def
    proof (intro conjI allI)
      fix b
      show "ann_ok (ag_anns (end_announcement n a s) b)" using a assms(1) by (auto simp: s' ann_ok_def)
      show "\<not> an_active (ag_anns (end_announcement n a s) b) \<longrightarrow>
          (\<forall>c. Some c \<in> set (an_afterHandlers (ag_anns s b)) \<longrightarrow> c \<in> set (ag_running (end_announcement n a s)))"
        using c assms(1) [rule_format, of b] by (auto simp: s' ann_ok_def)
      show "an_active (ag_anns (end_announcement n a s) b) \<longrightarrow> an_active (ag_anns s b) \<and>
          length (an_afterHandlers (ag_anns s b)) \<le> length (an_afterHandlers (ag_anns (end_announcement n a s) b)) \<and>
          (\<forall>h<length (an_afterHandlers (ag_anns s b)).
            an_afterHandlers (ag_anns (end_announcement n a s) b) ! h = an_afterHandlers (ag_anns s b) ! h \<or>
            an_afterHandlers (ag_anns (end_announcement n a s) b) ! h = None \<and>
              (\<exists>k. an_afterHandlers (ag_anns s b) ! h = Some (OtherCallback k)))"
        using a by (simp add: s')
    qed (auto simp: s')
  qed
qed

lemma kept_other_stop:
  assumes "\<forall>a. ann_ok (ag_anns s a)" "an_afterHandlers (ag_anns s a) ! i = Some (OtherCallback k)" "stop (Some i) (ag_anns s a) = (ok, ann)"
  shows "kept_callbacks s (set_ann a ann s)"
  using assms(1) [rule_format, of a] assms(1,2,3)
  by (auto simp: kept_callbacks_def stop_def ann_ok_def nth_list_update split: if_splits)

text \<open>What only writes to the stream, or takes an active away, keeps the watching.\<close>

lemma watching_less:
  assumes "watching X s" "ag_anns s' = ag_anns s" "ag_running s' = ag_running s" "ag_sending s' = ag_sending s"
    "\<And>sfx act. map_of (anw_actives (ag_writer s')) sfx = Some act \<Longrightarrow> map_of (anw_actives (ag_writer s)) sfx = Some act"
    "anw_initErr (ag_writer s') = None \<Longrightarrow> anw_initErr (ag_writer s) = None \<and> todo_keys s \<union> X \<subseteq> todo_keys s' \<union> Y"
  shows "watching Y s'"
proof -
  have "watched_by s' sfx act = watched_by s sfx act" "handle_ok s' sfx act = handle_ok s sfx act" for sfx act
    by (simp_all add: watched_by_def handle_ok_def assms(2,3))
  note same = this
  show ?thesis
    unfolding watching_def
  proof (intro conjI allI impI)
    show "ann_ok (ag_anns s' a)" for a using assms(1) by (simp add: watching_def assms(2))
    show "\<forall>(sfx, a, old) \<in> set (ag_sending s'). \<forall>act. old = Some act \<longrightarrow> handle_ok s' sfx act"
      using assms(1) by (simp add: watching_def assms(4) same)
    fix sfx act assume m: "map_of (anw_actives (ag_writer s')) sfx = Some act"
    show "handle_ok s' sfx act" using assms(1) assms(5) [OF m] by (simp add: watching_def same)
    assume "anw_initErr (ag_writer s') = None" "sfx \<notin> todo_keys s' \<union> Y"
    then have "anw_initErr (ag_writer s) = None" "sfx \<notin> todo_keys s \<union> X" using assms(6) by blast+
    then show "watched_by s' sfx act" using assms(1) assms(5) [OF m] unfolding watching_def same by blast
  qed
qed

lemma broadcast_fields:
  "send_broadcast T m s = Some (e, s') \<Longrightarrow> ag_anns s' = ag_anns s \<and> ag_running s' = ag_running s \<and> ag_todo s' = ag_todo s \<and>
     ag_sending s' = ag_sending s \<and> ag_next s' = ag_next s \<and> anw_actives (ag_writer s') = anw_actives (ag_writer s) \<and>
     anw_initErr (ag_writer s') = anw_initErr (ag_writer s) \<and> anw_closed (ag_writer s') = anw_closed (ag_writer s)"
  by (auto simp: send_broadcast_def bind_Some_eq Let_def split_beta)

lemma ended_fields:
  "sendEndedLocked T sfx s = Some s' \<Longrightarrow> ag_anns s' = ag_anns s \<and> ag_running s' = ag_running s \<and> ag_todo s' = ag_todo s \<and>
     ag_sending s' = ag_sending s \<and> anw_actives (ag_writer s') = anw_actives (ag_writer s) \<and>
     anw_initErr (ag_writer s') = anw_initErr (ag_writer s)"
  by (auto simp: sendEndedLocked_def dest!: broadcast_fields split: if_splits)

text \<open>\<open>remove_active\<close> and what is left of the actives.\<close>

lemma remove_fields:
  assumes "remove_active T sfx i s = Some s'"
  shows "ag_anns s' = ag_anns s" "ag_running s' = ag_running s" "ag_todo s' = ag_todo s" "ag_sending s' = ag_sending s"
    "anw_initErr (ag_writer s') = anw_initErr (ag_writer s)"
    "map_of (anw_actives (ag_writer s')) t = Some act \<Longrightarrow>
      map_of (anw_actives (ag_writer s)) t = Some act \<and> \<not> (t = sfx \<and> ac_id act = i)"
  using assms by (auto simp: remove_active_def delete_conv' dest!: ended_fields split: if_splits)

lemma watching_remove:
  assumes "watching X s" "remove_active T sfx i s = Some s'" shows "watching X s'"
  by (rule watching_less [OF assms(1) remove_fields(1,2,4) [OF assms(2)]])
    (use remove_fields(3,5,6) [OF assms(2)] in \<open>auto simp: todo_keys_def\<close>)

lemma watching_register:
  assumes "watching {sfx} s" "\<And>act. map_of (anw_actives (ag_writer s)) sfx = Some act \<Longrightarrow> ac_announcement act = a"
  shows "watching {} (registerEndHandlerLocked sfx a s)"
proof (cases "map_of (anw_actives (ag_writer s)) sfx")
  case None
  then have "registerEndHandlerLocked sfx a s = s" by (simp add: registerEndHandlerLocked_def)
  then show ?thesis using assms(1) None unfolding watching_def by (auto, metis option.distinct(1))
next
  case (Some act)
  then have ann: "ac_announcement act = a" by (rule assms(2))
  obtain now handle ann where f: "AfterFunc (RemoveActive sfx (ac_id act)) (ag_anns s a) = (now, handle, ann)"
    by (cases "AfterFunc (RemoveActive sfx (ac_id act)) (ag_anns s a)")
  let ?s1 = "(set_ann a ann s)\<lparr>ag_running := ag_running s @ now\<rparr>"
  let ?new = "act\<lparr>ac_stop := Some handle\<rparr>"
  let ?s' = "on_writer (\<lambda>w. w\<lparr>anw_actives := AList.update sfx ?new (anw_actives w)\<rparr>) ?s1"
  have s': "registerEndHandlerLocked sfx a s = ?s'"
    using Some ann f by (simp add: registerEndHandlerLocked_def set_ann_def)
  have ok: "\<forall>b. ann_ok (ag_anns s b)" using assms(1) by (simp add: watching_def)
  have "watching {sfx} ?s1"
    by (rule watching_kept [OF assms(1) kept_after [OF ok f]]) simp_all
  moreover have "watched_by ?s' t x = watched_by ?s1 t x" "handle_ok ?s' t x = handle_ok ?s1 t x" for t x
    by (simp_all add: watched_by_def handle_ok_def)
  moreover have "watched_by ?s1 sfx ?new" "handle_ok ?s1 sfx ?new"
    using f ann by (auto simp: watched_by_def handle_ok_def AfterFunc_def split: if_splits)
  ultimately show ?thesis unfolding s' watching_def by (auto simp: update_conv' todo_keys_def split: if_splits)
qed

lemma watching_sending:
  assumes "watching X s" "\<forall>(sfx, a, old) \<in> set q. \<forall>act. old = Some act \<longrightarrow> handle_ok s sfx act"
  shows "watching X (s\<lparr>ag_sending := q\<rparr>)"
  using assms unfolding watching_def todo_keys_def watched_by_def handle_ok_def by simp

text \<open>Ending an active: its own callback is the only one that its stop function can clear.\<close>

lemma watching_end_active:
  assumes "watching X s" "end_active T sfx old s = Some s'" "handle_ok s sfx old"
  shows "watching X s'"
proof (cases "\<exists>h. ac_stop old = Some (Some h) \<and> fst (stop (Some h) (ag_anns s (ac_announcement old)))")
  case False
  have "stop handle a = (False, a)" if "\<not> fst (stop handle a)" for handle and a :: "callback Announcement"
    using that by (auto simp: stop_def split: option.splits if_splits)
  then have "s' = s"
    using assms(2) False by (auto simp: end_active_def Let_def set_ann_def stop_def split: option.splits if_splits prod.splits)
  then show ?thesis using assms(1) by simp
next
  case True
  let ?a = "ac_announcement old" let ?H = "an_afterHandlers (ag_anns s (ac_announcement old))"
  obtain h where h: "ac_stop old = Some (Some h)" "h < length ?H" "?H ! h \<noteq> None"
      "stop (Some h) (ag_anns s ?a) = (True, (ag_anns s ?a)\<lparr>an_afterHandlers := ?H[h := None]\<rparr>)"
    using True by (auto simp: stop_def split: if_splits)
  have ok: "\<forall>b. ann_ok (ag_anns s b)" using assms(1) by (simp add: watching_def)
  have "an_active (ag_anns s ?a)" using ok [rule_format, of ?a] h(2) by (auto simp: ann_ok_def)
  then have mine: "?H ! h = Some (RemoveActive sfx (ac_id old))" using assms(3) h(1,3) by (auto simp: handle_ok_def)
  let ?s1 = "set_ann ?a ((ag_anns s ?a)\<lparr>an_afterHandlers := ?H[h := None]\<rparr>) s"
  have r: "remove_active T sfx (ac_id old) ?s1 = Some s'" using assms(2) h(1,4) by (simp add: end_active_def)
  note f = remove_fields [OF r]
  have hk: "handle_ok s' t act" if "handle_ok s t act" for t act
    using that h(2) unfolding handle_ok_def f(1) by (auto simp: nth_list_update)
  have wk: "watched_by s' t act" if w: "watched_by s t act" "\<not> (t = sfx \<and> ac_id act = ac_id old)" for t act
  proof (cases "RemoveActive t (ac_id act) \<in> set (ag_running s)")
    case True
    then show ?thesis by (simp add: watched_by_def f(2))
  next
    case False
    let ?K = "an_afterHandlers (ag_anns s (ac_announcement act))"
    obtain k where k: "ac_stop act = Some (Some k)" "an_active (ag_anns s (ac_announcement act))" "k < length ?K"
        "?K ! k = Some (RemoveActive t (ac_id act))"
      using w(1) False by (auto simp: watched_by_def)
    then have "ac_announcement act \<noteq> ?a \<or> k \<noteq> h" using w(2) mine by auto
    then have "an_afterHandlers (ag_anns s' (ac_announcement act)) ! k = Some (RemoveActive t (ac_id act)) \<and>
        k < length (an_afterHandlers (ag_anns s' (ac_announcement act))) \<and> an_active (ag_anns s' (ac_announcement act))"
      using k(2-4) by (auto simp: f(1))
    then show ?thesis using k(1) by (auto simp: watched_by_def)
  qed
  have m: "map_of (anw_actives (ag_writer s)) t = Some act \<and> \<not> (t = sfx \<and> ac_id act = ac_id old)"
    if "map_of (anw_actives (ag_writer s')) t = Some act" for t act
    using f(6) [OF that] by simp
  have "ann_ok (ag_anns s' b)" for b
    using ok [rule_format, of b] ok [rule_format, of ?a] \<open>an_active (ag_anns s ?a)\<close> by (auto simp: f(1) ann_ok_def)
  note ok' = this
  show ?thesis
    unfolding watching_def
  proof (intro conjI allI impI)
    show "ann_ok (ag_anns s' b)" for b by (rule ok')
    show "\<forall>(sfx, a, old) \<in> set (ag_sending s'). \<forall>act. old = Some act \<longrightarrow> handle_ok s' sfx act"
      using assms(1) hk by (auto simp: watching_def f(4))
    fix t act assume a: "map_of (anw_actives (ag_writer s')) t = Some act"
    show "handle_ok s' t act" using hk m [OF a] assms(1) by (simp add: watching_def)
    assume "anw_initErr (ag_writer s') = None" "t \<notin> todo_keys s' \<union> X"
    then have "watched_by s t act" using assms(1) m [OF a] by (auto simp: watching_def f(3,5) todo_keys_def)
    then show "watched_by s' t act" using wk m [OF a] by blast
  qed
qed

lemma collect_stop:
  "\<lbrakk>collect_actives w anns as acts free = (acts', free'); \<forall>(sfx, act) \<in> set acts. ac_stop act = None\<rbrakk> \<Longrightarrow>
   \<forall>(sfx, act) \<in> set acts'. ac_stop act = None"
proof (induction as arbitrary: acts free)
  case (Cons a as)
  have "\<forall>(sfx, act) \<in> set (AList.update t \<lparr>ac_id = i, ac_announcement = a, ac_stop = None\<rparr> acts). ac_stop act = None" for t i
    using Cons.prems(2) by (induction acts) auto
  moreover obtain sfx ok where g: "GetSuffix (an_path (anns a)) (anw_prefix w) = (sfx, ok)" by fastforce
  moreover have "collect_actives w anns as (AList.update sfx \<lparr>ac_id = free, ac_announcement = a, ac_stop = None\<rparr> acts) (Suc free)
        = (acts', free') \<or> collect_actives w anns as acts free = (acts', free')"
    using Cons.prems(1) g by (cases ok) (auto simp: Let_def split: if_splits)
  ultimately show ?case using Cons.IH Cons.prems(2) by blast
qed simp

lemma watching_init_begin:
  assumes "watching {} s" "ann_inv anns w0 s" "init_begin T as s = Some s'" shows "watching {} s'"
proof -
  let ?w = "ag_writer s"
  let ?s0 = "on_writer (\<lambda>w. w\<lparr>anw_initStarted := True\<rparr>) s"
  have w: "writer_shape anns w0 s" using assms(2) by (simp add: ann_inv_def shape_def)
  have failed: "watching {} (init_failed e ?s0)" for e
    by (rule watching_less [OF assms(1)]) (simp_all add: init_failed_def)
  obtain acts free where c: "collect_actives ?w (ag_anns s) as [] (ag_next s) = (acts, free)" by fastforce
  have st: "map_of acts sfx = Some act \<Longrightarrow> ac_stop act = None" for sfx act
    using collect_stop [OF c] by (auto dest: map_of_SomeD)
  show ?thesis
  proof (cases "anw_initStarted ?w \<or> t_done T (anw_stream ?w) \<noteq> None \<or> anw_closed ?w")
    case True
    then have "s' = ?s0 \<or> (\<exists>e. s' = init_failed e ?s0)"
      using assms(3) c by (auto simp: init_begin_def Let_def split: if_splits option.splits)
    moreover have "watching {} ?s0" by (rule watching_less [OF assms(1)]) (simp_all add: todo_keys_def)
    ultimately show ?thesis using failed by blast
  next
    case False
    then have se: "ag_sending s = []" "ag_todo s = []" using w by (auto simp: writer_shape_def)
    obtain b where b1: "AnnounceOk_Encode \<lparr>aom_HopID = anw_localHopID ?w, aom_ActiveCount = of_nat (length acts)\<rparr> = Some b"
      using assms(3) False c by (auto simp: init_begin_def Let_def bind_Some_eq)
    obtain e log where b2: "Stream_Write T b (anw_stream ?w) = (e, log)" by fastforce
    note b = b1 b2
    let ?s1 = "on_writer (\<lambda>w. w\<lparr>anw_actives := acts, anw_stream := log\<rparr>) (?s0\<lparr>ag_next := free\<rparr>)"
    let ?todo = "map (\<lambda>(sfx, ac). (sfx, ac_announcement ac)) acts"
    have ok: "\<forall>a. ann_ok (ag_anns s a)" using assms(1) by (simp add: watching_def)
    show ?thesis
    proof (cases e)
      case None
      then have s': "s' = on_writer (\<lambda>w. w\<lparr>anw_initDone := (?todo = [])\<rparr>) (?s1\<lparr>ag_todo := ?todo\<rparr>)"
        using assms(3) False c b by (simp add: init_begin_def Let_def)
      have "sfx \<in> todo_keys s'" if "map_of acts sfx = Some act" for sfx act
        using that by (force simp: s' todo_keys_def dest: map_of_SomeD)
      then show ?thesis using ok st se unfolding watching_def by (auto simp: s' handle_ok_def)
    next
      case (Some x)
      then have s': "s' = init_failed (announce_failure_of x) ?s1"
        using assms(3) False c b by (simp add: init_begin_def Let_def)
      show ?thesis using ok st se unfolding watching_def by (auto simp: s' init_failed_def handle_ok_def)
    qed
  qed
qed

lemma watching_init_next:
  assumes "watching {} s" "ann_inv anns w0 s" "stream_contract T" "init_next T s = Some s'" shows "watching {} s'"
proof (cases "ag_todo s")
  case Nil
  then show ?thesis using assms(1,4) by (simp add: init_next_def)
next
  case (Cons x rest)
  obtain sfx a where x: "x = (sfx, a)" by (cases x)
  have w: "writer_shape anns w0 s" using assms(2) by (simp add: ann_inv_def shape_def)
  let ?m = "\<lparr>am_AnnounceStatus = ACTIVE, am_BroadcastPathSuffix = sfx, am_HopIDs = buildHopIDs (ag_anns s a)\<rparr>"
  obtain e s1 where e: "send_broadcast T ?m s = Some (e, s1)" using assms(4) Cons x by (auto simp: init_next_def bind_Some_eq)
  note f = broadcast_fields [OF e]
  show ?thesis
  proof (cases e)
    case None
    have nc: "\<not> anw_closed (ag_writer s)"
      using send_broadcast_cases [OF e assms(3) w] None by (metis option.distinct(1))
    have "watching {sfx} (s1\<lparr>ag_todo := rest\<rparr>)"
      by (rule watching_less [OF assms(1)]) (use f Cons x in \<open>auto simp: todo_keys_def\<close>)
    moreover have "ac_announcement act = a" if "map_of (anw_actives (ag_writer (s1\<lparr>ag_todo := rest\<rparr>))) sfx = Some act" for act
      using w nc Cons x f that unfolding writer_shape_def by auto
    ultimately have "watching {} (registerEndHandlerLocked sfx a (s1\<lparr>ag_todo := rest\<rparr>))" by (rule watching_register)
    then have "watching {} (on_writer (\<lambda>w. w\<lparr>anw_initDone := (rest = [])\<rparr>) (registerEndHandlerLocked sfx a (s1\<lparr>ag_todo := rest\<rparr>)))"
      by (rule watching_less) (simp_all add: todo_keys_def)
    then show ?thesis using assms(4) Cons x e None by (simp add: init_next_def)
  next
    case (Some y)
    then have s': "s' = init_failed (announce_failure_of y) (s1\<lparr>ag_todo := []\<rparr>)"
      using assms(4) Cons x e by (simp add: init_next_def)
    show ?thesis by (rule watching_less [OF assms(1)]) (use f in \<open>simp_all add: s' init_failed_def\<close>)
  qed
qed

lemma watching_send_finish:
  assumes "watching {} s" "ann_inv anns w0 s" "send_finish T sfx a s = Some (r, s')" shows "watching {} s'"
proof (cases "anw_closed (ag_writer s)")
  case True
  then show ?thesis using assms(1,3) by (simp add: send_finish_def)
next
  case nc: False
  let ?m = "\<lparr>am_AnnounceStatus = ACTIVE, am_BroadcastPathSuffix = sfx, am_HopIDs = buildHopIDs (ag_anns s a)\<rparr>"
  obtain e s1 where e: "send_broadcast T ?m s = Some (e, s1)" using assms(3) nc by (auto simp: send_finish_def bind_Some_eq)
  note f = broadcast_fields [OF e]
  show ?thesis
  proof (cases e)
    case None
    let ?act = "\<lparr>ac_id = ag_next s, ac_announcement = a, ac_stop = None\<rparr>"
    let ?s2 = "on_writer (\<lambda>w. w\<lparr>anw_actives := AList.update sfx ?act (anw_actives w)\<rparr>) (s1\<lparr>ag_next := Suc (ag_next s)\<rparr>)"
    have s': "s' = registerEndHandlerLocked sfx a ?s2" using assms(3) nc e None f by (simp add: send_finish_def)
    have same: "watched_by ?s2 t x = watched_by s t x" "handle_ok ?s2 t x = handle_ok s t x" for t x
      using f by (simp_all add: watched_by_def handle_ok_def)
    have "handle_ok s sfx ?act" by (simp add: handle_ok_def)
    then have "watching {sfx} ?s2"
      using assms(1) f unfolding watching_def same by (auto simp: update_conv' todo_keys_def split: if_splits)
    moreover have "ac_announcement act = a" if "map_of (anw_actives (ag_writer ?s2)) sfx = Some act" for act
      using that by (auto simp: update_conv')
    ultimately show ?thesis unfolding s' by (rule watching_register)
  next
    case (Some y)
    then have s': "s' = s1" using assms(3) nc e by (simp add: send_finish_def)
    show ?thesis by (rule watching_less [OF assms(1)]) (use f in \<open>simp_all add: s' todo_keys_def\<close>)
  qed
qed

lemma stop_all_watching:
  assumes "ann_inv anns w0 s" "watching {} s" shows "watching {} (stopAll s)"
proof -
  let ?acts = "anw_actives (ag_writer s)"
  have ok: "ann_ok (snd (stop h a))" if "ann_ok a" for h and a :: "callback Announcement"
    using that by (auto simp: ann_ok_def stop_def split: option.split)
  have keep: "handle_ok (set_ann b (snd (stop h (ag_anns u b))) u) t x" if "handle_ok u t x" for u b h t x
    using that by (auto simp: handle_ok_def stop_def nth_list_update split: option.split)
  have step: "stop_actives (x # acts) u = stop_actives acts (case ac_stop (snd x) of None \<Rightarrow> u
      | Some h \<Rightarrow> set_ann (ac_announcement (snd x)) (snd (stop h (ag_anns u (ac_announcement (snd x))))) u)" for x acts u
    by (simp add: stop_actives_def split_beta)
  have "(\<forall>a. ann_ok (ag_anns u a)) \<longrightarrow> (\<forall>a. ann_ok (ag_anns (stop_actives acts u) a)) \<and>
      ag_sending (stop_actives acts u) = ag_sending u \<and> (\<forall>t x. handle_ok u t x \<longrightarrow> handle_ok (stop_actives acts u) t x)" for acts u
  proof (induction acts arbitrary: u)
    case Nil
    then show ?case by (simp add: stop_actives_def)
  next
    case (Cons x acts)
    then show ?case unfolding step using ok keep by (cases "ac_stop (snd x)") auto
  qed
  from this [of s ?acts] have "(\<forall>a. ann_ok (ag_anns (stop_actives ?acts s) a))" "ag_sending (stop_actives ?acts s) = ag_sending s"
      "\<forall>t x. handle_ok s t x \<longrightarrow> handle_ok (stop_actives ?acts s) t x"
    using assms(2) by (auto simp: watching_def)
  moreover have "handle_ok (on_writer f u) t x = handle_ok u t x" for f u t x by (simp add: handle_ok_def)
  ultimately show ?thesis using assms(2) unfolding stopAll_def watching_def by fastforce
qed

lemma watching_step:
  assumes "ann_step s s'" "ann_inv anns w0 s" "watching {} s"
  shows "watching {} s'"
proof -
  have ok: "\<forall>a. ann_ok (ag_anns s a)" using assms(3) by (simp add: watching_def)
  from assms(1) show ?thesis
  proof cases
    case (init_begin T as)
    then show ?thesis using watching_init_begin [OF assms(3,2)] by blast
  next
    case (init_next T)
    then show ?thesis using watching_init_next [OF assms(3,2)] by blast
  next
    case (send_begin a sfx old)
    have "handle_ok s sfx act" if "old = Some act" for act
    proof -
      have "map_of (anw_actives (ag_writer s)) sfx = Some act"
        using send_begin(3) that by (auto simp: send_begin_def Let_def split: option.splits if_splits prod.splits bool.splits)
      then show ?thesis using assms(3) by (simp add: watching_def)
    qed
    then show ?thesis unfolding send_begin(1)
      by (intro watching_sending [OF assms(3)]) (use assms(3) in \<open>auto simp: watching_def\<close>)
  next
    case (end_old T xs sfx a old ys s1)
    have q: "\<forall>(sfx, a, old) \<in> set (ag_sending s). \<forall>act. old = Some act \<longrightarrow> handle_ok s sfx act"
      using assms(3) by (simp add: watching_def)
    have "handle_ok s sfx old" using q end_old(3) by auto
    from watching_end_active [OF assms(3) end_old(4) this] have w: "watching {} s1" .
    moreover have "ag_sending s1 = ag_sending s" using end_active_frame [OF end_old(4)] by blast
    ultimately have "\<forall>(sfx, a, old) \<in> set (ag_sending s). \<forall>act. old = Some act \<longrightarrow> handle_ok s1 sfx act"
      unfolding watching_def by simp
    then show ?thesis unfolding end_old(1) by (intro watching_sending [OF w]) (auto simp: end_old(3))
  next
    case (send_finish T xs sfx a ys e s1)
    have w: "watching {} s1" by (rule watching_send_finish [OF assms(3,2) send_finish(4)])
    moreover have "ag_sending s1 = ag_sending s" using send_finish_frame [OF send_finish(4)] by blast
    ultimately have "\<forall>(sfx, a, old) \<in> set (ag_sending s). \<forall>act. old = Some act \<longrightarrow> handle_ok s1 sfx act"
      unfolding watching_def by simp
    then show ?thesis unfolding send_finish(1) by (intro watching_sending [OF w]) (auto simp: send_finish(3))
  next
    case (writer_close T)
    show ?thesis
      by (rule watching_less [OF stop_all_watching [OF assms(2,3)]])
        (simp_all add: writer_close AnnouncementWriter_Close_def Let_def split_beta todo_keys_def)
  next
    case (writer_close_error code)
    show ?thesis
      by (rule watching_less [OF stop_all_watching [OF assms(2,3)]])
        (simp_all add: writer_close_error AnnouncementWriter_CloseWithError_def todo_keys_def)
  next
    case (announcement_end n a)
    show ?thesis
      by (rule watching_kept [OF assms(3)])
        (use kept_end [OF ok announcement_end(2)] announcement_end(1) in
          \<open>auto simp: end_announcement_def set_ann_def split: prod.split\<close>)
  next
    case (callback T i)
    let ?s1 = "s\<lparr>ag_running := take i (ag_running s) @ drop (Suc i) (ag_running s)\<rparr>"
    have split: "ag_running s = take i (ag_running s) @ ag_running s ! i # drop (Suc i) (ag_running s)"
      using callback(2) by (rule id_take_nth_drop)
    have r: "c \<in> set (ag_running ?s1)" if "c \<in> set (ag_running s)" "c \<noteq> ag_running s ! i" for c
      using that arg_cong [OF split, of set] by auto
    show ?thesis
    proof (cases "ag_running s ! i")
      case (OtherCallback k)
      then have s': "s' = ?s1" using callback(3) by (simp add: run_callback_def)
      have "watched_by ?s1 t x" if "watched_by s t x" for t x
        using that r [of "RemoveActive t (ac_id x)"] OtherCallback by (auto simp: watched_by_def)
      moreover have "handle_ok ?s1 t x = handle_ok s t x" for t x by (simp add: handle_ok_def)
      ultimately show ?thesis using assms(3) unfolding s' watching_def by (simp add: todo_keys_def)
    next
      case (RemoveActive sfx j)
      then have rem: "remove_active T sfx j ?s1 = Some s'" using callback(3) by (simp add: run_callback_def Let_def)
      note f = remove_fields [OF rem]
      have wk: "watched_by s' t x" if "watched_by s t x" "\<not> (t = sfx \<and> ac_id x = j)" for t x
        using that r [of "RemoveActive t (ac_id x)"] RemoveActive unfolding watched_by_def f(1,2) by auto
      have hk: "handle_ok s' t x = handle_ok s t x" for t x by (simp add: handle_ok_def f(1))
      show ?thesis
        unfolding watching_def
      proof (intro conjI allI impI)
        show "ann_ok (ag_anns s' b)" for b using ok by (simp add: f(1))
        show "\<forall>(sfx, a, old) \<in> set (ag_sending s'). \<forall>act. old = Some act \<longrightarrow> handle_ok s' sfx act"
          using assms(3) by (simp add: watching_def f(4) hk)
        fix t act assume "map_of (anw_actives (ag_writer s')) t = Some act"
        from f(6) [OF this] have a: "map_of (anw_actives (ag_writer s)) t = Some act" "\<not> (t = sfx \<and> ac_id act = j)" by simp_all
        show "handle_ok s' t act" using assms(3) a(1) by (simp add: watching_def hk)
        assume "anw_initErr (ag_writer s') = None" "t \<notin> todo_keys s' \<union> {}"
        then have "watched_by s t act" using assms(3) a(1) by (auto simp: watching_def f(3,5) todo_keys_def)
        then show "watched_by s' t act" using wk a(2) by blast
      qed
    qed
  next
    case (other_after k a now handle ann)
    show ?thesis unfolding other_after(1)
      by (rule watching_kept [OF assms(3) kept_after [OF ok other_after(2)]]) simp_all
  next
    case (other_stop a i k ok' ann)
    show ?thesis unfolding other_stop(1)
      by (rule watching_kept [OF assms(3) kept_other_stop [OF ok other_stop(2,3)]]) simp_all
  qed
qed

lemma ann_reach_watching:
  assumes "ann_reach anns w s" "\<forall>a. ann_ok (anns a)" shows "watching {} s"
  using assms(1)
proof (induction rule: ann_reach.induct)
  case (start pfx l x)
  then have "anw_actives w = []" by (auto simp: newAnnouncementWriter_def split: if_splits)
  then show ?case using assms(2) by (simp add: watching_def)
next
  case (step s s')
  then show ?case using watching_step [OF step.hyps(2) ann_reach_inv [OF step.hyps(1)]] by blast
qed

text \<open>C11 Nothing stale stays announced: once the callbacks that were started have run, every broadcast a
  reader of the stream sees as active is an announcement that is active now, under its suffix and with
  its hop path. The identity of each activeAnnouncement keeps a late callback from ending its successor.\<close>
theorem no_stale_announcement:
  assumes "ann_reach anns w s" "\<forall>a. ann_ok (anns a)" "\<not> torn (anw_stream (ag_writer s))"
    "\<forall>a. length (an_path (anns a)) + 8 * length (an_hopIDs (anns a)) \<le> 65000"
    "newAnnouncementReader n pfx [] None = Some r"
    "ag_running s = []" "anw_initDone (ag_writer s)" "anw_initErr (ag_writer s) = None" "\<not> anw_closed (ag_writer s)" "\<not> ag_over s"
  shows "\<exists>r'. read_announcements n None (written (anw_stream (ag_writer s))) r = Some (DecodeFailed EOF, r') \<and>
    (\<forall>sfx hops. reader_view r' sfx = Some hops \<longrightarrow>
      (\<exists>a. an_active (ag_anns s a) \<and> GetSuffix (an_path (ag_anns s a)) (anw_prefix w) = (sfx, True) \<and>
           hops = appendHopID (an_hopIDs (ag_anns s a)) (anw_localHopID w)))"
proof -
  obtain r' where r': "read_announcements n None (written (anw_stream (ag_writer s))) r = Some (DecodeFailed EOF, r')"
      "reader_view r' = (\<lambda>sfx. map_option (\<lambda>act. appendHopID (an_hopIDs (anns (ac_announcement act))) (anw_localHopID w))
         (map_of (anw_actives (ag_writer s)) sfx))"
    using announcements_told [OF assms(1,3,4,5)] assms(7-10) by blast
  have inv: "writer_shape anns w s" "same_anns anns (ag_anns s)"
    using ann_reach_inv [OF assms(1)] by (simp_all add: ann_inv_def shape_def)
  have "\<exists>a. an_active (ag_anns s a) \<and> GetSuffix (an_path (ag_anns s a)) (anw_prefix w) = (sfx, True) \<and>
      hops = appendHopID (an_hopIDs (ag_anns s a)) (anw_localHopID w)"
    if v: "reader_view r' sfx = Some hops" for sfx hops
  proof -
    obtain act where act: "map_of (anw_actives (ag_writer s)) sfx = Some act"
        "hops = appendHopID (an_hopIDs (anns (ac_announcement act))) (anw_localHopID w)"
      using v r'(2) by auto
    have "todo_keys s = {}" using inv(1) assms(7) by (simp add: writer_shape_def todo_keys_def)
    then have "watched_by s sfx act"
      using ann_reach_watching [OF assms(1,2)] act(1) assms(8) by (simp add: watching_def)
    then have "an_active (ag_anns s (ac_announcement act))" using assms(6) by (auto simp: watched_by_def)
    moreover have "announced anns w sfx (ac_announcement act)" using inv(1) act(1) unfolding writer_shape_def by blast
    ultimately show ?thesis using act(2) shape_simps [OF inv(2)] by (auto simp: announced_def)
  qed
  with r'(1) show ?thesis by blast
qed

section \<open>Active announcements stay told\<close>

text \<open>The callback of an active belongs to its announcement and is started only by that one's end.\<close>

definition owned :: "announcing \<Rightarrow> bool" where
  "owned s \<longleftrightarrow> (\<forall>sfx act. map_of (anw_actives (ag_writer s)) sfx = Some act \<longrightarrow>
     (RemoveActive sfx (ac_id act) \<in> set (ag_running s) \<longrightarrow> \<not> an_active (ag_anns s (ac_announcement act))) \<and>
     (\<forall>b. Some (RemoveActive sfx (ac_id act)) \<in> set (an_afterHandlers (ag_anns s b)) \<longrightarrow> b = ac_announcement act))"

text \<open>Fewer callbacks, or callbacks of somebody else, and fewer actives.\<close>

lemma owned_less:
  assumes "owned s"
    "\<And>sfx act. map_of (anw_actives (ag_writer s')) sfx = Some act \<Longrightarrow>
       \<exists>x. map_of (anw_actives (ag_writer s)) sfx = Some x \<and> ac_id act = ac_id x \<and> ac_announcement act = ac_announcement x"
    "\<And>c. c \<in> set (ag_running s') \<Longrightarrow> c \<in> set (ag_running s) \<or> (\<exists>k. c = OtherCallback k)"
    "\<And>b. an_active (ag_anns s' b) \<Longrightarrow> an_active (ag_anns s b)"
    "\<And>b c. Some c \<in> set (an_afterHandlers (ag_anns s' b)) \<Longrightarrow>
       Some c \<in> set (an_afterHandlers (ag_anns s b)) \<or> (\<exists>k. c = OtherCallback k)"
  shows "owned s'"
  unfolding owned_def
proof (intro allI impI)
  fix sfx act assume "map_of (anw_actives (ag_writer s')) sfx = Some act"
  then obtain x where x: "map_of (anw_actives (ag_writer s)) sfx = Some x" "ac_id act = ac_id x" "ac_announcement act = ac_announcement x"
    using assms(2) by blast
  have "RemoveActive sfx (ac_id x) \<in> set (ag_running s)" if "RemoveActive sfx (ac_id x) \<in> set (ag_running s')"
    using assms(3) [OF that] by auto
  moreover have "Some (RemoveActive sfx (ac_id x)) \<in> set (an_afterHandlers (ag_anns s b))"
    if "Some (RemoveActive sfx (ac_id x)) \<in> set (an_afterHandlers (ag_anns s' b))" for b
    using assms(5) [OF that] by auto
  ultimately show "(RemoveActive sfx (ac_id act) \<in> set (ag_running s') \<longrightarrow> \<not> an_active (ag_anns s' (ac_announcement act))) \<and>
      (\<forall>b. Some (RemoveActive sfx (ac_id act)) \<in> set (an_afterHandlers (ag_anns s' b)) \<longrightarrow> b = ac_announcement act)"
    using assms(1,4) x unfolding owned_def by metis
qed

lemma owned_register:
  assumes "owned s" shows "owned (registerEndHandlerLocked sfx a s)"
proof (cases "\<exists>act. map_of (anw_actives (ag_writer s)) sfx = Some act \<and> ac_announcement act = a")
  case False
  then have "registerEndHandlerLocked sfx a s = s" by (auto simp: registerEndHandlerLocked_def split: option.split)
  then show ?thesis using assms by simp
next
  case True
  then obtain act where act: "map_of (anw_actives (ag_writer s)) sfx = Some act" "ac_announcement act = a" by blast
  obtain now handle ann where f: "AfterFunc (RemoveActive sfx (ac_id act)) (ag_anns s a) = (now, handle, ann)"
    by (cases "AfterFunc (RemoveActive sfx (ac_id act)) (ag_anns s a)")
  let ?new = "act\<lparr>ac_stop := Some handle\<rparr>"
  let ?s' = "on_writer (\<lambda>w. w\<lparr>anw_actives := AList.update sfx ?new (anw_actives w)\<rparr>)
      (set_ann a ann s\<lparr>ag_running := ag_running s @ now\<rparr>)"
  have s': "registerEndHandlerLocked sfx a s = ?s'" using act f by (simp add: registerEndHandlerLocked_def)
  have now: "c \<in> set now \<Longrightarrow> c = RemoveActive sfx (ac_id act) \<and> \<not> an_active (ag_anns s a)" for c
    using f by (auto simp: AfterFunc_def split: if_splits)
  have ann: "an_active ann = an_active (ag_anns s a)"
      "Some c \<in> set (an_afterHandlers ann) \<Longrightarrow> Some c \<in> set (an_afterHandlers (ag_anns s a)) \<or> c = RemoveActive sfx (ac_id act)" for c
    using f by (auto simp: AfterFunc_def split: if_splits)
  show ?thesis
    unfolding s' owned_def
  proof (intro allI impI)
    fix t x assume x: "map_of (anw_actives (ag_writer ?s')) t = Some x"
    define y where "y = (if t = sfx then act else x)"
    have y: "map_of (anw_actives (ag_writer s)) t = Some y" "ac_id x = ac_id y" "ac_announcement x = ac_announcement y"
      using x act by (auto simp: y_def update_conv' split: if_splits)
    have o: "(RemoveActive t (ac_id y) \<in> set (ag_running s) \<longrightarrow> \<not> an_active (ag_anns s (ac_announcement y))) \<and>
        (\<forall>b. Some (RemoveActive t (ac_id y)) \<in> set (an_afterHandlers (ag_anns s b)) \<longrightarrow> b = ac_announcement y)"
      using assms y(1) unfolding owned_def by blast
    have "t = sfx \<Longrightarrow> ac_announcement y = a" using act(2) by (simp add: y_def)
    then show "(RemoveActive t (ac_id x) \<in> set (ag_running ?s') \<longrightarrow> \<not> an_active (ag_anns ?s' (ac_announcement x))) \<and>
        (\<forall>b. Some (RemoveActive t (ac_id x)) \<in> set (an_afterHandlers (ag_anns ?s' b)) \<longrightarrow> b = ac_announcement x)"
      using o now ann y(2,3) by (auto split: if_splits dest!: ann(2))
  qed
qed

lemma stop_subset: "Some c \<in> set (an_afterHandlers (snd (stop h a))) \<Longrightarrow> Some c \<in> set (an_afterHandlers a)"
  by (auto simp: stop_def split: option.splits if_splits dest!: subsetD [OF set_update_subset_insert])

lemma owned_stop_actives: "owned s \<Longrightarrow> owned (stop_actives acts s)"
proof (induction acts arbitrary: s)
  case Nil
  then show ?case by (simp add: stop_actives_def)
next
  case (Cons x acts)
  let ?a = "ac_announcement (snd x)"
  have "owned (set_ann ?a (snd (stop h (ag_anns s ?a))) s)" for h
    by (rule owned_less [OF Cons.prems]) (auto dest: stop_subset split: if_splits)
  then have "owned (case ac_stop (snd x) of None \<Rightarrow> s | Some h \<Rightarrow> set_ann ?a (snd (stop h (ag_anns s ?a))) s)"
    using Cons.prems by (cases "ac_stop (snd x)") auto
  then show ?case using Cons.IH by (simp add: stop_actives_def split_beta)
qed

lemma owned_remove: "\<lbrakk>owned s; remove_active T sfx i s = Some s'\<rbrakk> \<Longrightarrow> owned s'"
  by (erule owned_less) (auto simp: remove_fields dest: remove_fields(6))

lemma owned_fresh:
  assumes "owned s" "callbacks_fit s" "ag_anns s' = ag_anns s" "ag_running s' = ag_running s"
    "\<And>sfx act. map_of (anw_actives (ag_writer s')) sfx = Some act \<Longrightarrow>
       map_of (anw_actives (ag_writer s)) sfx = Some act \<or> ag_next s \<le> ac_id act"
  shows "owned s'"
proof -
  have "RemoveActive sfx i \<notin> set (ag_running s)" "Some (RemoveActive sfx i) \<notin> set (an_afterHandlers (ag_anns s b))"
    if "ag_next s \<le> i" for sfx i b
    using assms(2) that unfolding callbacks_fit_def callbacks_def by fastforce+
  then show ?thesis using assms(1,5) unfolding owned_def assms(3,4) by metis
qed

lemma owned_init_begin:
  assumes "owned s" "ann_inv anns w0 s" "init_begin T as s = Some s'" shows "owned s'"
proof -
  let ?w = "ag_writer s"
  have fit: "callbacks_fit s" using assms(2) by (simp add: ann_inv_def shape_def)
  obtain acts free where c: "collect_actives ?w (ag_anns s) as [] (ag_next s) = (acts, free)" by fastforce
  have "\<forall>(sfx, act) \<in> set acts. ag_next s \<le> ac_id act" using collect_actives_inv [OF c, of "ag_next s"] by auto
  then have low: "map_of acts sfx = Some act \<Longrightarrow> ag_next s \<le> ac_id act" for sfx act by (auto dest: map_of_SomeD)
  have "ag_anns s' = ag_anns s \<and> ag_running s' = ag_running s \<and>
      (anw_actives (ag_writer s') = anw_actives ?w \<or> anw_actives (ag_writer s') = acts)"
    using assms(3) c by (auto simp: init_begin_def Let_def init_failed_def bind_Some_eq split_beta split: if_splits option.splits)
  then show ?thesis using owned_fresh [OF assms(1) fit] low by metis
qed

lemma owned_step:
  assumes "ann_step s s'" "owned s" "ann_inv anns w0 s"
  shows "owned s'"
proof -
  have fit: "callbacks_fit s" using assms(3) by (simp add: ann_inv_def shape_def)
  have same: "owned u'" if "owned u" "ag_anns u' = ag_anns u" "ag_running u' = ag_running u"
      "anw_actives (ag_writer u') = anw_actives (ag_writer u)" for u u'
    using that by (simp add: owned_def)
  from assms(1) show ?thesis
  proof cases
    case (init_begin T as)
    then show ?thesis using owned_init_begin [OF assms(2,3)] by blast
  next
    case (init_next T)
    show ?thesis
    proof (cases "ag_todo s")
      case Nil
      then show ?thesis using init_next(2) assms(2) by (simp add: init_next_def)
    next
      case (Cons x rest)
      obtain sfx a where x: "x = (sfx, a)" by (cases x)
      obtain e s1 where e: "send_broadcast T \<lparr>am_AnnounceStatus = ACTIVE, am_BroadcastPathSuffix = sfx,
            am_HopIDs = buildHopIDs (ag_anns s a)\<rparr> s = Some (e, s1)"
        using init_next(2) Cons x by (auto simp: init_next_def bind_Some_eq)
      note f = broadcast_fields [OF e]
      have "owned (s1\<lparr>ag_todo := q\<rparr>)" for q by (rule same [OF assms(2)]) (use f in simp_all)
      then have "owned (registerEndHandlerLocked sfx a (s1\<lparr>ag_todo := rest\<rparr>))" "owned (s1\<lparr>ag_todo := []\<rparr>)"
        using owned_register by blast+
      then show ?thesis using init_next(2) Cons x e
        by (cases e) (auto simp: init_next_def init_failed_def intro: same)
    qed
  next
    case (send_begin a sfx old)
    then show ?thesis using assms(2) by (simp add: owned_def)
  next
    case (end_old T xs sfx a old ys s1)
    have "owned s1"
    proof (cases "ac_stop old")
      case None
      then show ?thesis using end_old(4) assms(2) by (simp add: end_active_def)
    next
      case (Some h)
      let ?a = "ac_announcement old"
      let ?s = "set_ann ?a (snd (stop h (ag_anns s ?a))) s"
      have "owned ?s" by (rule owned_less [OF assms(2)]) (auto dest: stop_subset split: if_splits)
      moreover have "s1 = ?s \<or> remove_active T sfx (ac_id old) ?s = Some s1"
        using end_old(4) Some by (simp add: end_active_def split_beta Let_def split: if_splits)
      ultimately show ?thesis using owned_remove by blast
    qed
    then show ?thesis unfolding end_old(1) by (simp add: owned_def)
  next
    case (send_finish T xs sfx a ys e s1)
    have "owned s1"
    proof (cases "anw_closed (ag_writer s)")
      case True
      then show ?thesis using send_finish(4) assms(2) by (simp add: send_finish_def)
    next
      case False
      let ?m = "\<lparr>am_AnnounceStatus = ACTIVE, am_BroadcastPathSuffix = sfx, am_HopIDs = buildHopIDs (ag_anns s a)\<rparr>"
      obtain e1 s2 where e: "send_broadcast T ?m s = Some (e1, s2)" using send_finish(4) False by (auto simp: send_finish_def bind_Some_eq)
      note f = broadcast_fields [OF e]
      let ?act = "\<lparr>ac_id = ag_next s2, ac_announcement = a, ac_stop = None\<rparr>"
      let ?s3 = "on_writer (\<lambda>w. w\<lparr>anw_actives := AList.update sfx ?act (anw_actives w)\<rparr>) (s2\<lparr>ag_next := Suc (ag_next s2)\<rparr>)"
      have "owned ?s3"
        by (rule owned_fresh [OF assms(2) fit]) (use f in \<open>auto simp: update_conv' split: if_splits\<close>)
      then have "owned (registerEndHandlerLocked sfx a ?s3)" by (rule owned_register)
      moreover have "owned s2" by (rule same [OF assms(2)]) (use f in simp_all)
      ultimately show ?thesis using send_finish(4) False e by (cases e1) (auto simp: send_finish_def Let_def)
    qed
    then show ?thesis unfolding send_finish(1) by (simp add: owned_def)
  next
    case (writer_close T)
    then show ?thesis by (simp add: AnnouncementWriter_Close_def Let_def split_beta stopAll_def owned_def)
  next
    case (writer_close_error code)
    then show ?thesis by (simp add: AnnouncementWriter_CloseWithError_def stopAll_def owned_def)
  next
    case (announcement_end n a)
    obtain runs ann where e: "Announcement_end n (ag_anns s a) = (runs, ann)" by fastforce
    have s': "s' = (set_ann a ann s)\<lparr>ag_running := ag_running s @ concat runs\<rparr>"
      by (simp add: announcement_end end_announcement_def e set_ann_def)
    show ?thesis
    proof (cases "an_once (ag_anns s a)")
      case True
      then have "ann = ag_anns s a" "runs = []" using e by (auto simp: Announcement_end_def)
      then show ?thesis using assms(2) by (simp add: s' owned_def)
    next
      case False
      have "concat runs = List.map_filter id (an_afterHandlers (ag_anns s a))"
        using end_runs_all [OF announcement_end(2) False] e by simp
      then have r: "c \<in> set (concat runs) \<Longrightarrow> Some c \<in> set (an_afterHandlers (ag_anns s a))" for c
        using map_filter_id_iff by metis
      have ann: "\<not> an_active ann" "an_afterHandlers ann = []" using e False by (auto simp: Announcement_end_def Let_def)
      show ?thesis
        unfolding owned_def
      proof (intro allI impI)
        fix t x assume "map_of (anw_actives (ag_writer s')) t = Some x"
        then have x: "map_of (anw_actives (ag_writer s)) t = Some x" by (simp add: s')
        then have o: "RemoveActive t (ac_id x) \<in> set (ag_running s) \<longrightarrow> \<not> an_active (ag_anns s (ac_announcement x))"
            "\<forall>b. Some (RemoveActive t (ac_id x)) \<in> set (an_afterHandlers (ag_anns s b)) \<longrightarrow> b = ac_announcement x"
          using assms(2) unfolding owned_def by blast+
        have "RemoveActive t (ac_id x) \<in> set (concat runs) \<Longrightarrow> ac_announcement x = a" using o(2) r by metis
        then show "(RemoveActive t (ac_id x) \<in> set (ag_running s') \<longrightarrow> \<not> an_active (ag_anns s' (ac_announcement x))) \<and>
            (\<forall>b. Some (RemoveActive t (ac_id x)) \<in> set (an_afterHandlers (ag_anns s' b)) \<longrightarrow> b = ac_announcement x)"
          using o ann unfolding s' by (auto simp del: set_concat)
      qed
    qed
  next
    case (callback T i)
    let ?s1 = "s\<lparr>ag_running := take i (ag_running s) @ drop (Suc i) (ag_running s)\<rparr>"
    have "owned ?s1"
      by (rule owned_less [OF assms(2)]) (auto dest: in_set_takeD in_set_dropD)
    then show ?thesis
      using callback(3) owned_remove by (auto simp: run_callback_def Let_def split: callback.splits)
  next
    case (other_after k a now handle ann)
    have "Some c \<in> set (an_afterHandlers ann) \<Longrightarrow> Some c \<in> set (an_afterHandlers (ag_anns s a)) \<or> c = OtherCallback k"
      "c \<in> set now \<Longrightarrow> c = OtherCallback k" "an_active ann = an_active (ag_anns s a)" for c
      using other_after(2) by (auto simp: AfterFunc_def split: if_splits)
    then show ?thesis unfolding other_after(1)
      by (intro owned_less [OF assms(2)]) (auto split: if_splits)
  next
    case (other_stop a i k ok ann)
    have "Some c \<in> set (an_afterHandlers ann) \<Longrightarrow> Some c \<in> set (an_afterHandlers (ag_anns s a))" "an_active ann = an_active (ag_anns s a)" for c
      using stop_subset [of c "Some i" "ag_anns s a"] stop_simps(3) [of "Some i" "ag_anns s a"] other_stop(3) by simp_all
    then show ?thesis unfolding other_stop(1)
      by (intro owned_less [OF assms(2)]) (auto split: if_splits)
  qed
qed

lemma ann_reach_owned: "ann_reach anns w s \<Longrightarrow> owned s"
proof (induction rule: ann_reach.induct)
  case (start pfx l x)
  then have "anw_actives w = []" by (auto simp: newAnnouncementWriter_def split: if_splits)
  then show ?case by (simp add: owned_def)
next
  case (step s s')
  then show ?case using owned_step [OF step.hyps(2)] ann_reach_inv by blast
qed

lemma active_kept:
  assumes "owned s" "ann_inv anns w s" "ann_step s s'" "map_of (anw_actives (ag_writer s)) sfx = Some act"
    "an_active (ag_anns s (ac_announcement act))"
  shows "(\<exists>act'. map_of (anw_actives (ag_writer s')) sfx = Some act') \<or> anw_closed (ag_writer s') \<or>
    (\<exists>a old. (sfx, a, Some old) \<in> set (ag_sending s) \<and> (sfx, a, None) \<in> set (ag_sending s'))"
proof -
  note inv = assms(2)
  then have ws: "writer_shape anns w s" by (simp add: ann_inv_def shape_def)
  have reg: "map_of (anw_actives (ag_writer u)) sfx \<noteq> None \<Longrightarrow>
      map_of (anw_actives (ag_writer (registerEndHandlerLocked t a u))) sfx \<noteq> None" for t a u
    by (auto simp: registerEndHandlerLocked_def update_conv' split: option.splits prod.splits)
  from assms(3) show ?thesis
  proof cases
    case (init_begin T as)
    have "anw_initStarted (ag_writer s)" using ws assms(4) by (auto simp: writer_shape_def)
    then have "anw_actives (ag_writer s') = anw_actives (ag_writer s)" using init_begin(2) by (auto simp: init_begin_def Let_def)
    then show ?thesis using assms(4) by simp
  next
    case (init_next T)
    have "map_of (anw_actives (ag_writer s')) sfx \<noteq> None"
      using init_next(2) assms(4) reg
      by (auto simp: init_next_def init_failed_def bind_Some_eq dest!: broadcast_fields split: list.splits option.splits)
    then show ?thesis by blast
  next
    case (send_begin a t old)
    then show ?thesis using assms(4) by simp
  next
    case (end_old T xs t a old ys s1)
    show ?thesis
    proof (cases "t = sfx")
      case True
      then show ?thesis using end_old(1,3) by auto
    next
      case False
      have keep: "map_of (anw_actives (ag_writer v)) sfx = map_of (anw_actives (ag_writer u)) sfx"
        if "remove_active T t i u = Some v" for i u v
        using that False by (auto simp: remove_active_def delete_conv' dest!: ended_fields split: if_splits)
      have "map_of (anw_actives (ag_writer s1)) sfx = Some act"
        using end_old(4) assms(4) keep by (auto simp: end_active_def Let_def split: option.splits prod.splits if_splits)
      then show ?thesis using end_old(1) by simp
    qed
  next
    case (send_finish T xs t a ys e s1)
    have "map_of (anw_actives (ag_writer s1)) sfx \<noteq> None"
    proof (cases "anw_closed (ag_writer s)")
      case True
      then show ?thesis using ws assms(4) by (auto simp: writer_shape_def)
    next
      case False
      let ?m = "\<lparr>am_AnnounceStatus = ACTIVE, am_BroadcastPathSuffix = t, am_HopIDs = buildHopIDs (ag_anns s a)\<rparr>"
      obtain e1 s2 where e: "send_broadcast T ?m s = Some (e1, s2)" using send_finish(4) False by (auto simp: send_finish_def bind_Some_eq)
      let ?act = "\<lparr>ac_id = ag_next s2, ac_announcement = a, ac_stop = None\<rparr>"
      let ?s3 = "on_writer (\<lambda>w. w\<lparr>anw_actives := AList.update t ?act (anw_actives w)\<rparr>) (s2\<lparr>ag_next := Suc (ag_next s2)\<rparr>)"
      have "map_of (anw_actives (ag_writer ?s3)) sfx \<noteq> None" using assms(4) broadcast_fields [OF e] by (simp add: update_conv')
      from reg [OF this, of t a] show ?thesis using send_finish(4) False e assms(4) broadcast_fields [OF e]
        by (cases e1) (simp_all add: send_finish_def Let_def)
    qed
    then show ?thesis using send_finish(1) by auto
  next
    case (writer_close T)
    then show ?thesis by (simp add: AnnouncementWriter_Close_def Let_def split_beta stopAll_def)
  next
    case (writer_close_error code)
    then show ?thesis by (simp add: AnnouncementWriter_CloseWithError_def stopAll_def)
  next
    case (announcement_end n a)
    then show ?thesis using assms(4) by (simp add: end_announcement_def split: prod.split)
  next
    case (callback T i)
    have "RemoveActive sfx (ac_id act) \<notin> set (ag_running s)"
      using assms(1) assms(4,5) unfolding owned_def by blast
    then have "ag_running s ! i \<noteq> RemoveActive sfx (ac_id act)" using nth_mem [OF callback(2)] by auto
    then have "map_of (anw_actives (ag_writer s')) sfx = Some act"
      using callback(3) assms(4)
      by (auto simp: run_callback_def Let_def remove_active_def delete_conv' dest!: ended_fields split: callback.splits if_splits)
    then show ?thesis by blast
  next
    case (other_after k a now handle ann)
    then show ?thesis using assms(4) by simp
  next
    case (other_stop a i k ok ann)
    then show ?thesis using assms(4) by simp
  qed
qed

text \<open>C12 An active announcement stays told: a step of the program takes a suffix whose announcement is
  active out of the actives only by closing the writer, or on behalf of a SendAnnouncement that is
  about to announce the suffix again. A callback that was delayed never ends its successor.\<close>
theorem active_stays_told:
  assumes "ann_reach anns w s" "ann_step s s'" "map_of (anw_actives (ag_writer s)) sfx = Some act"
    "an_active (ag_anns s (ac_announcement act))"
  shows "(\<exists>act'. map_of (anw_actives (ag_writer s')) sfx = Some act') \<or> anw_closed (ag_writer s') \<or>
    (\<exists>a old. (sfx, a, Some old) \<in> set (ag_sending s) \<and> (sfx, a, None) \<in> set (ag_sending s'))"
  by (rule active_kept [OF ann_reach_owned [OF assms(1)] ann_reach_inv [OF assms(1)] assms(2-4)])

section \<open>Witnesses\<close>

definition example_anns :: "nat \<Rightarrow> callback Announcement" where
  "example_anns a = \<lparr>an_path = ''/a/b'', an_hopIDs = [3], an_active = True, an_once = False, an_afterHandlers = [], an_done = False\<rparr>"

definition example_writer :: AnnouncementWriter where
  "example_writer = the (newAnnouncementWriter ''/a/'' 7 9)"

definition example_start :: announcing where
  "example_start = \<lparr>ag_anns = example_anns, ag_writer = example_writer, ag_next = 0, ag_running = [], ag_todo = [],
     ag_sending = [], ag_over = False\<rparr>"

definition example_told :: announcing where
  "example_told = the (init_next plain_transport (the (init_begin plain_transport [0] example_start)))"

lemma example_told_reach: "ann_reach example_anns example_writer example_told"
proof -
  have w: "newAnnouncementWriter ''/a/'' 7 9 = Some example_writer"
    by (simp add: example_writer_def newAnnouncementWriter_def isValidPrefix_def)
  have 0: "ann_reach example_anns example_writer example_start"
    unfolding example_start_def by (rule ann_reach.start [OF w]) (simp add: others_only_def example_anns_def)
  let ?s1 = "the (init_begin plain_transport [0] example_start)"
  have "init_begin plain_transport [0] example_start \<noteq> None" by code_simp
  then have "init_begin plain_transport [0] example_start = Some ?s1" by simp
  then have 1: "ann_reach example_anns example_writer ?s1"
    by (rule ann_reach.step [OF 0 ann_step.init_begin [OF plain_contract]])
  have "init_next plain_transport ?s1 \<noteq> None" by code_simp
  then have "init_next plain_transport ?s1 = Some example_told" by (simp add: example_told_def)
  then show ?thesis by (rule ann_reach.step [OF 1 ann_step.init_next [OF plain_contract]])
qed

definition example_reader :: "char AnnouncementReader" where
  "example_reader = the (newAnnouncementReader 4 ''/a/'' [] None)"

lemma example_facts:
  "\<not> torn (anw_stream (ag_writer example_told))"
  "\<forall>a. length (an_path (example_anns a)) + 8 * length (an_hopIDs (example_anns a)) \<le> 65000"
  "newAnnouncementReader 4 ''/a/'' [] None = Some example_reader"
  "anw_initDone (ag_writer example_told) \<and> anw_initErr (ag_writer example_told) = None \<and>
   \<not> anw_closed (ag_writer example_told) \<and> \<not> ag_over example_told"
  "map_option ac_announcement (map_of (anw_actives (ag_writer example_told)) ''b'') = Some 0"
  "anw_localHopID example_writer = 7" "anw_excludeHop example_writer = 9"
proof -
  show "\<not> torn (anw_stream (ag_writer example_told))" by code_simp
  show "\<forall>a. length (an_path (example_anns a)) + 8 * length (an_hopIDs (example_anns a)) \<le> 65000"
    by (simp add: example_anns_def)
  show "newAnnouncementReader 4 ''/a/'' [] None = Some example_reader"
    by (simp add: example_reader_def newAnnouncementReader_def isValidPrefix_def)
  show "anw_initDone (ag_writer example_told) \<and> anw_initErr (ag_writer example_told) = None \<and>
    \<not> anw_closed (ag_writer example_told) \<and> \<not> ag_over example_told" by code_simp
  show "map_option ac_announcement (map_of (anw_actives (ag_writer example_told)) ''b'') = Some 0" by code_simp
  show "anw_localHopID example_writer = 7" "anw_excludeHop example_writer = 9" by code_simp+
qed

lemma announcement_agreement_witness:
  "\<exists>r'. read_announcements 4 None (written (anw_stream (ag_writer example_told))) example_reader = Some (DecodeFailed EOF, r') \<and>
     reader_view r' ''b'' = Some [3, 7]"
proof -
  obtain act where act: "map_of (anw_actives (ag_writer example_told)) ''b'' = Some act" using example_facts(5) by auto
  obtain r' where r': "read_announcements 4 None (written (anw_stream (ag_writer example_told))) example_reader = Some (DecodeFailed EOF, r')"
      "reader_view r' = (\<lambda>sfx. map_option (\<lambda>act. appendHopID (an_hopIDs (example_anns (ac_announcement act))) (anw_localHopID example_writer))
         (map_of (anw_actives (ag_writer example_told)) sfx))"
    using announcement_agreement [OF example_told_reach example_facts(1-3)] example_facts(4) by blast
  have "reader_view r' ''b'' = Some [3, 7]"
    using act example_facts(6) by (simp add: r'(2) example_anns_def appendHopID_def)
  with r'(1) show ?thesis by blast
qed

lemma no_announcement_echo_witness:
  "\<exists>r'. read_announcements 4 None (written (anw_stream (ag_writer example_told))) example_reader = Some (DecodeFailed EOF, r') \<and>
     (\<forall>a \<in> set (ar_anns r'). 9 \<notin> set (an_hopIDs a))"
  using no_announcement_echo [OF example_told_reach example_facts(1-3)] example_facts(7) by simp

lemma no_stale_announcement_witness:
  "\<exists>r'. read_announcements 4 None (written (anw_stream (ag_writer example_told))) example_reader = Some (DecodeFailed EOF, r') \<and>
     (\<forall>sfx hops. reader_view r' sfx = Some hops \<longrightarrow>
       (\<exists>a. an_active (ag_anns example_told a) \<and> GetSuffix (an_path (ag_anns example_told a)) (anw_prefix example_writer) = (sfx, True) \<and>
            hops = appendHopID (an_hopIDs (ag_anns example_told a)) (anw_localHopID example_writer)))"
proof (rule no_stale_announcement [OF example_told_reach _ example_facts(1-3)])
  show "\<forall>a. ann_ok (example_anns a)" by (simp add: ann_ok_def example_anns_def)
  show "ag_running example_told = []" by code_simp
qed (use example_facts(4) in simp_all)

lemma active_stays_told_witness:
  "\<exists>act. map_of (anw_actives (ag_writer (end_announcement 4 1 example_told))) ''b'' = Some act"
proof -
  obtain act where act: "map_of (anw_actives (ag_writer example_told)) ''b'' = Some act" "ac_announcement act = 0"
    using example_facts(5) by auto
  have "an_active (ag_anns example_told 0)" by code_simp
  then have a: "an_active (ag_anns example_told (ac_announcement act))" using act(2) by simp
  have "ann_step example_told (end_announcement 4 1 example_told)" by (rule ann_step.announcement_end) simp
  from active_stays_told [OF example_told_reach this act(1) a]
  show ?thesis using example_facts(4) act(1) by (auto simp: end_announcement_def split: prod.splits)
qed

definition example_pattern :: PathPattern where
  "example_pattern = (case ParsePathPattern ascii ''/a/{x}'' of Inr p \<Rightarrow> p | Inl _ \<Rightarrow> zeroPattern)"

definition example_scope :: authScope where
  "example_scope = \<lparr>sc_grants = [(1, \<lparr>sg_root = ''/a/'', sg_publish = [example_pattern], sg_subscribe = []\<rparr>)],
     sc_conn = 1, sc_ready = True, sc_changed = 1\<rparr>"

lemma announcements_confined_witness:
  "\<exists>r :: char AnnouncementReader. reader_reach 4 (Some example_scope) False r \<and>
     an_active (ar_anns r ! 0) \<and> canPublish (an_path (ar_anns r ! 0)) (Some example_scope)"
proof -
  define r0 :: "char AnnouncementReader" where "r0 = the (newAnnouncementReader 4 ''/a/'' [] (Some example_scope))"
  let ?m = "\<lparr>am_AnnounceStatus = ACTIVE, am_BroadcastPathSuffix = ''b'', am_HopIDs = []\<rparr>"
  define r1 where "r1 = snd (the (handle_broadcast 4 (Some example_scope) 7 ?m r0))"
  have "newAnnouncementReader 4 ''/a/'' [] (Some example_scope) = Some r0"
    by (simp add: r0_def newAnnouncementReader_def isValidPrefix_def)
  then have 0: "reader_reach 4 (Some example_scope) False r0" by (rule reader_reach.init) simp
  have "handle_broadcast 4 (Some example_scope) 7 ?m r0 \<noteq> None" unfolding r0_def by code_simp
  then have "handle_broadcast 4 (Some example_scope) 7 ?m r0 = Some (fst (the (handle_broadcast 4 (Some example_scope) 7 ?m r0)), r1)"
    by (simp add: r1_def)
  then have 1: "reader_reach 4 (Some example_scope) False r1" by (rule reader_reach.message [OF 0])
  have a: "0 < length (ar_anns r1)" "an_active (ar_anns r1 ! 0)" unfolding r1_def r0_def by code_simp+
  show ?thesis using 1 a announcements_confined [OF 1 a] by blast
qed

end
