(* ===== verification/Mux.thy ===== *)
theory Mux
  imports Announcements
begin

text \<open>
  The routing of announcements and track subscriptions: TrackMux and announcingNode (moqt/mux.go).

  The nodes of the announcement tree point to their parents and children, and a subscription or an
  end handler keeps a pointer to its node after the tree has let go of it. The tree is therefore a
  store of nodes, named by numbers in the order of their allocation; node 0 is the root that lies
  in the TrackMux. Announcements are named by numbers as well. The calls of the mux are one step
  each: its locks are held for single accesses and the steps below follow their order.
\<close>

section \<open>The tree\<close>

text \<open>A map of the code whose length is asked for is an association list.\<close>

record announcingNode =
  nd_parent :: "nat option"
  nd_prefixSegment :: string
  nd_children :: "(string \<times> nat) list"
  nd_subscriptions :: "nat list" \<comment> \<open>the AnnouncementWriters; each has a channel of its own\<close>
  nd_announcements :: "nat list"

type_synonym nodes = "nat \<Rightarrow> announcingNode"

definition new_node :: "nat option \<Rightarrow> string \<Rightarrow> announcingNode" where
  "new_node parent seg =
     \<lparr>nd_parent = parent, nd_prefixSegment = seg, nd_children = [], nd_subscriptions = [], nd_announcements = []\<rparr>"

text \<open>\<open>getChild\<close> and \<open>createNode\<close>, with the next free number.\<close>

definition getChild :: "string \<Rightarrow> nat \<Rightarrow> nodes \<times> nat \<Rightarrow> nat \<times> nodes \<times> nat" where
  "getChild seg n = (\<lambda>(nodes, free).
     case map_of (nd_children (nodes n)) seg of
       Some child \<Rightarrow> (child, nodes, free)
     | None \<Rightarrow>
         (free,
          nodes(free := new_node (Some n) seg,
                n := (nodes n)\<lparr>nd_children := AList.update seg free (nd_children (nodes n))\<rparr>),
          Suc free))"

fun createNode :: "string list \<Rightarrow> nat \<Rightarrow> nodes \<times> nat \<Rightarrow> nat \<times> nodes \<times> nat" where
  "createNode [] n t = (n, t)"
| "createNode (seg # segs) n t = (case getChild seg n t of (child, t) \<Rightarrow> createNode segs child t)"

text \<open>The nodes from \<open>n\<close> down to the leaf, which Announce collects.\<close>

fun node_path :: "string list \<Rightarrow> nat \<Rightarrow> nodes \<times> nat \<Rightarrow> nat list \<times> nodes \<times> nat" where
  "node_path [] n t = ([n], t)"
| "node_path (seg # segs) n t =
     (case getChild seg n t of (child, t) \<Rightarrow>
      case node_path segs child t of (path, t) \<Rightarrow> (n # path, t))"

definition addAnnouncement :: "nat \<Rightarrow> nat \<Rightarrow> nodes \<Rightarrow> nodes" where
  "addAnnouncement a n nodes = nodes(n := (nodes n)\<lparr>nd_announcements := List.insert a (nd_announcements (nodes n))\<rparr>)"

text \<open>The recursion follows the parents; nothing in the code bounds it.\<close>

partial_function (option) removeAnnouncement :: "nat \<Rightarrow> nat \<Rightarrow> nodes \<Rightarrow> nodes option" where
  "removeAnnouncement a n nodes =
     (let nodes = nodes(n := (nodes n)\<lparr>nd_announcements := removeAll a (nd_announcements (nodes n))\<rparr>);
          shouldRemove = (nd_announcements (nodes n) = [] \<and> nd_children (nodes n) = [])
      in if shouldRemove then
           (case nd_parent (nodes n) of
              None \<Rightarrow> Some nodes
            | Some p \<Rightarrow>
                removeAnnouncement a p
                  (nodes(p := (nodes p)\<lparr>nd_children := AList.delete (nd_prefixSegment (nodes n)) (nd_children (nodes p))\<rparr>)))
         else Some nodes)"

declare removeAnnouncement.simps [code]

section \<open>TrackMux\<close>

text \<open>A TrackHandler: nil, a nil TrackHandlerFunc inside the interface, or one to call.\<close>

datatype track_handler = NilHandler | NilHandlerFunc | Handler nat

record announcedTrackHandler =
  ah_id :: nat \<comment> \<open>its identity\<close>
  ah_Announcement :: nat
  ah_TrackHandler :: track_handler

datatype mux_callback =
    Unannounce nat nat announcedTrackHandler \<comment> \<open>lastNode, the announcement, announced\<close>
  | CloseTrack nat \<comment> \<open>registered by serveTrack for a TrackWriter\<close>

text \<open>
  \<open>mx_leaf\<close> and \<open>mx_chan\<close> are the local variables of the calls of serveAnnouncements, by writer: the
  node and the contents of the channel. \<open>mx_closing\<close> are the writers for which a goroutine with
  CloseWithError(internal error) was started, \<open>mx_closed\<close> what happened to TrackWriters.
\<close>

datatype track_close = ClosedNotFound nat | ClosedTrack nat

record TrackMux =
  mx_hopID :: uint64
  mx_trackHandlerIndex :: "BroadcastPath \<rightharpoonup> announcedTrackHandler"
  mx_nodes :: nodes
  mx_free :: nat
  mx_handlers :: nat
  mx_anns :: "nat \<Rightarrow> mux_callback Announcement"
  mx_leaf :: "nat \<Rightarrow> nat"
  mx_chan :: "nat \<Rightarrow> nat list"
  mx_closing :: "nat list"
  mx_closed :: "track_close list"

definition NewTrackMux :: "uint64 \<Rightarrow> (nat \<Rightarrow> mux_callback Announcement) \<Rightarrow> TrackMux" where
  "NewTrackMux hop anns =
     \<lparr>mx_hopID = hop, mx_trackHandlerIndex = Map.empty, mx_nodes = (\<lambda>_. new_node None []), mx_free = 1, mx_handlers = 0,
      mx_anns = anns, mx_leaf = (\<lambda>_. 0), mx_chan = (\<lambda>_. []), mx_closing = [], mx_closed = []\<rparr>"

definition set_mux_ann :: "nat \<Rightarrow> mux_callback Announcement \<Rightarrow> TrackMux \<Rightarrow> TrackMux" where
  "set_mux_ann a ann m = m\<lparr>mx_anns := (mx_anns m)(a := ann)\<rparr>"

definition removeHandler :: "announcedTrackHandler \<Rightarrow> TrackMux \<Rightarrow> TrackMux" where
  "removeHandler h m =
     (let path = an_path (mx_anns m (ah_Announcement h)) in
      if map_option ah_id (mx_trackHandlerIndex m path) = Some (ah_id h)
      then m\<lparr>mx_trackHandlerIndex := (mx_trackHandlerIndex m)(path := None)\<rparr> else m)"

definition run_mux_callback :: "mux_callback \<Rightarrow> TrackMux \<Rightarrow> TrackMux option" where
  "run_mux_callback c m =
     (case c of
        Unannounce n a h \<Rightarrow>
          do { nodes \<leftarrow> removeAnnouncement a n (mx_nodes m); Some (removeHandler h (m\<lparr>mx_nodes := nodes\<rparr>)) }
      | CloseTrack tw \<Rightarrow> Some (m\<lparr>mx_closed := mx_closed m @ [ClosedTrack tw]\<rparr>))"

fun mux_callbacks :: "mux_callback list \<Rightarrow> TrackMux \<Rightarrow> TrackMux option" where
  "mux_callbacks [] m = Some m"
| "mux_callbacks (c # cs) m = do { m \<leftarrow> run_mux_callback c m; mux_callbacks cs m }"

text \<open>The end of an announcement, with the callbacks it runs.\<close>

definition mux_end :: "nat \<Rightarrow> nat \<Rightarrow> TrackMux \<Rightarrow> TrackMux option" where
  "mux_end numCPU a m =
     (case Announcement_end numCPU (mx_anns m a) of (runs, ann) \<Rightarrow> mux_callbacks (concat runs) (set_mux_ann a ann m))"

definition registerHandler ::
    "nat \<Rightarrow> nat \<Rightarrow> track_handler \<Rightarrow> TrackMux \<Rightarrow> (announcedTrackHandler \<times> TrackMux) option" where
  "registerHandler numCPU a handler m =
     (let path = an_path (mx_anns m a);
          newHandler = \<lparr>ah_id = mx_handlers m, ah_Announcement = a, ah_TrackHandler = handler\<rparr>;
          old = mx_trackHandlerIndex m path;
          m = m\<lparr>mx_trackHandlerIndex := (mx_trackHandlerIndex m)(path \<mapsto> newHandler), mx_handlers := Suc (mx_handlers m)\<rparr>
      in case old of
           None \<Rightarrow> Some (newHandler, m)
         | Some announced \<Rightarrow> map_option (Pair newHandler) (mux_end numCPU (ah_Announcement announced) m))"

text \<open>
  Sending to one subscription. The select has up to two ready cases, the channel with room (8 places)
  and the end of the announcement; \<open>pick\<close> is the one it takes when both are. Without either the
  subscription is dropped.
\<close>

definition notify_sub :: "bool \<Rightarrow> nat \<Rightarrow> nat \<Rightarrow> nat \<Rightarrow> TrackMux \<Rightarrow> TrackMux" where
  "notify_sub pick a n w m =
     (let ended = an_done (mx_anns m a) in
      if length (mx_chan m w) < 8 \<and> (\<not> ended \<or> pick) then m\<lparr>mx_chan := (mx_chan m)(w := mx_chan m w @ [a])\<rparr>
      else if ended then m
      else m\<lparr>mx_nodes := (mx_nodes m)(n := (mx_nodes m n)\<lparr>nd_subscriptions := removeAll w (nd_subscriptions (mx_nodes m n))\<rparr>),
             mx_closing := mx_closing m @ [w]\<rparr>)"

text \<open>The loop body over the nodes. The subscriptions come in the order the range picks.\<close>

definition announce_node :: "bool \<Rightarrow> nat \<Rightarrow> nat \<Rightarrow> TrackMux \<Rightarrow> TrackMux" where
  "announce_node pick a n m =
     (let m = m\<lparr>mx_nodes := addAnnouncement a n (mx_nodes m)\<rparr>
      in fold (notify_sub pick a n) (nd_subscriptions (mx_nodes m n)) m)"

definition Announce :: "nat \<Rightarrow> bool \<Rightarrow> nat \<Rightarrow> track_handler \<Rightarrow> TrackMux \<Rightarrow> TrackMux option" where
  "Announce numCPU pick a handler m =
     (if \<not> an_active (mx_anns m a) then Some m
      else
        do { (announced, m) \<leftarrow> registerHandler numCPU a handler m;
             let segs = fst (pathSegments (an_path (mx_anns m a)));
             let (path, nodes, free) = node_path segs 0 (mx_nodes m, mx_free m);
             let m = fold (announce_node pick a) path (m\<lparr>mx_nodes := nodes, mx_free := free\<rparr>);
             let (now, _, ann) = AfterFunc (Unannounce (last path) a announced) (mx_anns m a);
             mux_callbacks now (set_mux_ann a ann m) })"

text \<open>\<open>Publish\<close>: the announcement \<open>a\<close> is the one NewAnnouncement allocates; None is the panic.\<close>

definition Publish :: "nat \<Rightarrow> bool \<Rightarrow> bool \<Rightarrow> nat \<Rightarrow> BroadcastPath \<Rightarrow> track_handler \<Rightarrow> TrackMux \<Rightarrow> TrackMux option" where
  "Publish numCPU pick ctxDone a path handler m =
     (if \<not> isValidPath path then None
      else do { ann \<leftarrow> NewAnnouncement ctxDone path; Announce numCPU pick a handler (set_mux_ann a ann m) })"

definition findTrackHandler :: "BroadcastPath \<Rightarrow> TrackMux \<Rightarrow> announcedTrackHandler option" where
  "findTrackHandler path m =
     (case mx_trackHandlerIndex m path of
        None \<Rightarrow> None
      | Some ath \<Rightarrow>
          if length path = 0 \<or> path ! 0 \<noteq> CHR ''/'' then None
          else if ah_TrackHandler ath = NilHandler then None
          else if ah_TrackHandler ath = NilHandlerFunc then None
          else Some ath)"

definition mux_TrackHandler :: "BroadcastPath \<Rightarrow> TrackMux \<Rightarrow> nat option \<times> track_handler option" where
  "mux_TrackHandler path m =
     (case findTrackHandler path m of
        None \<Rightarrow> (None, None) \<comment> \<open>NotFoundTrackHandler\<close>
      | Some ath \<Rightarrow> (Some (ah_Announcement ath), Some (ah_TrackHandler ath)))"

text \<open>
  \<open>serveTrack\<close> up to the call of the handler, with the announcement and the handle of its stop
  function; the deferred stop follows when the handler returns.
\<close>

definition serveTrack :: "nat \<Rightarrow> BroadcastPath \<Rightarrow> TrackMux \<Rightarrow> ((nat \<times> nat option) option \<times> TrackMux) option" where
  "serveTrack tw path m =
     (case findTrackHandler path m of
        None \<Rightarrow> Some (None, m\<lparr>mx_closed := mx_closed m @ [ClosedNotFound tw]\<rparr>)
      | Some ath \<Rightarrow>
          (case AfterFunc (CloseTrack tw) (mx_anns m (ah_Announcement ath)) of (now, handle, ann) \<Rightarrow>
             map_option (Pair (Some (ah_Announcement ath, handle)))
               (mux_callbacks now (set_mux_ann (ah_Announcement ath) ann m))))"

definition serveTrack_return :: "nat \<Rightarrow> nat option \<Rightarrow> TrackMux \<Rightarrow> TrackMux" where
  "serveTrack_return a handle m = set_mux_ann a (snd (stop handle (mx_anns m a))) m"

text \<open>
  \<open>serveAnnouncements\<close>: None as answer is the invalid prefix, otherwise the snapshot handed to init;
  then one turn of its loop, and its deferred end.
\<close>

definition serveAnnouncements :: "nat \<Rightarrow> string \<Rightarrow> TrackMux \<Rightarrow> nat list option \<times> TrackMux" where
  "serveAnnouncements w pfx m =
     (if \<not> isValidPrefix pfx then (None, m)
      else
        (case createNode (prefixSegments pfx) 0 (mx_nodes m, mx_free m) of (leaf, nodes, free) \<Rightarrow>
           (Some (nd_announcements (nodes leaf)),
            m\<lparr>mx_nodes := nodes(leaf := (nodes leaf)\<lparr>nd_subscriptions := List.insert w (nd_subscriptions (nodes leaf))\<rparr>),
              mx_free := free, mx_leaf := (mx_leaf m)(w := leaf), mx_chan := (mx_chan m)(w := [])\<rparr>)))"

definition serve_turn :: "nat \<Rightarrow> TrackMux \<Rightarrow> nat option \<times> TrackMux" where
  "serve_turn w m =
     (case mx_chan m w of [] \<Rightarrow> (None, m) | a # rest \<Rightarrow> (Some a, m\<lparr>mx_chan := (mx_chan m)(w := rest)\<rparr>))"

definition serve_return :: "nat \<Rightarrow> TrackMux \<Rightarrow> TrackMux" where
  "serve_return w m =
     (let n = mx_leaf m w in
      m\<lparr>mx_nodes := (mx_nodes m)(n := (mx_nodes m n)\<lparr>nd_subscriptions := removeAll w (nd_subscriptions (mx_nodes m n))\<rparr>)\<rparr>)"

text \<open>A broadcast that ends and starts again, with a subscriber for its prefix all the time.\<close>

definition fresh_ann :: "BroadcastPath \<Rightarrow> mux_callback Announcement" where
  "fresh_ann p = the (NewAnnouncement False p)"

definition restart_mux :: "TrackMux option" where
  "restart_mux =
     do { let m = NewTrackMux 0 (\<lambda>_. fresh_ann ''/a/b'');
          let (_, m) = serveAnnouncements 7 ''/a/'' m;
          m \<leftarrow> Announce 4 True 0 (Handler 1) m;
          m \<leftarrow> mux_end 4 0 m;
          Announce 4 True 1 (Handler 1) m }"

section \<open>The store of nodes\<close>

declare map_of_eq_Some_iff [simp del]

fun walk :: "nodes \<Rightarrow> nat \<Rightarrow> string list \<Rightarrow> nat option" where
  "walk N n [] = Some n"
| "walk N n (seg # segs) = (case map_of (nd_children (N n)) seg of None \<Rightarrow> None | Some c \<Rightarrow> walk N c segs)"

lemma walk_append: "walk N n (s @ t) = Option.bind (walk N n s) (\<lambda>m. walk N m t)"
  by (induction s arbitrary: n) (auto split: option.split)

text \<open>Children know their parent and were allocated after it.\<close>

definition heap_ok :: "nodes \<Rightarrow> nat \<Rightarrow> bool" where
  "heap_ok N free \<longleftrightarrow> 0 < free \<and> nd_parent (N 0) = None \<and>
     (\<forall>n < free. distinct (map fst (nd_children (N n))) \<and>
       (\<forall>seg c. map_of (nd_children (N n)) seg = Some c \<longrightarrow>
          n < c \<and> c < free \<and> nd_parent (N c) = Some n \<and> nd_prefixSegment (N c) = seg))"

lemma heap_child:
  "\<lbrakk>heap_ok N free; n < free; map_of (nd_children (N n)) seg = Some c\<rbrakk> \<Longrightarrow>
   n < c \<and> c < free \<and> nd_parent (N c) = Some n \<and> nd_prefixSegment (N c) = seg"
  unfolding heap_ok_def by blast

lemma heap_root: "heap_ok N free \<Longrightarrow> 0 < free \<and> nd_parent (N 0) = None"
  unfolding heap_ok_def by blast

lemma heap_distinct: "\<lbrakk>heap_ok N free; n < free\<rbrakk> \<Longrightarrow> distinct (map fst (nd_children (N n)))"
  unfolding heap_ok_def by blast

lemma walk_below: "\<lbrakk>heap_ok N free; n < free; walk N n s = Some m\<rbrakk> \<Longrightarrow> n \<le> m \<and> m < free"
proof (induction s arbitrary: n)
  case (Cons seg s)
  then obtain c where c: "map_of (nd_children (N n)) seg = Some c" "walk N c s = Some m" by (auto split: option.splits)
  show ?case using Cons.IH [OF Cons.prems(1) _ c(2)] heap_child [OF Cons.prems(1,2) c(1)] by simp
qed simp

text \<open>The tree after an allocation has the old one in it.\<close>

definition extends :: "nodes \<Rightarrow> nat \<Rightarrow> nodes \<Rightarrow> nat \<Rightarrow> bool" where
  "extends N f N' f' \<longleftrightarrow> f \<le> f' \<and>
     (\<forall>n < f. nd_announcements (N' n) = nd_announcements (N n) \<and> nd_subscriptions (N' n) = nd_subscriptions (N n) \<and>
        (\<forall>seg c. map_of (nd_children (N n)) seg = Some c \<longrightarrow> map_of (nd_children (N' n)) seg = Some c))"

lemma extends_refl [simp]: "extends N f N f" by (simp add: extends_def)

lemma extends_trans: "\<lbrakk>extends N f N' f'; extends N' f' N'' f''\<rbrakk> \<Longrightarrow> extends N f N'' f''"
  unfolding extends_def by (simp add: order_less_le_trans)

lemma extends_walk:
  assumes "extends N f N' f'" "heap_ok N f" shows "n < f \<Longrightarrow> walk N n s = Some m \<Longrightarrow> walk N' n s = Some m"
proof (induction s arbitrary: n)
  case (Cons seg s)
  then obtain c where c: "map_of (nd_children (N n)) seg = Some c" "walk N c s = Some m" by (auto split: option.splits)
  then have "walk N' c s = Some m" using Cons.IH heap_child [OF assms(2) Cons.prems(1)] by blast
  then show ?case using c(1) assms(1) Cons.prems(1) by (auto simp: extends_def)
qed simp

lemma getChild_ok:
  assumes "heap_ok N f" "n < f" "getChild seg n (N, f) = (c, N', f')"
  shows "heap_ok N' f' \<and> extends N f N' f' \<and> n < c \<and> c < f' \<and> map_of (nd_children (N' n)) seg = Some c"
proof (cases "map_of (nd_children (N n)) seg")
  case (Some d)
  then have e: "c = d" "N' = N" "f' = f" using assms(3) by (simp_all add: getChild_def)
  then show ?thesis using Some assms(1) heap_child [OF assms(1,2) Some] by simp
next
  case None
  let ?cs = "AList.update seg f (nd_children (N n))"
  have e: "c = f" "f' = Suc f" "N' = N(f := new_node (Some n) seg, n := (N n)\<lparr>nd_children := ?cs\<rparr>)"
    using None assms(3) by (auto simp: getChild_def)
  have m: "map_of ?cs = (map_of (nd_children (N n)))(seg \<mapsto> f)" by (rule update_conv')
  have below: "c' < f" if "map_of (nd_children (N k)) t = Some c'" "k < f" for k t c'
    using heap_child [OF assms(1) that(2,1)] by simp
  have "heap_ok N' f'"
    unfolding heap_ok_def
  proof (intro conjI allI impI)
    show "0 < f'" using e by simp
    show "nd_parent (N' 0) = None" using heap_root [OF assms(1)] assms(2) e by auto
    fix k assume k: "k < f'"
    show "distinct (map fst (nd_children (N' k)))"
      using k heap_distinct [OF assms(1)] assms(2) by (auto simp: e new_node_def distinct_update)
    fix t c' assume t: "map_of (nd_children (N' k)) t = Some c'"
    have "k < f \<and> (k = n \<and> t = seg \<and> c' = f \<or> map_of (nd_children (N k)) t = Some c')"
      using t k assms(2) by (auto simp: e m new_node_def split: if_splits)
    then show "k < c'" "c' < f'" "nd_parent (N' c') = Some k" "nd_prefixSegment (N' c') = t"
      using heap_child [OF assms(1), of k t c'] assms(2) by (auto simp: e new_node_def)
  qed
  moreover have "extends N f N' f'" using None assms(2) by (auto simp: extends_def e m)
  ultimately show ?thesis using assms(2) by (simp add: e m)
qed

lemma node_path_ok:
  "\<lbrakk>heap_ok N f; n < f; node_path segs n (N, f) = (path, N', f')\<rbrakk> \<Longrightarrow>
   heap_ok N' f' \<and> extends N f N' f' \<and> length path = Suc (length segs) \<and>
   (\<forall>k \<le> length segs. walk N' n (take k segs) = Some (path ! k))"
proof (induction segs arbitrary: n N f path)
  case Nil
  then show ?case by auto
next
  case (Cons seg segs)
  obtain c N1 f1 where g: "getChild seg n (N, f) = (c, N1, f1)" by (cases "getChild seg n (N, f)")
  obtain rest where r: "node_path segs c (N1, f1) = (rest, N', f')" "path = n # rest"
    using Cons.prems(3) g by (auto split: prod.splits)
  note c = getChild_ok [OF Cons.prems(1,2) g]
  have i: "heap_ok N' f'" "extends N1 f1 N' f'" "length rest = Suc (length segs)"
      "\<forall>k \<le> length segs. walk N' c (take k segs) = Some (rest ! k)"
    using Cons.IH [of N1 f1 c rest] c r(1) by auto
  have n1: "n < f1" using c Cons.prems(2) by (simp add: extends_def)
  then have "map_of (nd_children (N' n)) seg = Some c" using i(2) c by (simp add: extends_def)
  then have "walk N' n (take k (seg # segs)) = Some (path ! k)" if "k \<le> length (seg # segs)" for k
    using that i(4) r(2) by (cases k) auto
  then show ?case using i r(2) c extends_trans [of N f N1 f1 N' f'] by auto
qed

lemma createNode_path: "createNode segs n t = (leaf, t') \<Longrightarrow> \<exists>path. node_path segs n t = (path, t') \<and> last path = leaf"
proof (induction segs n t arbitrary: leaf rule: createNode.induct)
  case (2 seg segs n t)
  obtain c t1 where g: "getChild seg n t = (c, t1)" by (metis surj_pair)
  then obtain path where p: "node_path segs c t1 = (path, t')" "last path = leaf" using 2 by auto
  have "path \<noteq> []" using p(1) by (cases segs) (auto split: prod.splits)
  then show ?case using g p by auto
qed simp

lemma createNode_ok:
  assumes "heap_ok N f" "n < f" "createNode segs n (N, f) = (leaf, N', f')"
  shows "heap_ok N' f' \<and> extends N f N' f' \<and> walk N' n segs = Some leaf"
proof -
  obtain path where p: "node_path segs n (N, f) = (path, N', f')" "last path = leaf"
    using createNode_path [OF assms(3)] by blast
  note ok = node_path_ok [OF assms(1,2) p(1)]
  then have "path ! length segs = leaf" using p(2) by (metis last_conv_nth length_0_conv nat.distinct(1) diff_Suc_1)
  then show ?thesis using ok by (metis order_refl take_all)
qed

section \<open>Taking an announcement out of the tree\<close>

text \<open>The announcement is at every node on the way to its own.\<close>

definition holds :: "nodes \<Rightarrow> nat \<Rightarrow> string list \<Rightarrow> bool" where
  "holds N a segs \<longleftrightarrow> (\<forall>k \<le> length segs. \<exists>m. walk N 0 (take k segs) = Some m \<and> a \<in> set (nd_announcements (N m)))"

lemma holds_walk: "holds N a segs \<Longrightarrow> \<exists>m. walk N 0 segs = Some m \<and> a \<in> set (nd_announcements (N m))"
  unfolding holds_def by (metis order_refl take_all)

text \<open>Only children and announcements change: the walk depends on the children.\<close>

lemma walk_cong:
  assumes "\<And>n. nd_children (N' n) = nd_children (N n)" shows "walk N' n s = walk N n s"
  by (induction s arbitrary: n) (auto simp: assms split: option.split)

lemma holds_cong:
  assumes "\<And>n. nd_children (N' n) = nd_children (N n)" "\<And>n. nd_announcements (N' n) = nd_announcements (N n)"
  shows "holds N' b t = holds N b t"
  unfolding holds_def walk_cong [of N' N, OF assms(1)] assms(2) ..

lemma heap_ok_cong:
  assumes "\<And>n. nd_children (N' n) = nd_children (N n)" "\<And>n. nd_parent (N' n) = nd_parent (N n)"
    "\<And>n. nd_prefixSegment (N' n) = nd_prefixSegment (N n)"
  shows "heap_ok N' f = heap_ok N f"
  by (simp add: heap_ok_def assms)

lemma heap_ok_delete:
  assumes "heap_ok N f" "p < f" "nd_children (N' p) = AList.delete seg (nd_children (N p))"
    "\<And>n. n \<noteq> p \<Longrightarrow> nd_children (N' n) = nd_children (N n)" "\<And>n. nd_parent (N' n) = nd_parent (N n)"
    "\<And>n. nd_prefixSegment (N' n) = nd_prefixSegment (N n)"
  shows "heap_ok N' f"
  unfolding heap_ok_def
proof (intro conjI allI impI)
  show "0 < f" using assms(1) unfolding heap_ok_def by blast
  show "nd_parent (N' 0) = None" using assms(1) assms(5) [of 0] unfolding heap_ok_def by simp
  fix n assume n: "n < f"
  show "distinct (map fst (nd_children (N' n)))"
    using assms(3,4) heap_distinct [OF assms(1) n] by (cases "n = p") (simp_all add: distinct_delete)
  fix t c assume "map_of (nd_children (N' n)) t = Some c"
  then have "map_of (nd_children (N n)) t = Some c"
    using assms(3,4) by (cases "n = p") (auto simp: delete_conv' split: if_splits)
  then show "n < c" "c < f" "nd_parent (N' c) = Some n" "nd_prefixSegment (N' c) = t"
    using heap_child [OF assms(1) n] assms(5,6) by auto
qed

text \<open>A node that holds another announcement keeps its place.\<close>

lemma prune_walk:
  assumes "heap_ok N f" "n < f" "nd_parent (N n) = Some p" "walk N 0 s = Some m" "p < f"
    "\<And>k x. k \<le> length s \<Longrightarrow> walk N 0 (take k s) = Some x \<Longrightarrow> x \<noteq> n"
    "map_of (nd_children (N p)) seg = Some n"
    "\<And>x. nd_children (N' x) = (if x = p then AList.delete seg (nd_children (N p)) else nd_children (N x))"
  shows "walk N' 0 s = Some m"
  using assms(4,6)
proof (induction s arbitrary: m rule: rev_induct)
  case (snoc t s)
  obtain x where x: "walk N 0 s = Some x" "map_of (nd_children (N x)) t = Some m"
    using snoc.prems(1) by (auto simp: walk_append bind_Some_eq split: option.splits)
  have "walk N' 0 s = Some x"
  proof (rule snoc.IH [OF x(1)])
    fix k y assume "k \<le> length s" "walk N 0 (take k s) = Some y"
    then show "y \<noteq> n" using snoc.prems(2) [of k y] by simp
  qed
  moreover have "m \<noteq> n" using snoc.prems(2) [of "Suc (length s)" m] snoc.prems(1) by simp
  then have "\<not> (x = p \<and> t = seg)" using x(2) assms(7) by auto
  then have "map_of (nd_children (N' x)) t = Some m" using x(2) by (auto simp: assms(8) delete_conv')
  ultimately show ?case by (simp add: walk_append)
qed simp

lemma removeAnnouncement_ok:
  "\<lbrakk>heap_ok N f; walk N 0 s = Some n\<rbrakk> \<Longrightarrow>
   \<exists>N'. removeAnnouncement a n N = Some N' \<and> heap_ok N' f \<and>
     (\<forall>m. nd_subscriptions (N' m) = nd_subscriptions (N m) \<and>
       (\<forall>b. b \<noteq> a \<longrightarrow> (b \<in> set (nd_announcements (N' m)) \<longleftrightarrow> b \<in> set (nd_announcements (N m))))) \<and>
     (\<forall>b t. b \<noteq> a \<longrightarrow> holds N b t \<longrightarrow> walk N' 0 t = walk N 0 t \<and> holds N' b t)"
proof (induction s arbitrary: n N rule: rev_induct)
  case Nil
  let ?N1 = "N(n := (N n)\<lparr>nd_announcements := removeAll a (nd_announcements (N n))\<rparr>)"
  have "n = 0" "nd_parent (?N1 n) = None" using Nil heap_root [OF Nil(1)] by auto
  then have "removeAnnouncement a n N = Some ?N1" by (subst removeAnnouncement.simps) (simp add: Let_def)
  moreover have w: "walk ?N1 k t = walk N k t" for k t by (rule walk_cong) simp
  moreover have "heap_ok ?N1 f" using Nil(1) by (subst heap_ok_cong [of ?N1 N]) auto
  moreover have "holds ?N1 b t" if b: "b \<noteq> a" "holds N b t" for b t
    unfolding holds_def w
  proof (intro allI impI)
    fix k assume "k \<le> length t"
    then obtain m where "walk N 0 (take k t) = Some m" "b \<in> set (nd_announcements (N m))" using b(2) by (auto simp: holds_def)
    then show "\<exists>m. walk N 0 (take k t) = Some m \<and> b \<in> set (nd_announcements (?N1 m))" using b(1) by auto
  qed
  ultimately show ?case by auto
next
  case (snoc seg s)
  let ?N1 = "N(n := (N n)\<lparr>nd_announcements := removeAll a (nd_announcements (N n))\<rparr>)"
  obtain p where p: "walk N 0 s = Some p" "map_of (nd_children (N p)) seg = Some n"
    using snoc.prems(2) by (auto simp: walk_append bind_Some_eq split: option.splits)
  have pf: "p < f" using walk_below [OF snoc.prems(1) _ p(1)] heap_root [OF snoc.prems(1)] by simp
  note ch = heap_child [OF snoc.prems(1) pf p(2)]
  have w: "walk ?N1 k t = walk N k t" for k t by (rule walk_cong) simp
  have h1: "heap_ok ?N1 f" using snoc.prems(1) by (subst heap_ok_cong [of ?N1 N]) auto
  have holds1: "holds ?N1 b t" if b: "b \<noteq> a" "holds N b t" for b t
    unfolding holds_def w
  proof (intro allI impI)
    fix k assume "k \<le> length t"
    then obtain m where "walk N 0 (take k t) = Some m" "b \<in> set (nd_announcements (N m))" using b(2) by (auto simp: holds_def)
    then show "\<exists>m. walk N 0 (take k t) = Some m \<and> b \<in> set (nd_announcements (?N1 m))" using b(1) by auto
  qed
  show ?case
  proof (cases "nd_announcements (?N1 n) = [] \<and> nd_children (N n) = []")
    case False
    then have "removeAnnouncement a n N = Some ?N1" by (subst removeAnnouncement.simps) (auto simp: Let_def)
    then show ?thesis using w h1 holds1 by auto
  next
    case True
    let ?N2 = "?N1(p := (?N1 p)\<lparr>nd_children := AList.delete seg (nd_children (?N1 p))\<rparr>)"
    have "removeAnnouncement a n N = removeAnnouncement a p ?N2"
      using True ch by (subst removeAnnouncement.simps) (simp add: Let_def)
    moreover have h2: "heap_ok ?N2 f" by (rule heap_ok_delete [OF h1 pf, where seg = seg]) auto
    have notn: "x \<noteq> n" if "b \<noteq> a" "holds N b t" "k \<le> length t" "walk N 0 (take k t) = Some x" for b t k x
    proof -
      have "b \<in> set (nd_announcements (N x))" using that(2-4) by (auto simp: holds_def)
      moreover have "set (removeAll a (nd_announcements (N n))) = {}" using True by simp
      ultimately show ?thesis using that(1) by (auto simp: set_removeAll simp del: set_empty)
    qed
    have ch2: "nd_children (?N2 x) = (if x = p then AList.delete seg (nd_children (?N1 p)) else nd_children (?N1 x))" for x by simp
    have w2: "walk ?N2 0 (take k t) = walk N 0 (take k t)" if b: "b \<noteq> a" "holds N b t" "k \<le> length t" for b t k
    proof -
      obtain x where x: "walk N 0 (take k t) = Some x" using b(2,3) by (auto simp: holds_def)
      have "walk ?N2 0 (take k t) = Some x"
      proof (rule prune_walk [OF h1 _ _ _ pf _ _ ch2])
        show "n < f" "nd_parent (?N1 n) = Some p" using ch by simp_all
        show "walk ?N1 0 (take k t) = Some x" using x w by simp
        show "map_of (nd_children (?N1 p)) seg = Some n" using p(2) by auto
        fix j y assume "j \<le> length (take k t)" "walk ?N1 0 (take j (take k t)) = Some y"
        then have "walk N 0 (take j t) = Some y" "j \<le> length t" using w b(3) by (simp_all add: min_def split: if_splits)
        then show "y \<noteq> n" using notn [OF b(1,2)] by blast
      qed
      then show ?thesis using x by simp
    qed
    have holds2: "holds ?N2 b t" if b: "b \<noteq> a" "holds N b t" for b t
      unfolding holds_def
    proof (intro allI impI)
      fix k assume k: "k \<le> length t"
      then obtain m where "walk N 0 (take k t) = Some m" "b \<in> set (nd_announcements (N m))" using b(2) by (auto simp: holds_def)
      then show "\<exists>m. walk ?N2 0 (take k t) = Some m \<and> b \<in> set (nd_announcements (?N2 m))"
        using w2 [OF b k] b(1) by auto
    qed
    have "walk ?N2 0 s = Some p"
    proof (rule prune_walk [OF h1 _ _ _ pf _ _ ch2])
      show "n < f" "nd_parent (?N1 n) = Some p" using ch by simp_all
      show "walk ?N1 0 s = Some p" using p(1) w by simp
      show "map_of (nd_children (?N1 p)) seg = Some n" using p(2) by auto
      fix j y assume "j \<le> length s" "walk ?N1 0 (take j s) = Some y"
      then have "walk N 0 (take j s) = Some y" by (simp add: w)
      moreover have "walk N y (drop j s) = Some p"
        using p(1) calculation walk_append [of N 0 "take j s" "drop j s"] by simp
      ultimately have "y \<le> p"
        using walk_below [OF snoc.prems(1)] heap_root [OF snoc.prems(1)] by metis
      then show "y \<noteq> n" using ch by simp
    qed
    from snoc.IH [OF h2 this] obtain N' where N': "removeAnnouncement a p ?N2 = Some N'" "heap_ok N' f"
        "\<forall>m. nd_subscriptions (N' m) = nd_subscriptions (?N2 m) \<and>
          (\<forall>b. b \<noteq> a \<longrightarrow> (b \<in> set (nd_announcements (N' m)) \<longleftrightarrow> b \<in> set (nd_announcements (?N2 m))))"
        "\<forall>b t. b \<noteq> a \<longrightarrow> holds ?N2 b t \<longrightarrow> walk N' 0 t = walk ?N2 0 t \<and> holds N' b t" by blast
    have "walk N' 0 t = walk N 0 t \<and> holds N' b t" if "b \<noteq> a" "holds N b t" for b t
      using N'(4) holds2 [OF that] w2 [OF that, of "length t"] that(1) by simp
    moreover have "nd_subscriptions (?N2 m) = nd_subscriptions (N m)"
      "b \<noteq> a \<Longrightarrow> (b \<in> set (nd_announcements (?N2 m)) \<longleftrightarrow> b \<in> set (nd_announcements (N m)))" for b m by simp_all
    ultimately show ?thesis using N'(1-3) \<open>removeAnnouncement a n N = removeAnnouncement a p ?N2\<close> by metis
  qed
qed

section \<open>The invariant of the mux\<close>

fun is_unannounce :: "mux_callback \<Rightarrow> bool" where
  "is_unannounce (Unannounce n a h) = True"
| "is_unannounce (CloseTrack tw) = False"

definition unannounces :: "TrackMux \<Rightarrow> nat \<Rightarrow> mux_callback list" where
  "unannounces m a = filter is_unannounce (pending (mx_anns m a))"

definition segments_of :: "TrackMux \<Rightarrow> nat \<Rightarrow> string list" where
  "segments_of m a = fst (pathSegments (an_path (mx_anns m a)))"

definition mux_ann_ok :: "'h Announcement \<Rightarrow> bool" where
  "mux_ann_ok a \<longleftrightarrow> (an_active a \<longrightarrow> \<not> an_once a \<and> \<not> an_done a) \<and> (\<not> an_active a \<longrightarrow> an_afterHandlers a = [])"

text \<open>
  An announcement with an end handler is in the tree all along its path, its handler is the one of the
  index, and the index has no others. While registerHandler replaces a handler, \<open>X\<close> holds the path
  and \<open>Y\<close> the announcement that is about to end.
\<close>

definition placed :: "nat set \<Rightarrow> TrackMux \<Rightarrow> nat \<Rightarrow> nat \<Rightarrow> announcedTrackHandler \<Rightarrow> bool" where
  "placed Y m a n h \<longleftrightarrow> unannounces m a = [Unannounce n a h] \<and> ah_Announcement h = a \<and>
     (a \<notin> Y \<longrightarrow> mx_trackHandlerIndex m (an_path (mx_anns m a)) = Some h) \<and>
     (a \<in> Y \<longrightarrow> map_option ah_id (mx_trackHandlerIndex m (an_path (mx_anns m a))) \<noteq> Some (ah_id h)) \<and>
     walk (mx_nodes m) 0 (segments_of m a) = Some n \<and> holds (mx_nodes m) a (segments_of m a)"

definition mux_inv :: "BroadcastPath set \<Rightarrow> nat set \<Rightarrow> TrackMux \<Rightarrow> bool" where
  "mux_inv X Y m \<longleftrightarrow> heap_ok (mx_nodes m) (mx_free m) \<and> (\<forall>a. mux_ann_ok (mx_anns m a)) \<and>
     (\<forall>a. unannounces m a = [] \<or> (\<exists>n h. placed Y m a n h)) \<and> (\<forall>a\<in>Y. an_path (mx_anns m a) \<in> X) \<and>
     (\<forall>p h. mx_trackHandlerIndex m p = Some h \<longrightarrow> ah_id h < mx_handlers m \<and>
        (p \<notin> X \<longrightarrow> an_path (mx_anns m (ah_Announcement h)) = p \<and> unannounces m (ah_Announcement h) \<noteq> []))"

lemma unannounces_active: "mux_inv X Y m \<Longrightarrow> unannounces m a \<noteq> [] \<Longrightarrow> an_active (mx_anns m a)"
proof (rule ccontr)
  assume a: "mux_inv X Y m" "unannounces m a \<noteq> []" "\<not> an_active (mx_anns m a)"
  have "mux_ann_ok (mx_anns m a)" using a(1) unfolding mux_inv_def by blast
  then have "unannounces m a = []" using a(3) by (simp add: mux_ann_ok_def unannounces_def pending_def map_filter_simps)
  with a(2) show False ..
qed

lemma mux_inv_ok: "mux_inv X Y m \<Longrightarrow> mux_ann_ok (mx_anns m a)"
  unfolding mux_inv_def by blast

lemma index_inv:
  assumes "mux_inv {} {} m" "mx_trackHandlerIndex m p = Some h"
  shows "an_path (mx_anns m (ah_Announcement h)) = p" "unannounces m (ah_Announcement h) \<noteq> []"
  using assms unfolding mux_inv_def by auto

text \<open>Callbacks that close tracks only do that.\<close>

lemma callbacks_close:
  "filter is_unannounce cs = [] \<Longrightarrow> \<exists>cl. mux_callbacks cs m = Some (m\<lparr>mx_closed := cl\<rparr>)"
proof (induction cs arbitrary: m)
  case Nil
  then show ?case by (intro exI [of _ "mx_closed m"]) simp
next
  case (Cons c cs)
  then obtain tw where c: "c = CloseTrack tw" by (cases c) auto
  obtain cl where "mux_callbacks cs (m\<lparr>mx_closed := mx_closed m @ [ClosedTrack tw]\<rparr>) =
      Some (m\<lparr>mx_closed := mx_closed m @ [ClosedTrack tw]\<rparr>\<lparr>mx_closed := cl\<rparr>)"
    using Cons c by fastforce
  then show ?case using c by (auto simp: run_mux_callback_def)
qed

lemma callbacks_append: "mux_callbacks (cs @ ds) m = Option.bind (mux_callbacks cs m) (mux_callbacks ds)"
  by (induction cs arbitrary: m) (auto split: Option.bind_split)

lemma closed_simps [simp]:
  "removeHandler h (m\<lparr>mx_closed := cl\<rparr>) = (removeHandler h m)\<lparr>mx_closed := cl\<rparr>"
  by (cases "map_option ah_id (mx_trackHandlerIndex m (an_path (mx_anns m (ah_Announcement h)))) = Some (ah_id h)")
    (simp_all add: removeHandler_def Let_def del: map_option_eq_Some)

lemma closed_nodes_simps [simp]:
  "removeHandler h (m\<lparr>mx_closed := cl, mx_nodes := N\<rparr>) = (removeHandler h (m\<lparr>mx_nodes := N\<rparr>))\<lparr>mx_closed := cl\<rparr>"
proof -
  have "m\<lparr>mx_closed := cl, mx_nodes := N\<rparr> = m\<lparr>mx_nodes := N\<rparr>\<lparr>mx_closed := cl\<rparr>" by simp
  then show ?thesis by (metis closed_simps)
qed

lemma callbacks_one:
  assumes "filter is_unannounce cs = [Unannounce n a h]" "removeAnnouncement a n (mx_nodes m) = Some N"
  shows "\<exists>cl. mux_callbacks cs m = Some ((removeHandler h (m\<lparr>mx_nodes := N\<rparr>))\<lparr>mx_closed := cl\<rparr>)"
proof -
  obtain xs ys where cs: "cs = xs @ Unannounce n a h # ys" "filter is_unannounce xs = []" "filter is_unannounce ys = []"
    using filter_eq_ConsD [OF assms(1)] by (metis filter_False)
  obtain c1 where 1: "mux_callbacks xs m = Some (m\<lparr>mx_closed := c1\<rparr>)" using callbacks_close [OF cs(2)] by blast
  let ?m2 = "(removeHandler h (m\<lparr>mx_nodes := N\<rparr>))\<lparr>mx_closed := c1\<rparr>"
  obtain c2 where "mux_callbacks ys ?m2 = Some (?m2\<lparr>mx_closed := c2\<rparr>)" using callbacks_close [OF cs(3), of ?m2] by blast
  moreover have "run_mux_callback (Unannounce n a h) (m\<lparr>mx_closed := c1\<rparr>) = Some ?m2"
    using assms(2) by (simp add: run_mux_callback_def)
  ultimately show ?thesis using 1 by (auto simp: cs(1) callbacks_append)
qed

lemma removeHandler_simps [simp]:
  "mx_nodes (removeHandler h m) = mx_nodes m" "mx_free (removeHandler h m) = mx_free m" "mx_anns (removeHandler h m) = mx_anns m"
  "mx_handlers (removeHandler h m) = mx_handlers m" "mx_chan (removeHandler h m) = mx_chan m"
  "mx_closing (removeHandler h m) = mx_closing m" "mx_leaf (removeHandler h m) = mx_leaf m" "mx_hopID (removeHandler h m) = mx_hopID m"
  by (simp_all add: removeHandler_def Let_def)

lemma mux_inv_closed [simp]: "mux_inv X Y (m\<lparr>mx_closed := cl\<rparr>) = mux_inv X Y m"
  by (simp add: mux_inv_def placed_def unannounces_def segments_of_def)

text \<open>What keeps the invariant when the announcement \<open>a\<close> has lost its handlers.\<close>

lemma placed_unannounces: "mux_inv X Y m \<Longrightarrow> unannounces m a \<noteq> [] \<Longrightarrow> \<exists>n h. placed Y m a n h"
  unfolding mux_inv_def by blast

lemma mux_inv_ended:
  assumes "mux_inv X Y m"
    and heap: "heap_ok (mx_nodes m') (mx_free m')" and ok: "\<forall>b. mux_ann_ok (mx_anns m' b)"
    and path: "\<forall>b. an_path (mx_anns m' b) = an_path (mx_anns m b)"
    and un: "\<forall>b. unannounces m' b = (if b = a then [] else unannounces m b)"
    and handlers: "mx_handlers m' = mx_handlers m"
    and idx: "mx_trackHandlerIndex m' = (if a \<notin> Y \<and> unannounces m a \<noteq> [] then (mx_trackHandlerIndex m)(an_path (mx_anns m a) := None)
                else mx_trackHandlerIndex m)"
    and tree: "\<forall>b t. b \<noteq> a \<longrightarrow> holds (mx_nodes m) b t \<longrightarrow>
                 walk (mx_nodes m') 0 t = walk (mx_nodes m) 0 t \<and> holds (mx_nodes m') b t"
  shows "mux_inv X (Y - {a}) m'"
proof -
  have s: "segments_of m' b = segments_of m b" for b using path by (simp add: segments_of_def)
  have pl: "placed (Y - {a}) m' b k g" if pb: "placed Y m b k g" "b \<noteq> a" for b k g
  proof -
    have i: "mx_trackHandlerIndex m' q = mx_trackHandlerIndex m q \<or> mx_trackHandlerIndex m' q = None" for q
      by (simp add: idx)
    have keep: "mx_trackHandlerIndex m' (an_path (mx_anns m b)) = mx_trackHandlerIndex m (an_path (mx_anns m b))" if b: "b \<notin> Y"
    proof (cases "a \<notin> Y \<and> unannounces m a \<noteq> []")
      case True
      then obtain n h where "placed Y m a n h" using placed_unannounces [OF assms(1)] by blast
      then have "an_path (mx_anns m b) \<noteq> an_path (mx_anns m a)" using True b pb unfolding placed_def by auto
      then show ?thesis by (simp add: idx)
    qed (auto simp: idx)
    note old = pb(1) [unfolded placed_def]
    show ?thesis
      unfolding placed_def s path [rule_format]
    proof (intro conjI impI)
      show "unannounces m' b = [Unannounce k b g]" "ah_Announcement g = b" using old pb(2) un by simp_all
      show "walk (mx_nodes m') 0 (segments_of m b) = Some k" "holds (mx_nodes m') b (segments_of m b)"
        using old pb(2) tree by auto
      show "mx_trackHandlerIndex m' (an_path (mx_anns m b)) = Some g" if "b \<notin> Y - {a}"
        using that keep old pb(2) by simp
      show "map_option ah_id (mx_trackHandlerIndex m' (an_path (mx_anns m b))) \<noteq> Some (ah_id g)" if b: "b \<in> Y - {a}"
      proof -
        have "map_option ah_id (mx_trackHandlerIndex m (an_path (mx_anns m b))) \<noteq> Some (ah_id g)" using b old by blast
        then show ?thesis using i [of "an_path (mx_anns m b)"] by (auto simp del: map_option_eq_Some)
      qed
    qed
  qed
  show ?thesis
    unfolding mux_inv_def
  proof (intro conjI allI ballI impI)
    show "unannounces m' b = [] \<or> (\<exists>n h. placed (Y - {a}) m' b n h)" for b
      using pl [of b] placed_unannounces [OF assms(1), of b] un [rule_format, of b] by (cases "b = a") (simp, metis)
    show "an_path (mx_anns m' b) \<in> X" if "b \<in> Y - {a}" for b
      using that assms(1) unfolding path [rule_format] mux_inv_def by blast
    fix p g assume g: "mx_trackHandlerIndex m' p = Some g"
    then have g0: "mx_trackHandlerIndex m p = Some g" by (auto simp: idx split: if_splits)
    then have "ah_id g < mx_handlers m" using assms(1) unfolding mux_inv_def by blast
    then show "ah_id g < mx_handlers m'" by (simp add: handlers)
    assume p: "p \<notin> X"
    then have g1: "an_path (mx_anns m (ah_Announcement g)) = p" "unannounces m (ah_Announcement g) \<noteq> []"
      using assms(1) g0 unfolding mux_inv_def by blast+
    then show "an_path (mx_anns m' (ah_Announcement g)) = p" using path by simp
    have "ah_Announcement g \<in> Y \<Longrightarrow> False" using assms(1) g1(1) p unfolding mux_inv_def by blast
    then have "ah_Announcement g \<noteq> a" using g g1 by (cases "a \<in> Y") (auto simp: idx)
    then show "unannounces m' (ah_Announcement g) \<noteq> []" using g1(2) un by simp
  qed (use heap ok in blast)+
qed

text \<open>The end of an announcement takes it out of the tree and, unless it was replaced, out of the index.\<close>

lemma Announcement_end_pending:
  assumes "mux_ann_ok a" "0 < numCPU" "Announcement_end numCPU a = (runs, a')"
  shows "concat runs = pending a \<and> an_path a' = an_path a \<and> pending a' = [] \<and> mux_ann_ok a'"
proof (cases "an_once a")
  case True
  then show ?thesis using assms by (auto simp: mux_ann_ok_def pending_def map_filter_simps Announcement_end_def)
next
  case False
  then show ?thesis using assms(1,3) end_runs_all [OF assms(2) False]
    by (auto simp: Announcement_end_def pending_def map_filter_simps mux_ann_ok_def Let_def)
qed

lemma mux_end_ok:
  assumes "mux_inv X Y m" "0 < numCPU"
  shows "\<exists>m'. mux_end numCPU a m = Some m' \<and> mux_inv X (Y - {a}) m' \<and>
    mx_anns m' = (mx_anns m)(a := snd (Announcement_end numCPU (mx_anns m a))) \<and> mx_handlers m' = mx_handlers m \<and>
    mx_trackHandlerIndex m' =
      (if a \<notin> Y \<and> unannounces m a \<noteq> [] then (mx_trackHandlerIndex m)(an_path (mx_anns m a) := None) else mx_trackHandlerIndex m) \<and>
    mx_free m' = mx_free m \<and> (\<forall>n. nd_subscriptions (mx_nodes m' n) = nd_subscriptions (mx_nodes m n)) \<and>
    mx_chan m' = mx_chan m \<and> mx_closing m' = mx_closing m \<and> mx_leaf m' = mx_leaf m"
proof -
  obtain runs ann where e: "Announcement_end numCPU (mx_anns m a) = (runs, ann)" by fastforce
  let ?m1 = "set_mux_ann a ann m"
  have heap: "heap_ok (mx_nodes m) (mx_free m)" and ok: "\<forall>b. mux_ann_ok (mx_anns m b)"
    using assms(1) unfolding mux_inv_def by blast+
  note r = Announcement_end_pending [OF ok [rule_format] assms(2) e]
  have u1: "unannounces ?m1 b = (if b = a then [] else unannounces m b)" for b
    by (simp add: unannounces_def set_mux_ann_def r)
  have p1: "an_path (mx_anns ?m1 b) = an_path (mx_anns m b)" for b by (simp add: set_mux_ann_def r)
  have ok1: "mux_ann_ok (mx_anns ?m1 b)" for b using ok r by (simp add: set_mux_ann_def)
  have end_eq: "mux_end numCPU a m = mux_callbacks (pending (mx_anns m a)) ?m1" using r by (simp add: mux_end_def e)
  show ?thesis
  proof (cases "unannounces m a")
    case Nil
    then obtain cl where "mux_end numCPU a m = Some (?m1\<lparr>mx_closed := cl\<rparr>)"
      using callbacks_close [of "pending (mx_anns m a)" ?m1] end_eq by (auto simp: unannounces_def)
    moreover have "mux_inv X (Y - {a}) ?m1"
      by (rule mux_inv_ended [OF assms(1)]) (use heap ok1 p1 u1 Nil in \<open>auto simp: set_mux_ann_def\<close>)
    ultimately show ?thesis using Nil e by (auto simp: set_mux_ann_def)
  next
    case (Cons c cs)
    then obtain n h where pla: "placed Y m a n h" using placed_unannounces [OF assms(1), of a] by auto
    then have f: "filter is_unannounce (pending (mx_anns m a)) = [Unannounce n a h]" by (simp add: placed_def unannounces_def)
    obtain N where N: "removeAnnouncement a n (mx_nodes m) = Some N" "heap_ok N (mx_free m)"
        "\<forall>k. nd_subscriptions (N k) = nd_subscriptions (mx_nodes m k)"
        "\<forall>b t. b \<noteq> a \<longrightarrow> holds (mx_nodes m) b t \<longrightarrow> walk N 0 t = walk (mx_nodes m) 0 t \<and> holds N b t"
      using removeAnnouncement_ok [OF heap, of "segments_of m a" n a] pla by (auto simp: placed_def)
    let ?m2 = "removeHandler h (?m1\<lparr>mx_nodes := N\<rparr>)"
    obtain cl where m': "mux_end numCPU a m = Some (?m2\<lparr>mx_closed := cl\<rparr>)"
      using callbacks_one [OF f, of ?m1 N] N(1) end_eq by (auto simp: set_mux_ann_def)
    have hid: "ah_Announcement h = a" using pla by (simp add: placed_def)
    have idx: "mx_trackHandlerIndex ?m2 = (if a \<notin> Y then (mx_trackHandlerIndex m)(an_path (mx_anns m a) := None) else mx_trackHandlerIndex m)"
      using pla r by (auto simp: removeHandler_def Let_def hid placed_def set_mux_ann_def)
    have "mux_inv X (Y - {a}) ?m2"
    proof (rule mux_inv_ended [OF assms(1)])
      show "\<forall>b. unannounces ?m2 b = (if b = a then [] else unannounces m b)" using u1 by (simp add: unannounces_def)
      show "\<forall>b. an_path (mx_anns ?m2 b) = an_path (mx_anns m b)" "\<forall>b. mux_ann_ok (mx_anns ?m2 b)" using p1 ok1 by simp_all
    qed (use N idx Cons in \<open>simp_all add: set_mux_ann_def\<close>)
    then show ?thesis using m' Cons idx N(3) e by (auto simp: set_mux_ann_def)
  qed
qed

section \<open>Announcing keeps the invariant\<close>

lemma mux_inv_tree:
  assumes "mux_inv X Y m" "heap_ok (mx_nodes m') (mx_free m')"
    "mx_anns m' = mx_anns m" "mx_trackHandlerIndex m' = mx_trackHandlerIndex m" "mx_handlers m' = mx_handlers m"
    "\<And>b t. holds (mx_nodes m) b t \<Longrightarrow> walk (mx_nodes m') 0 t = walk (mx_nodes m) 0 t \<and> holds (mx_nodes m') b t"
  shows "mux_inv X Y m'"
proof -
  have u: "unannounces m' b = unannounces m b" "segments_of m' b = segments_of m b" for b
    by (simp_all add: unannounces_def segments_of_def assms(3))
  have "placed Y m' b n h" if "placed Y m b n h" for b n h
    using that assms(6) [of b "segments_of m b"] unfolding placed_def u assms(3,4) by auto
  then show ?thesis using assms(1,2) unfolding mux_inv_def u assms(3-5) by blast
qed

lemma extends_holds:
  assumes "extends N f N' f'" "heap_ok N f" "holds N b t"
  shows "walk N' 0 t = walk N 0 t \<and> holds N' b t"
proof -
  have f: "0 < f" using heap_root [OF assms(2)] by simp
  have "\<exists>m. walk N' 0 (take k t) = Some m \<and> b \<in> set (nd_announcements (N' m)) \<and> walk N 0 (take k t) = Some m" if k: "k \<le> length t" for k
  proof -
    obtain m where m: "walk N 0 (take k t) = Some m" "b \<in> set (nd_announcements (N m))" using assms(3) k by (auto simp: holds_def)
    have "m < f" using walk_below [OF assms(2) f m(1)] by simp
    then show ?thesis using m extends_walk [OF assms(1,2) f m(1)] assms(1) by (auto simp: extends_def)
  qed
  then show ?thesis by (metis holds_def order_refl take_all)
qed

text \<open>Registration: the path now leads to the new handler, and no end handler for the path is left.\<close>

lemma mux_inv_replace:
  assumes "mux_inv {} {} m" "p = an_path (mx_anns m a)" "h = \<lparr>ah_id = mx_handlers m, ah_Announcement = a, ah_TrackHandler = hdl\<rparr>"
    "Y = {b. unannounces m b \<noteq> [] \<and> an_path (mx_anns m b) = p}"
  shows "mux_inv {p} Y (m\<lparr>mx_trackHandlerIndex := (mx_trackHandlerIndex m)(p \<mapsto> h), mx_handlers := Suc (mx_handlers m)\<rparr>)"
    (is "mux_inv _ _ ?m1")
proof -
  have u: "unannounces ?m1 b = unannounces m b" "segments_of ?m1 b = segments_of m b" for b
    by (simp_all add: unannounces_def segments_of_def)
  have pl: "placed Y ?m1 b n g" if g: "placed {} m b n g" for b n g
  proof (cases "b \<in> Y")
    case True
    then have "mx_trackHandlerIndex m p = Some g" using g assms(4) by (simp add: placed_def)
    then have "ah_id g < mx_handlers m" using assms(1) unfolding mux_inv_def by blast
    then show ?thesis using g True assms(3,4) unfolding placed_def u by simp
  next
    case False
    then show ?thesis using g assms(4) unfolding placed_def u by auto
  qed
  show ?thesis
    unfolding mux_inv_def u
  proof (intro conjI allI ballI impI)
    show "unannounces m b = [] \<or> (\<exists>n h. placed Y ?m1 b n h)" for b using pl placed_unannounces [OF assms(1)] by blast
    show "heap_ok (mx_nodes ?m1) (mx_free ?m1)" "mux_ann_ok (mx_anns ?m1 b)" for b
      using assms(1) unfolding mux_inv_def by simp_all
    show "an_path (mx_anns ?m1 b) \<in> {p}" if "b \<in> Y" for b using that assms(4) by simp
    fix q g assume g: "mx_trackHandlerIndex ?m1 q = Some g"
    show "ah_id g < mx_handlers ?m1"
    proof (cases "q = p")
      case False
      then have "mx_trackHandlerIndex m q = Some g" using g by simp
      then have "ah_id g < mx_handlers m" using assms(1) unfolding mux_inv_def by blast
      then show ?thesis by simp
    qed (use g assms(3) in auto)
    assume "q \<notin> {p}"
    then have "mx_trackHandlerIndex m q = Some g" using g by simp
    then show "an_path (mx_anns ?m1 (ah_Announcement g)) = q" "unannounces m (ah_Announcement g) \<noteq> []"
      using assms(1) unfolding mux_inv_def by auto
  qed
qed

lemma registerHandler_ok:
  assumes "mux_inv {} {} m" "0 < numCPU" "p = an_path (mx_anns m a)"
    "h = \<lparr>ah_id = mx_handlers m, ah_Announcement = a, ah_TrackHandler = hdl\<rparr>"
  shows "\<exists>m'. registerHandler numCPU a hdl m = Some (h, m') \<and> mux_inv {p} {} m' \<and>
    mx_trackHandlerIndex m' = (mx_trackHandlerIndex m)(p \<mapsto> h) \<and>
    mx_anns m' = (case mx_trackHandlerIndex m p of None \<Rightarrow> mx_anns m
      | Some g \<Rightarrow> (mx_anns m)(ah_Announcement g := snd (Announcement_end numCPU (mx_anns m (ah_Announcement g))))) \<and>
    mx_chan m' = mx_chan m \<and> mx_closing m' = mx_closing m \<and> mx_leaf m' = mx_leaf m \<and>
    (\<forall>n. nd_subscriptions (mx_nodes m' n) = nd_subscriptions (mx_nodes m n)) \<and> unannounces m' a = [] \<and>
    (mx_trackHandlerIndex m p = None \<longrightarrow> mx_nodes m' = mx_nodes m \<and> mx_free m' = mx_free m)"
proof -
  let ?m1 = "m\<lparr>mx_trackHandlerIndex := (mx_trackHandlerIndex m)(p \<mapsto> h), mx_handlers := Suc (mx_handlers m)\<rparr>"
  let ?Y = "{b. unannounces m b \<noteq> [] \<and> an_path (mx_anns m b) = p}"
  have inv: "mux_inv {p} ?Y ?m1" by (rule mux_inv_replace [OF assms(1,3,4) refl])
  have Y: "mx_trackHandlerIndex m p = Some g \<and> b = ah_Announcement g" if "b \<in> ?Y" "placed {} m b n g" for b n g
    using that by (auto simp: placed_def)
  show ?thesis
  proof (cases "mx_trackHandlerIndex m p")
    case None
    then have e: "?Y = {}" using Y placed_unannounces [OF assms(1)] by fastforce
    have "mux_inv {p} {} ?m1" using inv unfolding e .
    moreover have "unannounces ?m1 a = []" using e assms(3) by (auto simp: unannounces_def)
    ultimately show ?thesis using None assms(3,4) by (simp add: registerHandler_def Let_def)
  next
    case (Some g)
    let ?b = "ah_Announcement g"
    have gp: "an_path (mx_anns m ?b) = p" "unannounces m ?b \<noteq> []" using assms(1) Some unfolding mux_inv_def by blast+
    have "b = ?b" if b: "b \<in> ?Y" for b
    proof -
      obtain n g' where "placed {} m b n g'" using b placed_unannounces [OF assms(1)] by blast
      then show ?thesis using Y [OF b] Some by auto
    qed
    then have e: "?Y = {?b}" using gp by blast
    obtain m' where m': "mux_end numCPU ?b ?m1 = Some m'" "mux_inv {p} (?Y - {?b}) m'"
        "mx_anns m' = (mx_anns ?m1)(?b := snd (Announcement_end numCPU (mx_anns ?m1 ?b)))"
        "mx_trackHandlerIndex m' = mx_trackHandlerIndex ?m1"
        "\<forall>n. nd_subscriptions (mx_nodes m' n) = nd_subscriptions (mx_nodes ?m1 n)"
        "mx_chan m' = mx_chan ?m1" "mx_closing m' = mx_closing ?m1" "mx_leaf m' = mx_leaf ?m1"
      using mux_end_ok [OF inv assms(2), of ?b] e by auto
    have "unannounces m' a = []"
    proof (cases "a = ?b")
      case True
      obtain runs ann where "Announcement_end numCPU (mx_anns m ?b) = (runs, ann)" by fastforce
      moreover have "mux_ann_ok (mx_anns m ?b)" using assms(1) unfolding mux_inv_def by blast
      ultimately have "pending (snd (Announcement_end numCPU (mx_anns m ?b))) = []"
        using Announcement_end_pending [of "mx_anns m ?b" numCPU runs ann] assms(2) by simp
      then show ?thesis using m'(3) True by (simp add: unannounces_def)
    next
      case False
      then have "unannounces m a = []" using e assms(3) by auto
      then show ?thesis using m'(3) False by (simp add: unannounces_def)
    qed
    moreover have "registerHandler numCPU a hdl m = Some (h, m')"
      using m'(1) Some assms(3,4) by (simp add: registerHandler_def Let_def)
    moreover have "mux_inv {p} {} m'" using m'(2) unfolding e by simp
    ultimately show ?thesis using m'(3-8) Some by simp
  qed
qed

text \<open>Telling the subscribers only adds the announcement to nodes and channels, and drops subscriptions.\<close>

definition fanned :: "nat \<Rightarrow> nat set \<Rightarrow> TrackMux \<Rightarrow> TrackMux \<Rightarrow> bool" where
  "fanned a S m m' \<longleftrightarrow> mx_anns m' = mx_anns m \<and> mx_trackHandlerIndex m' = mx_trackHandlerIndex m \<and>
     mx_handlers m' = mx_handlers m \<and> mx_free m' = mx_free m \<and> mx_leaf m' = mx_leaf m \<and>
     (\<forall>n. nd_children (mx_nodes m' n) = nd_children (mx_nodes m n) \<and> nd_parent (mx_nodes m' n) = nd_parent (mx_nodes m n) \<and>
        nd_prefixSegment (mx_nodes m' n) = nd_prefixSegment (mx_nodes m n) \<and>
        set (nd_announcements (mx_nodes m' n)) = set (nd_announcements (mx_nodes m n)) \<union> (if n \<in> S then {a} else {}) \<and>
        (n \<notin> S \<longrightarrow> nd_subscriptions (mx_nodes m' n) = nd_subscriptions (mx_nodes m n)))"

definition told :: "nat \<Rightarrow> nat \<Rightarrow> TrackMux \<Rightarrow> bool" where
  "told a w m \<longleftrightarrow> a \<in> set (mx_chan m w) \<or> w \<in> set (mx_closing m)"

lemma notify_sub_frame:
  "mx_anns (notify_sub pick a n w m) = mx_anns m" "mx_trackHandlerIndex (notify_sub pick a n w m) = mx_trackHandlerIndex m"
  "mx_handlers (notify_sub pick a n w m) = mx_handlers m" "mx_free (notify_sub pick a n w m) = mx_free m"
  "mx_leaf (notify_sub pick a n w m) = mx_leaf m"
  "nd_children (mx_nodes (notify_sub pick a n w m) k) = nd_children (mx_nodes m k)"
  "nd_parent (mx_nodes (notify_sub pick a n w m) k) = nd_parent (mx_nodes m k)"
  "nd_prefixSegment (mx_nodes (notify_sub pick a n w m) k) = nd_prefixSegment (mx_nodes m k)"
  "nd_announcements (mx_nodes (notify_sub pick a n w m) k) = nd_announcements (mx_nodes m k)"
  "k \<noteq> n \<Longrightarrow> nd_subscriptions (mx_nodes (notify_sub pick a n w m) k) = nd_subscriptions (mx_nodes m k)"
  "told a v m \<Longrightarrow> told a v (notify_sub pick a n w m)"
  "\<not> an_done (mx_anns m a) \<Longrightarrow> told a w (notify_sub pick a n w m)"
  by (auto simp: notify_sub_def Let_def told_def)

lemma notify_fold:
  "fanned a {n} m m1 \<Longrightarrow> fanned a {n} m (fold (notify_sub pick a n) ws m1)"
  "told a v m1 \<Longrightarrow> told a v (fold (notify_sub pick a n) ws m1)"
  "\<not> an_done (mx_anns m1 a) \<Longrightarrow> v \<in> set ws \<Longrightarrow> told a v (fold (notify_sub pick a n) ws m1)"
proof (induction ws arbitrary: m1)
  case (Cons w ws)
  { case 1
    have "fanned a {n} m (notify_sub pick a n w m1)" using 1 by (auto simp: fanned_def notify_sub_frame)
    then show ?case using Cons(1) by simp }
  { case 2 then show ?case using Cons(2) notify_sub_frame(11) by simp }
  { case 3
    show ?case
    proof (cases "v = w")
      case True then show ?thesis using 3 Cons(2) notify_sub_frame(12) by simp
    next
      case False then show ?thesis using 3 Cons(3) by (simp add: notify_sub_frame)
    qed }
qed simp_all

lemma announce_node_ok:
  "fanned a {n} m (announce_node pick a n m)"
  "told a v m \<Longrightarrow> told a v (announce_node pick a n m)"
  "\<not> an_done (mx_anns m a) \<Longrightarrow> v \<in> set (nd_subscriptions (mx_nodes m n)) \<Longrightarrow> told a v (announce_node pick a n m)"
proof -
  let ?m1 = "m\<lparr>mx_nodes := addAnnouncement a n (mx_nodes m)\<rparr>"
  have "fanned a {n} m ?m1" by (auto simp: fanned_def addAnnouncement_def)
  then show "fanned a {n} m (announce_node pick a n m)" using notify_fold(1) by (simp add: announce_node_def Let_def)
  show "told a v (announce_node pick a n m)" if "told a v m"
    using notify_fold(2) [of a v ?m1] that by (simp add: announce_node_def told_def Let_def)
  show "told a v (announce_node pick a n m)" if "\<not> an_done (mx_anns m a)" "v \<in> set (nd_subscriptions (mx_nodes m n))"
    using notify_fold(3) [of ?m1 a v] that by (simp add: announce_node_def addAnnouncement_def Let_def)
qed

lemma fanned_trans: "\<lbrakk>fanned a S m m1; fanned a T m1 m2\<rbrakk> \<Longrightarrow> fanned a (S \<union> T) m m2"
  unfolding fanned_def by auto

lemma announce_fold:
  "fanned a (set ns) m (fold (announce_node pick a) ns m)"
  "told a v m \<Longrightarrow> told a v (fold (announce_node pick a) ns m)"
  "\<lbrakk>\<not> an_done (mx_anns m a); n \<in> set ns; v \<in> set (nd_subscriptions (mx_nodes m n))\<rbrakk> \<Longrightarrow> told a v (fold (announce_node pick a) ns m)"
proof (induction ns arbitrary: m)
  case Nil
  { case 1 show ?case by (simp add: fanned_def) }
  { case 2 then show ?case by simp }
  { case 3 then show ?case by simp }
next
  case (Cons k ns)
  { case 1 show ?case using fanned_trans [OF announce_node_ok(1) Cons(1)] by simp }
  { case 2 then show ?case using Cons(2) announce_node_ok(2) by simp }
  { case 3
    show ?case
    proof (cases "n = k")
      case True then show ?thesis using 3 Cons(2) announce_node_ok(3) by simp
    next
      case False then show ?thesis using 3 Cons(3) [of "announce_node pick a k m"] announce_node_ok(1) [of a k m pick] by (simp add: fanned_def)
    qed }
qed

lemma fanned_inv:
  assumes "fanned a S m m'" "mux_inv X Y m" shows "mux_inv X Y m'"
proof (rule mux_inv_tree [OF assms(2)])
  have "heap_ok (mx_nodes m) (mx_free m)" using assms(2) unfolding mux_inv_def by blast
  then show "heap_ok (mx_nodes m') (mx_free m')"
    using assms(1) by (subst heap_ok_cong [of _ "mx_nodes m"]) (simp_all add: fanned_def)
  show "mx_anns m' = mx_anns m" "mx_trackHandlerIndex m' = mx_trackHandlerIndex m" "mx_handlers m' = mx_handlers m"
    using assms(1) by (simp_all add: fanned_def)
  have w: "walk (mx_nodes m') n t = walk (mx_nodes m) n t" for n t
    by (rule walk_cong) (use assms(1) in \<open>simp add: fanned_def\<close>)
  fix b t assume "holds (mx_nodes m) b t"
  then show "walk (mx_nodes m') 0 t = walk (mx_nodes m) 0 t \<and> holds (mx_nodes m') b t"
    unfolding holds_def w using assms(1) by (fastforce simp: fanned_def)
qed

text \<open>The registration of the end handler completes the invariant; an ended announcement is taken back at once.\<close>

lemma announce_active:
  assumes "mux_inv {p} {} m" "mx_trackHandlerIndex m p = Some h" "ah_Announcement h = a" "p = an_path (mx_anns m a)"
    "unannounces m a = []" "walk (mx_nodes m) 0 (segments_of m a) = Some n" "holds (mx_nodes m) a (segments_of m a)"
    "an_active (mx_anns m a)" "AfterFunc (Unannounce n a h) (mx_anns m a) = (now, handle, ann)"
  shows "now = [] \<and> mux_inv {} {} (set_mux_ann a ann m)"
proof -
  have ann: "now = []" "an_path ann = p" "pending ann = pending (mx_anns m a) @ [Unannounce n a h]"
      "mux_ann_ok (mx_anns m a) \<Longrightarrow> mux_ann_ok ann"
    using assms(4,8,9) by (auto simp: AfterFunc_def pending_def mux_ann_ok_def map_filter_def split: if_splits)
  let ?m = "set_mux_ann a ann m"
  have p: "an_path (mx_anns ?m b) = an_path (mx_anns m b)" for b using ann(2) assms(4) by (simp add: set_mux_ann_def)
  then have s: "segments_of ?m b = segments_of m b" for b by (simp add: segments_of_def)
  have u: "unannounces ?m b = (if b = a then [Unannounce n a h] else unannounces m b)" for b
    using ann(3) assms(5) by (simp add: unannounces_def set_mux_ann_def)
  have rest: "mx_trackHandlerIndex ?m = mx_trackHandlerIndex m" "mx_nodes ?m = mx_nodes m" "mx_free ?m = mx_free m"
      "mx_handlers ?m = mx_handlers m" by (simp_all add: set_mux_ann_def)
  have "mux_inv {} {} ?m"
    unfolding mux_inv_def
  proof (intro conjI allI ballI impI)
    show "heap_ok (mx_nodes ?m) (mx_free ?m)" using assms(1) unfolding rest mux_inv_def by blast
    show "mux_ann_ok (mx_anns ?m b)" for b using assms(1) ann(4) unfolding mux_inv_def by (simp add: set_mux_ann_def)
    show "unannounces ?m b = [] \<or> (\<exists>n h. placed {} ?m b n h)" for b
    proof (cases "b = a")
      case True
      then have "placed {} ?m b n h" using assms(2-4,6,7) unfolding placed_def u p s rest by simp
      then show ?thesis by blast
    next
      case False
      then show ?thesis using placed_unannounces [OF assms(1), of b] unfolding placed_def u p s rest by auto
    qed
    fix q g assume g: "mx_trackHandlerIndex ?m q = Some g"
    then show "ah_id g < mx_handlers ?m" using assms(1) unfolding mux_inv_def rest by blast
    have "q \<noteq> p \<Longrightarrow> an_path (mx_anns m (ah_Announcement g)) = q \<and> unannounces m (ah_Announcement g) \<noteq> []"
      using assms(1) g unfolding mux_inv_def rest by blast
    then show "an_path (mx_anns ?m (ah_Announcement g)) = q" "unannounces ?m (ah_Announcement g) \<noteq> []"
      using g assms(2-4) unfolding p u rest by (cases "q = p"; auto)+
  qed simp
  then show ?thesis using ann(1) by simp
qed

lemma announce_ended:
  assumes "mux_inv {p} {} m" "mx_trackHandlerIndex m p = Some h" "ah_Announcement h = a" "p = an_path (mx_anns m a)"
    "walk (mx_nodes m) 0 (segments_of m a) = Some n" "unannounces m a = []"
  shows "\<exists>m'. mux_callbacks [Unannounce n a h] m = Some m' \<and> mux_inv {} {} m' \<and>
    mx_trackHandlerIndex m' = (mx_trackHandlerIndex m)(p := None) \<and> mx_anns m' = mx_anns m"
proof -
  have heap: "heap_ok (mx_nodes m) (mx_free m)" using assms(1) unfolding mux_inv_def by blast
  obtain N where N: "removeAnnouncement a n (mx_nodes m) = Some N" "heap_ok N (mx_free m)"
      "\<forall>b t. b \<noteq> a \<longrightarrow> holds (mx_nodes m) b t \<longrightarrow> walk N 0 t = walk (mx_nodes m) 0 t \<and> holds N b t"
    using removeAnnouncement_ok [OF heap assms(5)] by blast
  let ?m = "m\<lparr>mx_nodes := N, mx_trackHandlerIndex := (mx_trackHandlerIndex m)(p := None)\<rparr>"
  have "removeHandler h (m\<lparr>mx_nodes := N\<rparr>) = ?m" using assms(2-4) by (simp add: removeHandler_def)
  then have run: "mux_callbacks [Unannounce n a h] m = Some ?m" using N(1) by (simp add: run_mux_callback_def)
  have u: "unannounces ?m b = unannounces m b" "segments_of ?m b = segments_of m b" for b
    by (simp_all add: unannounces_def segments_of_def)
  have pl: "placed {} ?m b k g" if g: "placed {} m b k g" for b k g
  proof -
    have b: "b \<noteq> a" using g assms(6) by (auto simp: placed_def)
    then have "an_path (mx_anns m b) \<noteq> p" using g assms(2,3) by (auto simp: placed_def)
    then show ?thesis using g N(3) b unfolding placed_def u by auto
  qed
  have "mux_inv {} {} ?m"
    unfolding mux_inv_def u
  proof (intro conjI allI ballI impI)
    show "heap_ok (mx_nodes ?m) (mx_free ?m)" using N(2) by simp
    show "mux_ann_ok (mx_anns ?m b)" for b using assms(1) unfolding mux_inv_def by simp
    show "unannounces m b = [] \<or> (\<exists>n h. placed {} ?m b n h)" for b using pl placed_unannounces [OF assms(1)] by blast
    fix q g assume g: "mx_trackHandlerIndex ?m q = Some g"
    then have g0: "mx_trackHandlerIndex m q = Some g" "q \<notin> {p}" by (auto split: if_splits)
    then show "ah_id g < mx_handlers ?m" "an_path (mx_anns ?m (ah_Announcement g)) = q" "unannounces m (ah_Announcement g) \<noteq> []"
      using assms(1) unfolding mux_inv_def by auto
  qed simp
  then show ?thesis using run by simp
qed

text \<open>The nodes of the path are in the tree when the announcement is added to them.\<close>

lemma announce_placed:
  assumes "mux_inv X Y m" "node_path segs 0 (mx_nodes m, mx_free m) = (path, N, f)"
    "m1 = fold (announce_node pick a) path (m\<lparr>mx_nodes := N, mx_free := f\<rparr>)"
  shows "mux_inv X Y m1 \<and> mx_anns m1 = mx_anns m \<and> mx_trackHandlerIndex m1 = mx_trackHandlerIndex m \<and>
    walk (mx_nodes m1) 0 segs = Some (last path) \<and> holds (mx_nodes m1) a segs \<and>
    (\<not> an_done (mx_anns m a) \<longrightarrow> (\<forall>k n w. k \<le> length segs \<longrightarrow> walk (mx_nodes m) 0 (take k segs) = Some n \<longrightarrow>
       w \<in> set (nd_subscriptions (mx_nodes m n)) \<longrightarrow> told a w m1))"
proof -
  have heap: "heap_ok (mx_nodes m) (mx_free m)" using assms(1) unfolding mux_inv_def by blast
  note np = node_path_ok [OF heap _ assms(2)]
  have ok: "heap_ok N f" "extends (mx_nodes m) (mx_free m) N f" "length path = Suc (length segs)"
      "\<forall>k \<le> length segs. walk N 0 (take k segs) = Some (path ! k)"
    using np heap_root [OF heap] by auto
  let ?m0 = "m\<lparr>mx_nodes := N, mx_free := f\<rparr>"
  have inv0: "mux_inv X Y ?m0" by (rule mux_inv_tree [OF assms(1)]) (use ok extends_holds [OF ok(2) heap] in auto)
  have fan: "fanned a (set path) ?m0 m1" unfolding assms(3) by (rule announce_fold(1))
  then have "mux_inv X Y m1" using inv0 by (rule fanned_inv)
  moreover have w: "walk (mx_nodes m1) n t = walk N n t" for n t
    by (rule walk_cong) (use fan in \<open>simp add: fanned_def\<close>)
  have "path ! length segs = last path" using ok(3) by (subst last_conv_nth) auto
  then have "walk (mx_nodes m1) 0 segs = Some (last path)" using ok(4) w by (metis order_refl take_all)
  moreover have "holds (mx_nodes m1) a segs"
    unfolding holds_def w using ok(3,4) fan by (auto simp: fanned_def)
  moreover have "told a w m1" if k: "k \<le> length segs" "walk (mx_nodes m) 0 (take k segs) = Some n"
      "w \<in> set (nd_subscriptions (mx_nodes m n))" "\<not> an_done (mx_anns m a)" for k n w
  proof -
    have "0 < mx_free m" using heap_root [OF heap] by simp
    then have "n < mx_free m" "walk N 0 (take k segs) = Some n"
      using walk_below [OF heap _ k(2)] extends_walk [OF ok(2) heap _ k(2)] by simp_all
    then have "n \<in> set path" "w \<in> set (nd_subscriptions (N n))"
      using k(1,3) ok by (auto simp: extends_def)
    then show ?thesis unfolding assms(3) using k(4) by (intro announce_fold(3)) simp_all
  qed
  ultimately show ?thesis using fan by (simp add: fanned_def)
qed

lemma registered_active:
  assumes "mux_inv {} {} m" "an_active (mx_anns m a)" "p = an_path (mx_anns m a)"
    "anns = (case mx_trackHandlerIndex m p of None \<Rightarrow> mx_anns m
      | Some g \<Rightarrow> (mx_anns m)(ah_Announcement g := snd (Announcement_end numCPU (mx_anns m (ah_Announcement g)))))"
  shows "an_active (anns a) \<longleftrightarrow> unannounces m a = []"
proof (cases "unannounces m a = []")
  case True
  have "ah_Announcement g \<noteq> a" if "mx_trackHandlerIndex m p = Some g" for g
    using assms(1) that True unfolding mux_inv_def by blast
  then have "anns a = mx_anns m a" using assms(4) by (cases "mx_trackHandlerIndex m p") auto
  then show ?thesis using True assms(2) by simp
next
  case False
  have ok: "mux_ann_ok (mx_anns m a)" using assms(1) unfolding mux_inv_def by blast
  obtain n g where "placed {} m a n g" using False placed_unannounces [OF assms(1)] by blast
  then have "anns a = snd (Announcement_end numCPU (mx_anns m a))" using assms(3,4) by (auto simp: placed_def)
  then show ?thesis using False ok assms(2) by (simp add: mux_ann_ok_def Announcement_end_def Let_def)
qed

text \<open>Announcements only end, and end handlers only come to the end of the list.\<close>

lemma anns_of_set: "mx_anns (set_mux_ann a ann m) = (mx_anns m)(a := ann)"
  by (simp add: set_mux_ann_def)

definition anns_grow :: "(nat \<Rightarrow> mux_callback Announcement) \<Rightarrow> (nat \<Rightarrow> mux_callback Announcement) \<Rightarrow> bool" where
  "anns_grow anns anns' \<longleftrightarrow>
     (\<forall>b. an_path (anns' b) = an_path (anns b) \<and>
        (an_active (anns' b) \<longrightarrow> an_active (anns b) \<and> prefix (an_afterHandlers (anns b)) (an_afterHandlers (anns' b))))"

lemma anns_grow_end: "mux_ann_ok (anns a) \<Longrightarrow> anns_grow anns (anns(a := snd (Announcement_end numCPU (anns a))))"
  by (auto simp: anns_grow_def mux_ann_ok_def Announcement_end_def Let_def)

lemma anns_grow_AfterFunc: "anns_grow anns (anns(a := snd (snd (AfterFunc f (anns a)))))"
  by (auto simp: anns_grow_def AfterFunc_def)

lemma anns_grow_trans: "\<lbrakk>anns_grow x y; anns_grow y z\<rbrakk> \<Longrightarrow> anns_grow x z"
  unfolding anns_grow_def by (metis prefix_order.order_trans)

lemma Announce_ok:
  assumes "mux_inv {} {} m" "0 < numCPU" "an_active (mx_anns m a)" "p = an_path (mx_anns m a)"
    "h = \<lparr>ah_id = mx_handlers m, ah_Announcement = a, ah_TrackHandler = hdl\<rparr>"
  shows "\<exists>m'. Announce numCPU pick a hdl m = Some m' \<and> mux_inv {} {} m' \<and> anns_grow (mx_anns m) (mx_anns m') \<and>
    mx_trackHandlerIndex m' = (mx_trackHandlerIndex m)(p := if unannounces m a = [] then Some h else None) \<and>
    (mx_trackHandlerIndex m p = None \<longrightarrow> (\<forall>k n w. k \<le> length (segments_of m a) \<longrightarrow>
       walk (mx_nodes m) 0 (take k (segments_of m a)) = Some n \<longrightarrow> w \<in> set (nd_subscriptions (mx_nodes m n)) \<longrightarrow> told a w m'))"
proof -
  obtain m1 where m1: "registerHandler numCPU a hdl m = Some (h, m1)" "mux_inv {p} {} m1"
      "mx_trackHandlerIndex m1 = (mx_trackHandlerIndex m)(p \<mapsto> h)" "unannounces m1 a = []"
      "mx_anns m1 = (case mx_trackHandlerIndex m p of None \<Rightarrow> mx_anns m
        | Some g \<Rightarrow> (mx_anns m)(ah_Announcement g := snd (Announcement_end numCPU (mx_anns m (ah_Announcement g)))))"
      "mx_trackHandlerIndex m p = None \<longrightarrow> mx_nodes m1 = mx_nodes m \<and> mx_free m1 = mx_free m"
    using registerHandler_ok [OF assms(1,2,4,5)] by (elim exE conjE) (rule that; assumption)
  have ok: "mux_ann_ok (mx_anns m a)" using assms(1) unfolding mux_inv_def by blast
  have path1: "an_path (mx_anns m1 a) = p" using m1(5) assms(4) by (auto split: option.split)
  have act1: "an_active (mx_anns m1 a) \<longleftrightarrow> unannounces m a = []"
    by (rule registered_active [OF assms(1,3,4) m1(5)])
  have grow1: "anns_grow (mx_anns m) (mx_anns m1)"
    using m1(5) assms(1) anns_grow_end unfolding mux_inv_def by (auto simp: anns_grow_def split: option.split)
  let ?segs = "segments_of m1 a"
  obtain path N f where np: "node_path ?segs 0 (mx_nodes m1, mx_free m1) = (path, N, f)" by (metis surj_pair)
  define m2 where "m2 = fold (announce_node pick a) path (m1\<lparr>mx_nodes := N, mx_free := f\<rparr>)"
  have m2: "mux_inv {p} {} m2" "mx_anns m2 = mx_anns m1" "mx_trackHandlerIndex m2 = mx_trackHandlerIndex m1"
      "walk (mx_nodes m2) 0 ?segs = Some (last path)" "holds (mx_nodes m2) a ?segs"
      "\<not> an_done (mx_anns m1 a) \<longrightarrow> (\<forall>k n w. k \<le> length ?segs \<longrightarrow> walk (mx_nodes m1) 0 (take k ?segs) = Some n \<longrightarrow>
         w \<in> set (nd_subscriptions (mx_nodes m1 n)) \<longrightarrow> told a w m2)"
    using announce_placed [OF m1(2) np m2_def] by simp_all
  have s2: "segments_of m2 a = ?segs" "unannounces m2 a = []" using m1(4) by (simp_all add: segments_of_def unannounces_def m2(2))
  obtain now handle ann where af: "AfterFunc (Unannounce (last path) a h) (mx_anns m2 a) = (now, handle, ann)"
    by (metis surj_pair)
  have run: "Announce numCPU pick a hdl m = mux_callbacks now (set_mux_ann a ann m2)"
    using assms(3) m1(1) np af by (simp add: Announce_def segments_of_def m2_def Let_def)
  have idx: "mx_trackHandlerIndex m2 p = Some h" "ah_Announcement h = a" "p = an_path (mx_anns m2 a)"
    using m1(3) m2(2,3) path1 assms(5) by simp_all
  show ?thesis
  proof (cases "unannounces m a = []")
    case True
    then have "now = [] \<and> mux_inv {} {} (set_mux_ann a ann m2)"
      using announce_active [OF m2(1) idx s2(2) _ _ _ af] m2 s2 act1 by simp
    moreover have "told a w m2" if t: "mx_trackHandlerIndex m p = None" "k \<le> length (segments_of m a)"
        "walk (mx_nodes m) 0 (take k (segments_of m a)) = Some n" "w \<in> set (nd_subscriptions (mx_nodes m n))" for k n w
    proof -
      have "mx_anns m1 = mx_anns m" "mx_nodes m1 = mx_nodes m" using t(1) m1(5,6) by simp_all
      moreover have "?segs = segments_of m a" "\<not> an_done (mx_anns m a)"
        using ok assms(3) calculation by (simp_all add: segments_of_def mux_ann_ok_def)
      ultimately show ?thesis using m2(6) t by auto
    qed
    moreover have "anns_grow (mx_anns m) (mx_anns (set_mux_ann a ann m2))"
      using anns_grow_trans [OF grow1 anns_grow_AfterFunc] af by (metis m2(2) anns_of_set snd_conv)
    ultimately show ?thesis using run True m1(3) m2(3) by (auto simp: set_mux_ann_def told_def)
  next
    case False
    then have notNone: "mx_trackHandlerIndex m p \<noteq> None"
      using placed_unannounces [OF assms(1)] assms(4) by (fastforce simp: placed_def)
    from False have "now = [Unannounce (last path) a h] \<and> set_mux_ann a ann m2 = m2"
      using af act1 m2(2) by (auto simp: AfterFunc_def set_mux_ann_def)
    then show ?thesis using run False announce_ended [OF m2(1) idx _ s2(2)] m2(3,4) m1(3) s2(1) notNone grow1 m2(2) by auto
  qed
qed

section \<open>Runs of the mux\<close>

text \<open>
  Every way the calls follow one another. \<open>calls\<close> are the calls of serveTrack whose handler is at
  work, by writer, with the announcement and the handle of the stop function each holds.
\<close>

type_synonym track_calls = "nat \<rightharpoonup> nat \<times> nat option"

inductive mux_reach :: "nat \<Rightarrow> uint64 \<Rightarrow> TrackMux \<Rightarrow> track_calls \<Rightarrow> bool" for numCPU hop where
  start: "(\<And>a. \<exists>d p. NewAnnouncement d p = Some (anns a)) \<Longrightarrow> mux_reach numCPU hop (NewTrackMux hop anns) Map.empty"
| announce: "\<lbrakk>mux_reach numCPU hop m calls; Announce numCPU pick a hdl m = Some m'\<rbrakk> \<Longrightarrow> mux_reach numCPU hop m' calls"
| ended: "\<lbrakk>mux_reach numCPU hop m calls; mux_end numCPU a m = Some m'\<rbrakk> \<Longrightarrow> mux_reach numCPU hop m' calls"
| track: "\<lbrakk>mux_reach numCPU hop m calls; calls tw = None; serveTrack tw path m = Some (r, m')\<rbrakk> \<Longrightarrow>
    mux_reach numCPU hop m' (calls(tw := r))"
| track_return: "\<lbrakk>mux_reach numCPU hop m calls; calls tw = Some (a, h)\<rbrakk> \<Longrightarrow>
    mux_reach numCPU hop (serveTrack_return a h m) (calls(tw := None))"
| listen: "\<lbrakk>mux_reach numCPU hop m calls; serveAnnouncements w pfx m = (r, m')\<rbrakk> \<Longrightarrow> mux_reach numCPU hop m' calls"
| turn: "\<lbrakk>mux_reach numCPU hop m calls; serve_turn w m = (r, m')\<rbrakk> \<Longrightarrow> mux_reach numCPU hop m' calls"
| listen_return: "mux_reach numCPU hop m calls \<Longrightarrow> mux_reach numCPU hop (serve_return w m) calls"

definition calls_ok :: "TrackMux \<Rightarrow> track_calls \<Rightarrow> bool" where
  "calls_ok m calls \<longleftrightarrow> (\<forall>tw a i. calls tw = Some (a, Some i) \<longrightarrow> an_active (mx_anns m a) \<longrightarrow>
     i < length (an_afterHandlers (mx_anns m a)) \<and> an_afterHandlers (mx_anns m a) ! i = Some (CloseTrack tw))"

lemma calls_grow: "\<lbrakk>calls_ok m calls; anns_grow (mx_anns m) (mx_anns m')\<rbrakk> \<Longrightarrow> calls_ok m' calls"
  unfolding calls_ok_def anns_grow_def by (metis nth_append prefixE length_append trans_less_add1)

text \<open>Callbacks of other kinds come and go.\<close>

lemma mux_inv_anns:
  assumes "mux_inv X Y m" "\<And>b. unannounces m' b = unannounces m b" "\<And>b. an_path (mx_anns m' b) = an_path (mx_anns m b)"
    "\<And>b. mux_ann_ok (mx_anns m' b)" "mx_nodes m' = mx_nodes m" "mx_free m' = mx_free m" "mx_handlers m' = mx_handlers m"
    "mx_trackHandlerIndex m' = mx_trackHandlerIndex m"
  shows "mux_inv X Y m'"
  using assms(1,4) unfolding mux_inv_def placed_def segments_of_def assms(2,3,5-8) by blast

lemma filter_stop:
  "(\<And>c. hs ! i = Some c \<Longrightarrow> \<not> P c) \<Longrightarrow> filter P (List.map_filter id (hs[i := None])) = filter P (List.map_filter id hs)"
proof (induction hs arbitrary: i)
  case (Cons h hs)
  then show ?case by (cases i) (auto simp: map_filter_simps split: option.split)
qed (simp add: map_filter_simps)

lemma serveTrack_ok:
  assumes "mux_inv {} {} m" "calls_ok m calls" "serveTrack tw path m = Some (r, m')"
  shows "mux_inv {} {} m' \<and> calls_ok m' (calls(tw := r))"
proof (cases "findTrackHandler path m")
  case None
  then show ?thesis using assms by (auto simp: serveTrack_def calls_ok_def)
next
  case (Some ath)
  let ?a = "ah_Announcement ath"
  have "mx_trackHandlerIndex m path = Some ath" using Some by (auto simp: findTrackHandler_def split: option.splits if_splits)
  then have "unannounces m ?a \<noteq> []" using assms(1) unfolding mux_inv_def by blast
  then have act: "an_active (mx_anns m ?a)" by (rule unannounces_active [OF assms(1)])
  let ?ann = "(mx_anns m ?a)\<lparr>an_afterHandlers := an_afterHandlers (mx_anns m ?a) @ [Some (CloseTrack tw)]\<rparr>"
  have e: "m' = set_mux_ann ?a ?ann m" "r = Some (?a, Some (length (an_afterHandlers (mx_anns m ?a))))"
    using assms(3) Some act by (auto simp: serveTrack_def AfterFunc_def)
  have "mux_ann_ok (mx_anns m b)" for b using assms(1) unfolding mux_inv_def by blast
  then have "mux_inv {} {} m'"
    by (intro mux_inv_anns [OF assms(1)])
      (use act in \<open>auto simp: e unannounces_def set_mux_ann_def pending_def map_filter_append map_filter_simps mux_ann_ok_def\<close>)
  moreover have "calls_ok m' (calls(tw := r))"
    using assms(2) act by (auto simp: calls_ok_def e set_mux_ann_def nth_append intro: less_SucI)
  ultimately show ?thesis ..
qed

lemma serveTrack_return_ok:
  assumes "mux_inv {} {} m" "calls_ok m calls" "calls tw = Some (a, h)"
  shows "mux_inv {} {} (serveTrack_return a h m) \<and> calls_ok (serveTrack_return a h m) (calls(tw := None))"
proof -
  let ?hs = "an_afterHandlers (mx_anns m a)"
  have ok: "mux_ann_ok (mx_anns m b)" for b using assms(1) unfolding mux_inv_def by blast
  show ?thesis
  proof (cases "\<exists>i. h = Some i \<and> i < length ?hs \<and> ?hs ! i \<noteq> None")
    case False
    then have "serveTrack_return a h m = m" by (auto simp: serveTrack_return_def stop_def set_mux_ann_def split: option.split)
    then show ?thesis using assms(1,2) by (auto simp: calls_ok_def)
  next
    case True
    then obtain i where i: "h = Some i" "i < length ?hs" "?hs ! i \<noteq> None" by blast
    then have act: "an_active (mx_anns m a)" using ok [of a] by (auto simp: mux_ann_ok_def)
    then have c: "?hs ! i = Some (CloseTrack tw)" using assms(2,3) i(1) by (auto simp: calls_ok_def)
    have e: "serveTrack_return a h m = set_mux_ann a ((mx_anns m a)\<lparr>an_afterHandlers := ?hs[i := None]\<rparr>) m"
      using i by (simp add: serveTrack_return_def stop_def)
    have "mux_inv {} {} (serveTrack_return a h m)"
      by (rule mux_inv_anns [OF assms(1)])
        (use ok act c filter_stop [of ?hs i is_unannounce] in \<open>auto simp: e unannounces_def pending_def set_mux_ann_def mux_ann_ok_def\<close>)
    moreover have upd: "?hs[i := None] ! j = Some (CloseTrack tw')" if t: "calls tw' = Some (a, Some j)" "tw' \<noteq> tw" for tw' j
    proof -
      have "?hs ! j = Some (CloseTrack tw')" using t assms(2) act by (auto simp: calls_ok_def)
      then show ?thesis using c t(2) by (metis mux_callback.inject(2) nth_list_update_neq option.inject)
    qed
    have "calls_ok (serveTrack_return a h m) (calls(tw := None))"
      using assms(2) by (auto simp: calls_ok_def e set_mux_ann_def upd)
    ultimately show ?thesis ..
  qed
qed

lemma serveAnnouncements_ok:
  assumes "mux_inv {} {} m" "serveAnnouncements w pfx m = (r, m')"
  shows "mux_inv {} {} m' \<and> mx_anns m' = mx_anns m"
proof (cases "isValidPrefix pfx")
  case True
  obtain leaf N f where c: "createNode (prefixSegments pfx) 0 (mx_nodes m, mx_free m) = (leaf, N, f)" by (metis surj_pair)
  have heap: "heap_ok (mx_nodes m) (mx_free m)" using assms(1) unfolding mux_inv_def by blast
  then have ok: "heap_ok N f" "extends (mx_nodes m) (mx_free m) N f"
    using createNode_ok [OF heap _ c] heap_root [OF heap] by auto
  let ?N = "N(leaf := (N leaf)\<lparr>nd_subscriptions := List.insert w (nd_subscriptions (N leaf))\<rparr>)"
  have e: "mx_nodes m' = ?N" "mx_free m' = f" "mx_anns m' = mx_anns m" "mx_handlers m' = mx_handlers m"
      "mx_trackHandlerIndex m' = mx_trackHandlerIndex m"
    using assms(2) True c by (auto simp: serveAnnouncements_def)
  have w: "walk ?N n t = walk N n t" for n t by (rule walk_cong) simp
  have "holds ?N b t = holds N b t" for b t by (rule holds_cong) auto
  moreover have "heap_ok ?N f = heap_ok N f" by (rule heap_ok_cong) auto
  ultimately have "mux_inv {} {} m'"
    by (intro mux_inv_tree [OF assms(1)]) (use ok e w extends_holds [OF ok(2) heap] in auto)
  then show ?thesis using e(3) by simp
qed (use assms in \<open>auto simp: serveAnnouncements_def\<close>)

lemma serve_return_ok: "mux_inv {} {} m \<Longrightarrow> mux_inv {} {} (serve_return w m)"
proof -
  assume inv: "mux_inv {} {} m"
  let ?N = "mx_nodes (serve_return w m)"
  have w: "walk ?N n t = walk (mx_nodes m) n t" for n t by (rule walk_cong) (simp add: serve_return_def Let_def)
  have "holds ?N b t = holds (mx_nodes m) b t" for b t by (rule holds_cong) (auto simp: serve_return_def Let_def)
  moreover have "heap_ok ?N (mx_free m) = heap_ok (mx_nodes m) (mx_free m)"
    by (rule heap_ok_cong) (auto simp: serve_return_def Let_def)
  ultimately show ?thesis
    by (intro mux_inv_tree [OF inv]) (use inv w in \<open>auto simp: serve_return_def Let_def mux_inv_def\<close>)
qed

lemma mux_inv_start:
  assumes "\<And>a. \<exists>d p. NewAnnouncement d p = Some (anns a)" shows "mux_inv {} {} (NewTrackMux hop anns)"
proof -
  have a: "an_afterHandlers (anns a) = [] \<and> \<not> an_once (anns a) \<and> \<not> an_done (anns a)" for a
  proof -
    obtain d p where "Some (anns a) = NewAnnouncement d p" using assms [of a] by metis
    then show ?thesis by (simp add: NewAnnouncement_def split: if_splits)
  qed
  have "heap_ok (\<lambda>_. new_node None []) 1" by (simp add: heap_ok_def new_node_def)
  then show ?thesis
    using a by (simp add: mux_inv_def NewTrackMux_def unannounces_def pending_def map_filter_simps mux_ann_ok_def)
qed

theorem mux_reach_inv:
  assumes "mux_reach numCPU hop m calls" "0 < numCPU"
  shows "mux_inv {} {} m \<and> calls_ok m calls"
  using assms(1)
proof induction
  case (start anns)
  then show ?case using mux_inv_start by (auto simp: calls_ok_def)
next
  case (announce m calls pick a hdl m')
  show ?case
  proof (cases "an_active (mx_anns m a)")
    case True
    then show ?thesis
      using announce Announce_ok [OF conjunct1 [OF announce.IH] assms(2) True refl refl, of pick hdl] calls_grow by auto
  qed (use announce in \<open>auto simp: Announce_def\<close>)
next
  case (ended m calls a m')
  have "mux_ann_ok (mx_anns m a)" using ended.IH unfolding mux_inv_def by blast
  then show ?case
    using ended mux_end_ok [OF conjunct1 [OF ended.IH] assms(2), of a] calls_grow anns_grow_end [of "mx_anns m" a numCPU] by auto
next
  case (track m calls tw path r m')
  then show ?case using serveTrack_ok by blast
next
  case (track_return m calls tw a h)
  then show ?case using serveTrack_return_ok by blast
next
  case (listen m calls w pfx r m')
  then show ?case using serveAnnouncements_ok [of m w pfx r m'] by (simp add: calls_ok_def)
next
  case (turn m calls w r m')
  from turn.hyps(2) have "mx_nodes m' = mx_nodes m" "mx_free m' = mx_free m" "mx_anns m' = mx_anns m" "mx_handlers m' = mx_handlers m"
      "mx_trackHandlerIndex m' = mx_trackHandlerIndex m" by (auto simp: serve_turn_def split: list.splits)
  note e = this
  have "mux_inv {} {} m'"
    by (rule mux_inv_anns [OF conjunct1 [OF turn.IH]])
      (simp_all only: e unannounces_def mux_inv_ok [OF conjunct1 [OF turn.IH]])
  moreover have "calls_ok m' calls" using conjunct2 [OF turn.IH] unfolding calls_ok_def e .
  ultimately show ?case ..
next
  case (listen_return m calls w)
  then show ?case using serve_return_ok by (auto simp: calls_ok_def serve_return_def Let_def)
qed

lemma index_announced:
  assumes "mux_reach numCPU hop m calls" "0 < numCPU" "mx_trackHandlerIndex m p = Some h"
  shows "an_path (mx_anns m (ah_Announcement h)) = p \<and> an_active (mx_anns m (ah_Announcement h)) \<and>
    (\<exists>n. placed {} m (ah_Announcement h) n h)"
proof -
  note inv = conjunct1 [OF mux_reach_inv [OF assms(1,2)]]
  note u = index_inv [OF inv assms(3)]
  obtain n g where g: "placed {} m (ah_Announcement h) n g" using placed_unannounces [OF inv u(2)] by blast
  then have "mx_trackHandlerIndex m p = Some g" unfolding placed_def u(1) by blast
  then have "placed {} m (ah_Announcement h) n h" using assms(3) g by (metis option.inject)
  moreover have "an_active (mx_anns m (ah_Announcement h))" by (rule unannounces_active [OF inv u(2)])
  ultimately show ?thesis using u(1) by blast
qed

lemma nth_map_filter: "\<lbrakk>i < length hs; hs ! i = Some f\<rbrakk> \<Longrightarrow> f \<in> set (List.map_filter id hs)"
proof (induction hs arbitrary: i)
  case (Cons h hs)
  then show ?case by (cases i) (auto simp: map_filter_simps split: option.split)
qed simp

lemma callbacks_closed:
  "mux_callbacks cs m = Some m' \<Longrightarrow> set (mx_closed m) \<union> {ClosedTrack tw |tw. CloseTrack tw \<in> set cs} \<subseteq> set (mx_closed m')"
proof (induction cs arbitrary: m)
  case (Cons c cs)
  then obtain m1 where m1: "run_mux_callback c m = Some m1" "mux_callbacks cs m1 = Some m'" by (auto simp: bind_eq_Some_conv)
  have "set (mx_closed m) \<union> {ClosedTrack tw |tw. CloseTrack tw = c} \<subseteq> set (mx_closed m1)"
    using m1(1) by (auto simp: run_mux_callback_def removeHandler_def Let_def bind_eq_Some_conv split: mux_callback.splits if_splits)
  then show ?case using Cons.IH [OF m1(2)] by auto
qed simp

section \<open>Properties\<close>



text \<open>C27 Announce with an active announcement of a path nobody else has announced: the path then leads to
  the given handler and the routes of all other paths stay; if the path had a broadcast, that one is
  replaced, except that announcing the registered announcement again ends it and clears the path.\<close>
theorem announce_routes:
  assumes "mux_reach numCPU hop m calls" "0 < numCPU" "an_active (mx_anns m a)" "Announce numCPU pick a (Handler f) m = Some m'"
  shows "map_option (\<lambda>h. (ah_Announcement h, ah_TrackHandler h)) (findTrackHandler path m') =
    (if path \<noteq> an_path (mx_anns m a) then map_option (\<lambda>h. (ah_Announcement h, ah_TrackHandler h)) (findTrackHandler path m)
     else if (\<exists>h. mx_trackHandlerIndex m path = Some h \<and> ah_Announcement h = a) then None
     else if isValidPath path then Some (a, Handler f) else None)"
proof -
  note inv = conjunct1 [OF mux_reach_inv [OF assms(1,2)]]
  let ?h = "\<lparr>ah_id = mx_handlers m, ah_Announcement = a, ah_TrackHandler = Handler f\<rparr>"
  have idx: "mx_trackHandlerIndex m' = (mx_trackHandlerIndex m)(an_path (mx_anns m a) := if unannounces m a = [] then Some ?h else None)"
    using Announce_ok [OF inv assms(2,3) refl refl, of pick "Handler f"] assms(4) by auto
  have un: "unannounces m a \<noteq> [] \<longleftrightarrow> (\<exists>h. mx_trackHandlerIndex m (an_path (mx_anns m a)) = Some h \<and> ah_Announcement h = a)"
    using inv placed_unannounces [OF inv, of a] unfolding mux_inv_def placed_def by blast
  show ?thesis
  proof (cases "path = an_path (mx_anns m a)")
    case True
    then show ?thesis using idx un by (auto simp: findTrackHandler_def isValidPath_def)
  next
    case False
    then show ?thesis using idx by (simp add: findTrackHandler_def)
  qed
qed


text \<open>C8 A subscriber whose node is in the tree when a path is announced for the first time gets the
  announcement in its channel, or its writer is being closed for falling behind: none is left
  silently without it.\<close>
theorem announcement_delivered:
  assumes "mux_reach numCPU hop m calls" "0 < numCPU" "an_active (mx_anns m a)"
    "mx_trackHandlerIndex m (an_path (mx_anns m a)) = None"
    "isValidPrefix pfx" "pfx \<noteq> ''//''" "isValidPath (an_path (mx_anns m a))" "HasPrefix (an_path (mx_anns m a)) pfx"
    "walk (mx_nodes m) 0 (prefixSegments pfx) = Some n" "w \<in> set (nd_subscriptions (mx_nodes m n))"
    "Announce numCPU pick a hdl m = Some m'"
  shows "a \<in> set (mx_chan m' w) \<or> w \<in> set (mx_closing m')"
proof -
  note inv = conjunct1 [OF mux_reach_inv [OF assms(1,2)]]
  obtain t where t: "segments_of m a = prefixSegments pfx @ t"
    using segments_prefix [OF assms(5-7)] assms(8) by (auto simp: segments_of_def elim: prefixE)
  then have "take (length (prefixSegments pfx)) (segments_of m a) = prefixSegments pfx" "length (prefixSegments pfx) \<le> length (segments_of m a)"
    by simp_all
  then have "told a w m'"
    using Announce_ok [OF inv assms(2,3) refl refl, of pick hdl] assms(4,9-11) by auto
  then show ?thesis by (simp add: told_def)
qed


text \<open>C28 serveTrack sees to it that the track is closed when its broadcast ends: if the announcement of a
  track that is being served ends, its writer is closed.\<close>
theorem tracks_closed_at_end:
  assumes "mux_reach numCPU hop m calls" "0 < numCPU" "calls tw = Some (a, handle)" "an_active (mx_anns m a)" "handle \<noteq> None"
    "mux_end numCPU a m = Some m'"
  shows "ClosedTrack tw \<in> set (mx_closed m')"
proof -
  note inv = mux_reach_inv [OF assms(1,2)]
  obtain i where "i < length (an_afterHandlers (mx_anns m a))" "an_afterHandlers (mx_anns m a) ! i = Some (CloseTrack tw)"
    using inv assms(3-5) by (auto simp: calls_ok_def)
  then have c: "CloseTrack tw \<in> set (pending (mx_anns m a))"
    unfolding pending_def by (rule nth_map_filter)
  have ok: "mux_ann_ok (mx_anns m a)" using inv mux_inv_ok by blast
  obtain runs ann where e: "Announcement_end numCPU (mx_anns m a) = (runs, ann)" by fastforce
  have "mux_callbacks (pending (mx_anns m a)) (set_mux_ann a ann m) = Some m'"
    using Announcement_end_pending [OF ok assms(2) e] assms(6) e by (simp add: mux_end_def)
  from callbacks_closed [OF this] c show ?thesis by blast
qed

section \<open>The properties at concrete runs\<close>

definition demo_start :: TrackMux where "demo_start = NewTrackMux 0 (\<lambda>_. fresh_ann ''/a/b'')"

definition demo_listening :: TrackMux where "demo_listening = snd (serveAnnouncements 7 ''/a/'' demo_start)"

definition demo_mux :: TrackMux where "demo_mux = the (Announce 4 True 0 (Handler 1) demo_listening)"

definition demo_serving :: TrackMux where "demo_serving = snd (the (serveTrack 3 ''/a/b'' demo_mux))"

lemma demo_start_reach: "mux_reach 4 0 demo_start Map.empty"
  unfolding demo_start_def
  by (rule mux_reach.start, intro exI [of _ False] exI [of _ "''/a/b''"]) (simp add: fresh_ann_def NewAnnouncement_def isValidPath_def)

lemma demo_listening_reach: "mux_reach 4 0 demo_listening Map.empty"
  by (rule mux_reach.listen [OF demo_start_reach, where w = 7 and pfx = "''/a/''" and r = "fst (serveAnnouncements 7 ''/a/'' demo_start)"])
    (simp add: demo_listening_def)

lemma demo_index: "an_active (mx_anns demo_listening 0) \<and> an_path (mx_anns demo_listening 0) = ''/a/b'' \<and>
    mx_trackHandlerIndex demo_listening ''/a/b'' = None"
  by code_simp

lemma demo_announced: "Announce 4 True 0 (Handler 1) demo_listening = Some demo_mux"
proof -
  have "Announce 4 True 0 (Handler 1) demo_listening \<noteq> None"
    using Announce_ok [OF conjunct1 [OF mux_reach_inv [OF demo_listening_reach]] _ _ refl refl, where numCPU = 4 and a = 0 and pick = True and hdl = "Handler 1"] demo_index
    by auto
  then show ?thesis by (simp add: demo_mux_def)
qed

lemma demo_mux_reach: "mux_reach 4 0 demo_mux Map.empty"
  by (rule mux_reach.announce [OF demo_listening_reach demo_announced])

lemma demo_serving_reach: "mux_reach 4 0 demo_serving [3 \<mapsto> (0, Some 1)]"
proof -
  have "map_option fst (serveTrack 3 ''/a/b'' demo_mux) = Some (Some (0, Some 1))" by code_simp
  then have "serveTrack 3 ''/a/b'' demo_mux = Some (Some (0, Some 1), demo_serving)" by (auto simp: demo_serving_def)
  then show ?thesis by (rule mux_reach.track [OF demo_mux_reach, rotated]) simp
qed



lemma announce_routes_witness:
  "map_option (\<lambda>h. (ah_Announcement h, ah_TrackHandler h)) (findTrackHandler ''/a/b'' demo_mux) = Some (0, Handler 1)"
  using announce_routes [OF demo_listening_reach _ _ demo_announced, of "''/a/b''"] demo_index by (simp add: isValidPath_def)


lemma announcement_delivered_witness: "0 \<in> set (mx_chan demo_mux 7) \<or> 7 \<in> set (mx_closing demo_mux)"
proof -
  have "walk (mx_nodes demo_listening) 0 (prefixSegments ''/a/'') = Some 1 \<and> 7 \<in> set (nd_subscriptions (mx_nodes demo_listening 1))"
    by code_simp
  with announcement_delivered [OF demo_listening_reach _ _ _ _ _ _ _ _ _ demo_announced, of "''/a/''" 1 7] demo_index show ?thesis
    by (simp add: isValidPrefix_def isValidPath_def)
qed

lemma tracks_closed_at_end_witness: "\<exists>m. mux_end 4 0 demo_serving = Some m \<and> ClosedTrack 3 \<in> set (mx_closed m)"
proof -
  obtain m where m: "mux_end 4 0 demo_serving = Some m"
    using mux_end_ok [OF conjunct1 [OF mux_reach_inv [OF demo_serving_reach]], of 4 0] by auto
  have "an_active (mx_anns demo_serving 0)" by code_simp
  then show ?thesis using tracks_closed_at_end [OF demo_serving_reach _ _ _ _ m, of 3 "Some 1"] m by simp
qed

end
