(* ===== verification/Json.thy ===== *)
theory Json
  imports GoStrings "HOL-Library.Finite_Map" "HOL-Library.List_Lexorder" "HOL-Library.Char_ord" "HOL-Library.AList"
begin

text \<open>
  What the catalog code uses of Go's \<open>encoding/json\<close>, on JSON values instead of their text: a
  \<open>json.RawMessage\<close> is a value, an object the list of its members in the order of the text. The
  strings are those a JSON text can hold (Marshal replaces bytes that are not UTF-8). Marshal writes
  a map with its keys in order; Unmarshal reads a \<open>null\<close> into a variable that is not a pointer, map
  or slice by leaving it alone. The errors of the package are not told apart.
\<close>

type_synonym int64 = "64 word"

text \<open>\<open>JNumber\<close> is a number literal with a fraction or an exponent, which no integer variable takes.\<close>

datatype json =
    JNull
  | JBool bool
  | JInt int
  | JNumber string
  | JString string
  | JArray "json list"
  | JObject "(string \<times> json) list"

datatype msf_error = JsonError | MsfError string

type_synonym raw_fields = "(string, json) fmap"

section \<open>Marshal\<close>

definition json_int64 :: "int64 \<Rightarrow> json" where
  "json_int64 w = JInt (sint w)"

definition json_uint64 :: "uint64 \<Rightarrow> json" where
  "json_uint64 w = JInt (uint w)"

text \<open>A map with string keys, of raw messages or of anything else, as the values of its entries.\<close>

definition json_map :: "raw_fields \<Rightarrow> json" where
  "json_map m = JObject (sorted_list_of_fmap m)"

section \<open>Unmarshal\<close>

definition and_then :: "'e + 'a \<Rightarrow> ('a \<Rightarrow> 'e + 'b) \<Rightarrow> 'e + 'b" where
  "and_then r f = (case r of Inl e \<Rightarrow> Inl e | Inr x \<Rightarrow> f x)"

lemma and_then_simps [simp]: "and_then (Inl e) f = Inl e" "and_then (Inr x) f = f x"
  by (simp_all add: and_then_def)

lemma and_then_Inr: "and_then r f = Inr y \<longleftrightarrow> (\<exists>x. r = Inr x \<and> f x = Inr y)"
  by (cases r) auto

text \<open>
  Into a variable with the value \<open>old\<close>; the pointer versions allocate. A slice takes each element
  into a fresh place.
\<close>

definition un_string :: "string \<Rightarrow> json \<Rightarrow> msf_error + string" where
  "un_string old j = (case j of JNull \<Rightarrow> Inr old | JString s \<Rightarrow> Inr s | _ \<Rightarrow> Inl JsonError)"

definition un_bool :: "bool \<Rightarrow> json \<Rightarrow> msf_error + bool" where
  "un_bool old j = (case j of JNull \<Rightarrow> Inr old | JBool b \<Rightarrow> Inr b | _ \<Rightarrow> Inl JsonError)"

definition un_int64 :: "int64 \<Rightarrow> json \<Rightarrow> msf_error + int64" where
  "un_int64 old j =
     (case j of JNull \<Rightarrow> Inr old
      | JInt i \<Rightarrow> if - (2 ^ 63) \<le> i \<and> i < 2 ^ 63 then Inr (word_of_int i) else Inl JsonError
      | _ \<Rightarrow> Inl JsonError)"

definition un_uint64 :: "uint64 \<Rightarrow> json \<Rightarrow> msf_error + uint64" where
  "un_uint64 old j =
     (case j of JNull \<Rightarrow> Inr old
      | JInt i \<Rightarrow> if 0 \<le> i \<and> i < 2 ^ 64 then Inr (word_of_int i) else Inl JsonError
      | _ \<Rightarrow> Inl JsonError)"

definition un_int64_ptr :: "json \<Rightarrow> msf_error + int64 option" where
  "un_int64_ptr j = (if j = JNull then Inr None else and_then (un_int64 0 j) (\<lambda>i. Inr (Some i)))"

fun un_list :: "(json \<Rightarrow> msf_error + 'a) \<Rightarrow> json list \<Rightarrow> msf_error + 'a list" where
  "un_list un [] = Inr []"
| "un_list un (j # js) =
     (case un j of Inl e \<Rightarrow> Inl e
      | Inr x \<Rightarrow> (case un_list un js of Inl e \<Rightarrow> Inl e | Inr xs \<Rightarrow> Inr (x # xs)))"

text \<open>None is the nil slice.\<close>

definition un_slice :: "(json \<Rightarrow> msf_error + 'a) \<Rightarrow> json \<Rightarrow> msf_error + 'a list option" where
  "un_slice un j =
     (case j of JNull \<Rightarrow> Inr None | JArray js \<Rightarrow> and_then (un_list un js) (\<lambda>xs. Inr (Some xs)) | _ \<Rightarrow> Inl JsonError)"

text \<open>A map of raw messages: the last member with a key counts; \<open>null\<close> makes the map nil.\<close>

definition un_raw_map :: "json \<Rightarrow> msf_error + raw_fields option" where
  "un_raw_map j =
     (case j of JNull \<Rightarrow> Inr None | JObject kvs \<Rightarrow> Inr (Some (fmap_of_list (rev kvs))) | _ \<Rightarrow> Inl JsonError)"

text \<open>The members of such a map as a range loop sees them, in one of the orders it may take.\<close>

definition raw_members :: "json \<Rightarrow> msf_error + (string \<times> json) list" where
  "raw_members j = and_then (un_raw_map j) (\<lambda>m. Inr (case m of None \<Rightarrow> [] | Some m \<Rightarrow> sorted_list_of_fmap m))"

text \<open>A \<open>[]json.RawMessage\<close>.\<close>

definition un_raw_slice :: "json \<Rightarrow> msf_error + json list" where
  "un_raw_slice j = (case j of JNull \<Rightarrow> Inr [] | JArray js \<Rightarrow> Inr js | _ \<Rightarrow> Inl JsonError)"

section \<open>Objects by key\<close>

text \<open>
  The two loops the package writes for every object. Marshalling starts from the extra fields and
  sets the key of each field that has something to say; unmarshalling switches on the key of each
  member and puts what it does not know among the extra fields.
\<close>

fun encode_members :: "(string \<times> ('r \<Rightarrow> json option)) list \<Rightarrow> 'r \<Rightarrow> raw_fields \<Rightarrow> raw_fields" where
  "encode_members [] r obj = obj"
| "encode_members ((k, g) # fields) r obj =
     encode_members fields r (case g r of None \<Rightarrow> obj | Some j \<Rightarrow> fmupd k j obj)"

fun decode_members ::
    "(string \<times> (json \<Rightarrow> 'r \<Rightarrow> msf_error + 'r)) list \<Rightarrow> (string \<Rightarrow> json \<Rightarrow> 'r \<Rightarrow> 'r) \<Rightarrow> (string \<times> json) list \<Rightarrow> 'r \<Rightarrow> msf_error + 'r" where
  "decode_members fields other [] r = Inr r"
| "decode_members fields other ((k, v) # ms) r =
     and_then (case map_of fields k of None \<Rightarrow> Inr (other k v r) | Some d \<Rightarrow> d v r) (decode_members fields other ms)"

text \<open>What the cases set: a string, a number behind a pointer, a value of its own behind one.\<close>

definition put_string :: "string \<Rightarrow> json option" where
  "put_string s = (if s \<noteq> [] then Some (JString s) else None)"

definition dec_string :: "((string \<Rightarrow> string) \<Rightarrow> 'r \<Rightarrow> 'r) \<Rightarrow> ('r \<Rightarrow> string) \<Rightarrow> json \<Rightarrow> 'r \<Rightarrow> msf_error + 'r" where
  "dec_string upd sel v r = and_then (un_string (sel r) v) (\<lambda>s. Inr (upd (\<lambda>_. s) r))"

definition dec_val :: "(json \<Rightarrow> msf_error + 'a) \<Rightarrow> (('a \<Rightarrow> 'a) \<Rightarrow> 'r \<Rightarrow> 'r) \<Rightarrow> json \<Rightarrow> 'r \<Rightarrow> msf_error + 'r" where
  "dec_val un upd v r = and_then (un v) (\<lambda>x. Inr (upd (\<lambda>_. x) r))"

definition dec_new :: "(json \<Rightarrow> msf_error + 'a) \<Rightarrow> (('a option \<Rightarrow> 'a option) \<Rightarrow> 'r \<Rightarrow> 'r) \<Rightarrow> json \<Rightarrow> 'r \<Rightarrow> msf_error + 'r" where
  "dec_new un upd v r = and_then (un v) (\<lambda>x. Inr (upd (\<lambda>_. Some x) r))"

lemma dec_string_Inr: "dec_string upd sel v r = Inr s \<longleftrightarrow> (\<exists>x. un_string (sel r) v = Inr x \<and> s = upd (\<lambda>_. x) r)"
  by (auto simp: dec_string_def and_then_Inr)

lemma dec_val_Inr: "dec_val un upd v r = Inr s \<longleftrightarrow> (\<exists>x. un v = Inr x \<and> s = upd (\<lambda>_. x) r)"
  by (auto simp: dec_val_def and_then_Inr)

lemma dec_new_Inr: "dec_new un upd v r = Inr s \<longleftrightarrow> (\<exists>x. un v = Inr x \<and> s = upd (\<lambda>_. Some x) r)"
  by (auto simp: dec_new_def and_then_Inr)

lemmas decoder_Inr = dec_string_Inr dec_val_Inr dec_new_Inr

section \<open>Round trips\<close>

named_theorems json_simps \<open>what Unmarshal makes of what Marshal writes\<close>

lemma un_string_json [json_simps]: "un_string old (JString s) = Inr s" by (simp add: un_string_def)

lemma un_bool_json [json_simps]: "un_bool old (JBool b) = Inr b" by (simp add: un_bool_def)

lemma un_int64_json [json_simps]: "un_int64 old (json_int64 w) = Inr w"
  using sint_ge [of w] sint_lt [of w] by (auto simp: un_int64_def json_int64_def)

lemma un_uint64_json [json_simps]: "un_uint64 old (json_uint64 w) = Inr w"
  using uint_lt2p [of w] by (auto simp: un_uint64_def json_uint64_def)

lemma json_int64_not_null [simp]: "json_int64 w \<noteq> JNull" "json_uint64 w \<noteq> JNull"
  by (simp_all add: json_int64_def json_uint64_def)

lemma un_int64_ptr_json [json_simps]: "un_int64_ptr (json_int64 w) = Inr (Some w)"
  by (simp add: un_int64_ptr_def json_simps)

lemma un_list_json: "(\<And>x. x \<in> set xs \<Longrightarrow> un (f x) = Inr (g x)) \<Longrightarrow> un_list un (map f xs) = Inr (map g xs)"
  by (induction xs) auto

lemma un_slice_strings [json_simps]: "un_slice (un_string old) (JArray (map JString xs)) = Inr (Some xs)"
  using un_list_json [of xs "un_string old" JString id] by (simp add: un_slice_def json_simps)

lemma json_int64_inject [simp]: "json_int64 v = json_int64 w \<longleftrightarrow> v = w"
proof -
  have "v = w" if "sint v = sint w"
  proof -
    have "(word_of_int (sint v) :: int64) = word_of_int (sint w)" using that by simp
    then show ?thesis by simp
  qed
  then show ?thesis by (auto simp: json_int64_def)
qed

lemma map_option_same: "(\<And>a b. f a = f b \<longleftrightarrow> a = b) \<Longrightarrow> map_option f x = map_option f y \<longleftrightarrow> x = y"
  by (cases x; cases y) simp_all

lemma map_json_int64 [simp]: "map_option json_int64 x = map_option json_int64 y \<longleftrightarrow> x = y"
  by (rule map_option_same) simp

lemma put_string_Some [simp]: "put_string s = Some v \<longleftrightarrow> s \<noteq> [] \<and> v = JString s" "put_string [] = None"
  by (auto simp: put_string_def)

lemma put_string_same [simp]: "put_string s = put_string t \<longleftrightarrow> s = t"
  by (auto simp: put_string_def)

text \<open>The members of a map in the order of its keys: each once.\<close>

lemma distinct_sorted_fmap [simp]: "distinct (map fst (sorted_list_of_fmap m))"
  by (simp add: sorted_list_of_fmap_def o_def sorted_list_of_fset.rep_eq)

lemma set_sorted_fmap: "(k, v) \<in> set (sorted_list_of_fmap m) \<longleftrightarrow> fmlookup m k = Some v"
  by (metis distinct_sorted_fmap map_of_eq_Some_iff map_of_sorted_list)

lemma fmap_of_sorted [simp]: "fmap_of_list (rev (sorted_list_of_fmap m)) = m"
proof (rule fmap_ext)
  fix k
  have "map_of (rev (sorted_list_of_fmap m)) = map_of (sorted_list_of_fmap m)"
    by (intro map_of_inject_set [THEN iffD2]) (simp_all add: rev_map [symmetric])
  then show "fmlookup (fmap_of_list (rev (sorted_list_of_fmap m))) k = fmlookup m k" by (simp only: fmlookup_of_list map_of_sorted_list)
qed

lemma un_raw_map_json [json_simps]: "un_raw_map (json_map m) = Inr (Some m)"
  by (simp add: un_raw_map_def json_map_def)

lemma json_map_inject [simp]: "json_map m = json_map n \<longleftrightarrow> m = n"
  by (metis un_raw_map_json Inr_inject option.inject)

lemma raw_members_map [json_simps]: "raw_members (json_map m) = Inr (sorted_list_of_fmap m)"
  by (simp add: raw_members_def json_simps)

section \<open>The two loops undo one another\<close>

lemma encode_other: "k \<notin> fst ` set fields \<Longrightarrow> fmlookup (encode_members fields r obj) k = fmlookup obj k"
  by (induction fields r obj rule: encode_members.induct) (auto split: option.split)

lemma encode_own:
  "\<lbrakk>distinct (map fst fields); (k, g) \<in> set fields\<rbrakk> \<Longrightarrow>
   fmlookup (encode_members fields r obj) k = (case g r of None \<Rightarrow> fmlookup obj k | Some j \<Rightarrow> Some j)"
proof (induction fields arbitrary: obj)
  case (Cons f fields)
  obtain k' g' where f: "f = (k', g')" by fastforce
  show ?case
  proof (cases "k = k'")
    case True
    then have "g = g'" "k \<notin> fst ` set fields" using Cons.prems f by (auto simp: rev_image_eqI)
    then show ?thesis using True f encode_other [of k fields r] by (auto split: option.split)
  next
    case False
    then show ?thesis using Cons f by (auto split: option.split)
  qed
qed simp

text \<open>
  What one record of the package has to provide: for every key a case that reads what was written
  for it and touches no other field, and that the fields written are all there is. \<open>good\<close> says that
  the objects inside can be written and read back.
\<close>

locale json_record =
  fixes dec :: "(string \<times> (json \<Rightarrow> 'r \<Rightarrow> msf_error + 'r)) list"
    and enc :: "(string \<times> ('r \<Rightarrow> json option)) list"
    and extra :: "'r \<Rightarrow> raw_fields" and add_extra :: "string \<Rightarrow> json \<Rightarrow> 'r \<Rightarrow> 'r"
    and empty :: 'r and good :: "'r \<Rightarrow> bool" and eqv :: "'r \<Rightarrow> 'r \<Rightarrow> bool"
  assumes keys: "fst ` set enc \<subseteq> fst ` set dec" "distinct (map fst enc)"
    and dec_own: "\<lbrakk>(k, d) \<in> set dec; (k, g) \<in> set enc; good r; good s; g r = Some v\<rbrakk> \<Longrightarrow>
      \<exists>s'. d v s = Inr s' \<and> g s' = Some v \<and> good s'"
    and dec_other: "\<lbrakk>(k, d) \<in> set dec; (k', g) \<in> set enc; k' \<noteq> k; d v s = Inr s'\<rbrakk> \<Longrightarrow> g s' = g s"
    and dec_extra: "\<lbrakk>(k, d) \<in> set dec; d v s = Inr s'\<rbrakk> \<Longrightarrow> extra s' = extra s"
    and extra_add: "extra (add_extra k v s) = fmupd k v (extra s)" "(k', g) \<in> set enc \<Longrightarrow> g (add_extra k v s) = g s"
      "good s \<Longrightarrow> good (add_extra k v s)"
    and empty: "(k, g) \<in> set enc \<Longrightarrow> g empty = None" "extra empty = fmempty" "good empty"
    and ext: "\<lbrakk>good r; good s; \<forall>(k, g) \<in> set enc. g s = g r; extra s = extra r\<rbrakk> \<Longrightarrow> eqv r s"
begin

lemma decode_fold:
  "\<lbrakk>distinct (map fst ms); good r; good s;
    \<And>k v. (k, v) \<in> set ms \<Longrightarrow> k \<in> fst ` set dec \<Longrightarrow> \<exists>g. (k, g) \<in> set enc \<and> g r = Some v\<rbrakk> \<Longrightarrow>
   \<exists>s'. decode_members dec add_extra ms s = Inr s' \<and> good s' \<and>
     (\<forall>k g. (k, g) \<in> set enc \<longrightarrow> g s' = (case map_of ms k of None \<Rightarrow> g s | Some v \<Rightarrow> Some v)) \<and>
     (\<forall>k. fmlookup (extra s') k = (if k \<in> fst ` set dec then fmlookup (extra s) k
        else case map_of ms k of None \<Rightarrow> fmlookup (extra s) k | Some v \<Rightarrow> Some v))"
proof (induction ms arbitrary: s)
  case (Cons m ms)
  obtain k v where m: "m = (k, v)" by fastforce
  have notin: "map_of ms k = None" using Cons.prems(1) m by (simp add: map_of_eq_None_iff)
  show ?case
  proof (cases "map_of dec k")
    case None
    then have k: "k \<notin> fst ` set dec" by (simp add: map_of_eq_None_iff)
    obtain s' where "decode_members dec add_extra ms (add_extra k v s) = Inr s'" "good s'"
        "\<forall>k' g. (k', g) \<in> set enc \<longrightarrow> g s' = (case map_of ms k' of None \<Rightarrow> g (add_extra k v s) | Some v \<Rightarrow> Some v)"
        "\<forall>k'. fmlookup (extra s') k' = (if k' \<in> fst ` set dec then fmlookup (extra (add_extra k v s)) k'
           else case map_of ms k' of None \<Rightarrow> fmlookup (extra (add_extra k v s)) k' | Some v \<Rightarrow> Some v)"
      using Cons.IH [OF _ Cons.prems(2) extra_add(3) [OF Cons.prems(3)], of k v] Cons.prems(1,4) m by auto
    note s' = this
    have "g s' = (case map_of (m # ms) k' of None \<Rightarrow> g s | Some v \<Rightarrow> Some v)" if g: "(k', g) \<in> set enc" for k' g
    proof -
      have "k' \<noteq> k" using g k keys(1) by force
      then show ?thesis using s'(3) [rule_format, OF g] extra_add(2) [OF g, of k v s] m by (cases "map_of ms k'") simp_all
    qed
    moreover have "fmlookup (extra s') k' = (if k' \<in> fst ` set dec then fmlookup (extra s) k'
        else case map_of (m # ms) k' of None \<Rightarrow> fmlookup (extra s) k' | Some v \<Rightarrow> Some v)" for k'
      using s'(4) [rule_format, of k'] extra_add(1) [of k v s] k notin m
      by (cases "k' = k"; cases "map_of ms k'") simp_all
    ultimately show ?thesis using s'(1,2) m None by (intro exI [of _ s'] conjI allI impI) simp_all
  next
    case (Some d)
    then have d: "(k, d) \<in> set dec" by (rule map_of_SomeD)
    have kd: "k \<in> fst ` set dec" using d by force
    then obtain g where g: "(k, g) \<in> set enc" "g r = Some v" using Cons.prems(4) [of k v] m by auto
    then obtain s1 where s1: "d v s = Inr s1" "g s1 = Some v" "good s1" using dec_own [OF d g(1) Cons.prems(2,3)] by blast
    obtain s' where s': "decode_members dec add_extra ms s1 = Inr s'" "good s'"
        "\<forall>k' g. (k', g) \<in> set enc \<longrightarrow> g s' = (case map_of ms k' of None \<Rightarrow> g s1 | Some v \<Rightarrow> Some v)"
        "\<forall>k'. fmlookup (extra s') k' = (if k' \<in> fst ` set dec then fmlookup (extra s1) k'
           else case map_of ms k' of None \<Rightarrow> fmlookup (extra s1) k' | Some v \<Rightarrow> Some v)"
      using Cons.IH [OF _ Cons.prems(2) s1(3)] Cons.prems(1,4) m by auto
    have "g' s' = (case map_of (m # ms) k' of None \<Rightarrow> g' s | Some v \<Rightarrow> Some v)" if g': "(k', g') \<in> set enc" for k' g'
    proof (cases "k' = k")
      case True
      then have "g' = g" using g(1) g' keys(2) by (metis eq_key_imp_eq_value)
      then show ?thesis using True s'(3) [rule_format, OF g'] notin s1(2) m by simp
    next
      case False
      then show ?thesis using s'(3) [rule_format, OF g'] dec_other [OF d g' False s1(1)] m by (cases "map_of ms k'") simp_all
    qed
    moreover have "fmlookup (extra s') k' = (if k' \<in> fst ` set dec then fmlookup (extra s) k'
        else case map_of (m # ms) k' of None \<Rightarrow> fmlookup (extra s) k' | Some v \<Rightarrow> Some v)" for k'
      using s'(4) [rule_format, of k', unfolded dec_extra [OF d s1(1)]] kd m by (cases "k' = k") simp_all
    ultimately show ?thesis using m Some s1(1) s'(1,2) by (intro exI [of _ s'] conjI allI impI) simp_all
  qed
qed simp

lemma roundtrip:
  assumes "good r" "\<And>k. k \<in> fst ` set dec \<Longrightarrow> fmlookup (extra r) k = None"
  shows "\<exists>s. decode_members dec add_extra (sorted_list_of_fmap (encode_members enc r (extra r))) empty = Inr s \<and> eqv r s"
proof -
  let ?obj = "encode_members enc r (extra r)"
  have own: "fmlookup ?obj k = g r" if "(k, g) \<in> set enc" for k g
    using encode_own [OF keys(2) that, of r "extra r"] assms(2) [of k] keys(1) that by (cases "g r") force+
  have written: "\<exists>g. (k, g) \<in> set enc \<and> g r = Some v" if "fmlookup ?obj k = Some v" "k \<in> fst ` set dec" for k v
  proof -
    have "k \<in> fst ` set enc"
    proof (rule ccontr)
      assume "k \<notin> fst ` set enc"
      then show False using encode_other [of k enc r "extra r"] assms(2) [OF that(2)] that(1) by simp
    qed
    then obtain g where "(k, g) \<in> set enc" by auto
    then show ?thesis using own that(1) by auto
  qed
  obtain s where s: "decode_members dec add_extra (sorted_list_of_fmap ?obj) empty = Inr s" "good s"
      "\<forall>k g. (k, g) \<in> set enc \<longrightarrow> g s = (case fmlookup ?obj k of None \<Rightarrow> g empty | Some v \<Rightarrow> Some v)"
      "\<forall>k. fmlookup (extra s) k = (if k \<in> fst ` set dec then fmlookup (extra empty) k
        else case fmlookup ?obj k of None \<Rightarrow> fmlookup (extra empty) k | Some v \<Rightarrow> Some v)"
    using decode_fold [OF distinct_sorted_fmap assms(1) empty(3), of ?obj] written by (auto simp: set_sorted_fmap)
  have "g s = g r" if "(k, g) \<in> set enc" for k g
    using s(3) [rule_format, OF that] own [OF that] empty(1) [OF that] by (cases "g r") simp_all
  then have "\<forall>(k, g) \<in> set enc. g s = g r" by blast
  moreover have "extra s = extra r"
  proof (rule fmap_ext)
    fix k
    show "fmlookup (extra s) k = fmlookup (extra r) k"
    proof (cases "k \<in> fst ` set dec")
      case False
      then have "fmlookup ?obj k = fmlookup (extra r) k" using encode_other [of k enc r "extra r"] keys(1) by auto
      then show ?thesis using s(4) [rule_format, of k] False by (simp add: empty(2) split: option.splits)
    qed (use s(4) [rule_format, of k] assms(2) in \<open>simp add: empty(2)\<close>)
  qed
  ultimately show ?thesis using s(1) ext [OF assms(1) s(2)] by blast
qed

end

end
