(* ===== verification/Timeline.thy ===== *)
theory Timeline
  imports Json
begin

text \<open>
  The entries of MSF timeline tracks (msf/timeline.go): locations, media timeline entries, event
  timeline records and templates, with their JSON forms. A decoder gets the variable it decodes
  into, because a \<open>null\<close> leaves it as it is.
\<close>

section \<open>Locations and media timeline entries\<close>

record Location =
  loc_GroupID :: uint64
  loc_ObjectID :: uint64

definition Location_Marshal :: "Location \<Rightarrow> json" where
  "Location_Marshal l = JArray [json_uint64 (loc_GroupID l), json_uint64 (loc_ObjectID l)]"

definition Location_Unmarshal :: "Location \<Rightarrow> json \<Rightarrow> msf_error + Location" where
  "Location_Unmarshal l j =
     and_then (un_raw_slice j) (\<lambda>raw.
     if length raw \<noteq> 2 then Inl (MsfError ''location must contain exactly 2 items'')
     else and_then (un_uint64 (loc_GroupID l) (raw ! 0)) (\<lambda>g.
          and_then (un_uint64 (loc_ObjectID l) (raw ! 1)) (\<lambda>ob.
          Inr \<lparr>loc_GroupID = g, loc_ObjectID = ob\<rparr>)))"

record MediaTimelineEntry =
  mt_MediaTime :: int64
  mt_Location :: Location
  mt_Wallclock :: int64

definition MediaTimelineEntry_Marshal :: "MediaTimelineEntry \<Rightarrow> json" where
  "MediaTimelineEntry_Marshal e =
     JArray [json_int64 (mt_MediaTime e), Location_Marshal (mt_Location e), json_int64 (mt_Wallclock e)]"

definition MediaTimelineEntry_Unmarshal :: "MediaTimelineEntry \<Rightarrow> json \<Rightarrow> msf_error + MediaTimelineEntry" where
  "MediaTimelineEntry_Unmarshal e j =
     and_then (un_raw_slice j) (\<lambda>raw.
     if length raw \<noteq> 3 then Inl (MsfError ''media timeline entry must contain exactly 3 items'')
     else and_then (un_int64 (mt_MediaTime e) (raw ! 0)) (\<lambda>t.
          and_then (Location_Unmarshal (mt_Location e) (raw ! 1)) (\<lambda>l.
          and_then (un_int64 (mt_Wallclock e) (raw ! 2)) (\<lambda>w.
          Inr \<lparr>mt_MediaTime = t, mt_Location = l, mt_Wallclock = w\<rparr>))))"

definition zero_location :: Location where
  "zero_location = \<lparr>loc_GroupID = 0, loc_ObjectID = 0\<rparr>"

lemma Location_json [json_simps]: "Location_Unmarshal old (Location_Marshal l) = Inr l"
  by (simp add: Location_Unmarshal_def Location_Marshal_def un_raw_slice_def json_simps)

lemma MediaTimelineEntry_json [json_simps]: "MediaTimelineEntry_Unmarshal old (MediaTimelineEntry_Marshal e) = Inr e"
  by (simp add: MediaTimelineEntry_Unmarshal_def MediaTimelineEntry_Marshal_def un_raw_slice_def json_simps)

lemma Location_Marshal_inject [simp]: "Location_Marshal l = Location_Marshal l' \<longleftrightarrow> l = l'"
  by (metis Inr_inject Location_json)

lemma map_Location_Marshal [simp]: "map_option Location_Marshal x = map_option Location_Marshal y \<longleftrightarrow> x = y"
  by (rule map_option_same) simp

section \<open>Event timeline records\<close>

text \<open>The payload is None when it is empty.\<close>

record EventTimelineRecord =
  et_Wallclock :: "int64 option"
  et_Location :: "Location option"
  et_MediaTime :: "int64 option"
  et_Data :: "json option"
  et_ExtraFields :: raw_fields

definition EventTimelineRecord_Validate :: "EventTimelineRecord \<Rightarrow> msf_error option" where
  "EventTimelineRecord_Validate r =
     (let count = (if et_Wallclock r \<noteq> None then 1 else 0) + (if et_Location r \<noteq> None then 1 else 0) +
                  (if et_MediaTime r \<noteq> None then 1 else 0) :: nat
      in if count \<noteq> 1 then Some (MsfError ''event timeline record must contain exactly one of t, l, or m'')
         else if et_Data r = None then Some (MsfError ''event timeline record must contain data'')
         else None)"

definition event_encoders :: "(string \<times> (EventTimelineRecord \<Rightarrow> json option)) list" where
  "event_encoders =
     [(''t'', \<lambda>r. map_option json_int64 (et_Wallclock r)),
      (''l'', \<lambda>r. map_option Location_Marshal (et_Location r)),
      (''m'', \<lambda>r. map_option json_int64 (et_MediaTime r)),
      (''data'', et_Data)]"

definition event_decoders :: "(string \<times> (json \<Rightarrow> EventTimelineRecord \<Rightarrow> msf_error + EventTimelineRecord)) list" where
  "event_decoders =
     [(''t'', dec_new (un_int64 0) et_Wallclock_update),
      (''l'', dec_new (Location_Unmarshal zero_location) et_Location_update),
      (''m'', dec_new (un_int64 0) et_MediaTime_update),
      (''data'', \<lambda>v r. Inr (r\<lparr>et_Data := Some v\<rparr>))]"

definition event_other :: "string \<Rightarrow> json \<Rightarrow> EventTimelineRecord \<Rightarrow> EventTimelineRecord" where
  "event_other k v r = r\<lparr>et_ExtraFields := fmupd k v (et_ExtraFields r)\<rparr>"

definition empty_event :: EventTimelineRecord where
  "empty_event =
     \<lparr>et_Wallclock = None, et_Location = None, et_MediaTime = None, et_Data = None, et_ExtraFields = fmempty\<rparr>"

definition EventTimelineRecord_Marshal :: "EventTimelineRecord \<Rightarrow> json" where
  "EventTimelineRecord_Marshal r = json_map (encode_members event_encoders r (et_ExtraFields r))"

definition EventTimelineRecord_Unmarshal :: "json \<Rightarrow> msf_error + EventTimelineRecord" where
  "EventTimelineRecord_Unmarshal j =
     and_then (raw_members j) (\<lambda>raw. decode_members event_decoders event_other raw empty_event)"

interpretation event: json_record event_decoders event_encoders et_ExtraFields event_other empty_event "\<lambda>_. True" "(=)"
  by unfold_locales
    (auto simp: event_decoders_def event_encoders_def event_other_def empty_event_def decoder_Inr json_simps)

section \<open>Templates\<close>

record Template =
  tp_StartMediaTime :: int64
  tp_DeltaMediaTime :: int64
  tp_StartLocation :: Location
  tp_DeltaLocation :: Location
  tp_StartWallclock :: int64
  tp_DeltaWallclock :: int64

definition Template_Marshal :: "Template \<Rightarrow> json" where
  "Template_Marshal t =
     JArray [json_int64 (tp_StartMediaTime t), json_int64 (tp_DeltaMediaTime t),
             Location_Marshal (tp_StartLocation t), Location_Marshal (tp_DeltaLocation t),
             json_int64 (tp_StartWallclock t), json_int64 (tp_DeltaWallclock t)]"

definition Template_Unmarshal :: "Template \<Rightarrow> json \<Rightarrow> msf_error + Template" where
  "Template_Unmarshal t j =
     and_then (un_raw_slice j) (\<lambda>raw.
     if length raw \<noteq> 6 then Inl (MsfError ''media timeline template must contain exactly 6 items'')
     else and_then (un_int64 (tp_StartMediaTime t) (raw ! 0)) (\<lambda>sm.
          and_then (un_int64 (tp_DeltaMediaTime t) (raw ! 1)) (\<lambda>dm.
          and_then (Location_Unmarshal (tp_StartLocation t) (raw ! 2)) (\<lambda>sl.
          and_then (Location_Unmarshal (tp_DeltaLocation t) (raw ! 3)) (\<lambda>dl.
          and_then (un_int64 (tp_StartWallclock t) (raw ! 4)) (\<lambda>sw.
          and_then (un_int64 (tp_DeltaWallclock t) (raw ! 5)) (\<lambda>dw.
          Inr \<lparr>tp_StartMediaTime = sm, tp_DeltaMediaTime = dm, tp_StartLocation = sl, tp_DeltaLocation = dl,
               tp_StartWallclock = sw, tp_DeltaWallclock = dw\<rparr>)))))))"

text \<open>\<open>Entry\<close>: all arithmetic wraps; the step of the locations is \<open>uint64(n)\<close>.\<close>

definition Template_Entry :: "Template \<Rightarrow> int64 \<Rightarrow> MediaTimelineEntry" where
  "Template_Entry t n =
     (let step = n :: uint64
      in \<lparr>mt_MediaTime = tp_StartMediaTime t + n * tp_DeltaMediaTime t,
          mt_Location =
            \<lparr>loc_GroupID = loc_GroupID (tp_StartLocation t) + step * loc_GroupID (tp_DeltaLocation t),
             loc_ObjectID = loc_ObjectID (tp_StartLocation t) + step * loc_ObjectID (tp_DeltaLocation t)\<rparr>,
          mt_Wallclock = tp_StartWallclock t + n * tp_DeltaWallclock t\<rparr>)"

lemma Template_json [json_simps]: "Template_Unmarshal old (Template_Marshal t) = Inr t"
  by (simp add: Template_Unmarshal_def Template_Marshal_def un_raw_slice_def json_simps)

end
