(* ===== verification/Tracks.thy ===== *)
theory Tracks
  imports Timeline
begin

text \<open>
  The tracks of MSF catalogs (msf/catalog.go) with their many optional fields, their JSON form and
  the overriding of one track by another. The four functions that go through the
  fields of a track by name (marshalObject, unmarshalObject, hasField, applyOverrides) are tables
  with one row per case, in the order of the code. Clone copies what pointers reach, and values
  here have no pointers: a clone is the value itself.
\<close>

section \<open>Nested objects\<close>

record InitDataRef =
  id_ID :: string
  id_Type :: string
  id_Data :: string
  id_ExtraFields :: raw_fields

definition init_encoders :: "(string \<times> (InitDataRef \<Rightarrow> json option)) list" where
  "init_encoders =
     [(''id'', \<lambda>r. put_string (id_ID r)), (''type'', \<lambda>r. put_string (id_Type r)), (''data'', \<lambda>r. put_string (id_Data r))]"

definition init_decoders :: "(string \<times> (json \<Rightarrow> InitDataRef \<Rightarrow> msf_error + InitDataRef)) list" where
  "init_decoders =
     [(''id'', dec_string id_ID_update id_ID), (''type'', dec_string id_Type_update id_Type),
      (''data'', dec_string id_Data_update id_Data)]"

definition init_other :: "string \<Rightarrow> json \<Rightarrow> InitDataRef \<Rightarrow> InitDataRef" where
  "init_other k v r = r\<lparr>id_ExtraFields := fmupd k v (id_ExtraFields r)\<rparr>"

definition zero_init :: InitDataRef where
  "zero_init = \<lparr>id_ID = [], id_Type = [], id_Data = [], id_ExtraFields = fmempty\<rparr>"

definition InitDataRef_Marshal :: "InitDataRef \<Rightarrow> json" where
  "InitDataRef_Marshal r = json_map (encode_members init_encoders r (id_ExtraFields r))"

definition InitDataRef_Unmarshal :: "json \<Rightarrow> msf_error + InitDataRef" where
  "InitDataRef_Unmarshal j = and_then (raw_members j) (\<lambda>raw. decode_members init_decoders init_other raw zero_init)"

record Buffers =
  bf_Target :: "int64 option"
  bf_Min :: "int64 option"
  bf_Max :: "int64 option"
  bf_ExtraFields :: raw_fields

definition buffers_encoders :: "(string \<times> (Buffers \<Rightarrow> json option)) list" where
  "buffers_encoders =
     [(''target'', \<lambda>b. map_option json_int64 (bf_Target b)), (''min'', \<lambda>b. map_option json_int64 (bf_Min b)),
      (''max'', \<lambda>b. map_option json_int64 (bf_Max b))]"

definition buffers_decoders :: "(string \<times> (json \<Rightarrow> Buffers \<Rightarrow> msf_error + Buffers)) list" where
  "buffers_decoders =
     [(''target'', dec_new (un_int64 0) bf_Target_update), (''min'', dec_new (un_int64 0) bf_Min_update),
      (''max'', dec_new (un_int64 0) bf_Max_update)]"

definition buffers_other :: "string \<Rightarrow> json \<Rightarrow> Buffers \<Rightarrow> Buffers" where
  "buffers_other k v b = b\<lparr>bf_ExtraFields := fmupd k v (bf_ExtraFields b)\<rparr>"

definition zero_buffers :: Buffers where
  "zero_buffers = \<lparr>bf_Target = None, bf_Min = None, bf_Max = None, bf_ExtraFields = fmempty\<rparr>"

definition Buffers_Marshal :: "Buffers \<Rightarrow> json" where
  "Buffers_Marshal b = json_map (encode_members buffers_encoders b (bf_ExtraFields b))"

definition Buffers_Unmarshal :: "json \<Rightarrow> msf_error + Buffers" where
  "Buffers_Unmarshal j = and_then (raw_members j) (\<lambda>raw. decode_members buffers_decoders buffers_other raw zero_buffers)"

record AccessibilityDescriptor =
  ad_Scheme :: string
  ad_Value :: string
  ad_ExtraFields :: raw_fields

definition accessibility_encoders :: "(string \<times> (AccessibilityDescriptor \<Rightarrow> json option)) list" where
  "accessibility_encoders = [(''scheme'', \<lambda>a. put_string (ad_Scheme a)), (''value'', \<lambda>a. put_string (ad_Value a))]"

definition accessibility_decoders ::
    "(string \<times> (json \<Rightarrow> AccessibilityDescriptor \<Rightarrow> msf_error + AccessibilityDescriptor)) list" where
  "accessibility_decoders =
     [(''scheme'', dec_string ad_Scheme_update ad_Scheme), (''value'', dec_string ad_Value_update ad_Value)]"

definition accessibility_other :: "string \<Rightarrow> json \<Rightarrow> AccessibilityDescriptor \<Rightarrow> AccessibilityDescriptor" where
  "accessibility_other k v a = a\<lparr>ad_ExtraFields := fmupd k v (ad_ExtraFields a)\<rparr>"

definition zero_accessibility :: AccessibilityDescriptor where
  "zero_accessibility = \<lparr>ad_Scheme = [], ad_Value = [], ad_ExtraFields = fmempty\<rparr>"

definition AccessibilityDescriptor_Marshal :: "AccessibilityDescriptor \<Rightarrow> json" where
  "AccessibilityDescriptor_Marshal a = json_map (encode_members accessibility_encoders a (ad_ExtraFields a))"

definition AccessibilityDescriptor_Unmarshal :: "json \<Rightarrow> msf_error + AccessibilityDescriptor" where
  "AccessibilityDescriptor_Unmarshal j =
     and_then (raw_members j) (\<lambda>raw. decode_members accessibility_decoders accessibility_other raw zero_accessibility)"

section \<open>Tracks\<close>

text \<open>Pointers and slices are options with None for nil.\<close>

record Track =
  tk_Namespace :: string
  tk_Name :: string
  tk_Packaging :: string
  tk_EventType :: string
  tk_Role :: string
  tk_IsLive :: "bool option"
  tk_TargetLatency :: "int64 option"
  tk_Label :: string
  tk_RenderGroup :: "int64 option"
  tk_AltGroup :: "int64 option"
  tk_InitRef :: string
  tk_Buffers :: "Buffers option"
  tk_Template :: "Template option"
  tk_Depends :: "string list option"
  tk_TemporalID :: "int64 option"
  tk_SpatialID :: "int64 option"
  tk_Codec :: string
  tk_MimeType :: string
  tk_Framerate :: "int64 option"
  tk_Timescale :: "int64 option"
  tk_Bitrate :: "int64 option"
  tk_AvgBitrate :: "int64 option"
  tk_MaxGopDuration :: "int64 option"
  tk_MaxGroupDuration :: "int64 option"
  tk_Width :: "int64 option"
  tk_Height :: "int64 option"
  tk_SampleRate :: "int64 option"
  tk_ChannelConfig :: string
  tk_DisplayWidth :: "int64 option"
  tk_DisplayHeight :: "int64 option"
  tk_Language :: string
  tk_ParentNamespace :: string
  tk_TrackDuration :: "int64 option"
  tk_ConnectionURI :: string
  tk_Token :: string
  tk_EncryptionScheme :: string
  tk_CipherSuite :: string
  tk_KeyID :: string
  tk_TrackBaseKey :: string
  tk_AuthInfo :: "raw_fields option"
  tk_Accessibility :: "AccessibilityDescriptor list option"
  tk_ExtraFields :: raw_fields
  tk_presentFields :: "string set"

definition zero_track :: Track where
  "zero_track =
     \<lparr>tk_Namespace = [], tk_Name = [], tk_Packaging = [], tk_EventType = [], tk_Role = [], tk_IsLive = None,
      tk_TargetLatency = None, tk_Label = [], tk_RenderGroup = None, tk_AltGroup = None, tk_InitRef = [], tk_Buffers =
      None, tk_Template = None, tk_Depends = None, tk_TemporalID = None, tk_SpatialID = None, tk_Codec = [],
      tk_MimeType = [], tk_Framerate = None, tk_Timescale = None, tk_Bitrate = None, tk_AvgBitrate = None,
      tk_MaxGopDuration = None, tk_MaxGroupDuration = None, tk_Width = None, tk_Height = None, tk_SampleRate = None,
      tk_ChannelConfig = [], tk_DisplayWidth = None, tk_DisplayHeight = None, tk_Language = [], tk_ParentNamespace =
      [], tk_TrackDuration = None, tk_ConnectionURI = [], tk_Token = [], tk_EncryptionScheme = [], tk_CipherSuite =
      [], tk_KeyID = [], tk_TrackBaseKey = [], tk_AuthInfo = None, tk_Accessibility = None,
      tk_ExtraFields = fmempty, tk_presentFields = {}\<rparr>"

definition zero_template :: Template where
  "zero_template =
     \<lparr>tp_StartMediaTime = 0, tp_DeltaMediaTime = 0, tp_StartLocation = zero_location, tp_DeltaLocation = zero_location,
      tp_StartWallclock = 0, tp_DeltaWallclock = 0\<rparr>"

text \<open>\<open>marshalObject\<close>\<close>

definition track_encoders :: "(string \<times> (Track \<Rightarrow> json option)) list" where
  "track_encoders =
     [(''namespace'', \<lambda>t. put_string (tk_Namespace t)),
      (''name'', \<lambda>t. put_string (tk_Name t)),
      (''packaging'', \<lambda>t. put_string (tk_Packaging t)),
      (''eventType'', \<lambda>t. put_string (tk_EventType t)),
      (''role'', \<lambda>t. put_string (tk_Role t)),
      (''isLive'', \<lambda>t. map_option JBool (tk_IsLive t)),
      (''targetLatency'', \<lambda>t. map_option json_int64 (tk_TargetLatency t)),
      (''label'', \<lambda>t. put_string (tk_Label t)),
      (''renderGroup'', \<lambda>t. map_option json_int64 (tk_RenderGroup t)),
      (''altGroup'', \<lambda>t. map_option json_int64 (tk_AltGroup t)),
      (''initRef'', \<lambda>t. put_string (tk_InitRef t)),
      (''buffers'', \<lambda>t. map_option Buffers_Marshal (tk_Buffers t)),
      (''template'', \<lambda>t. map_option Template_Marshal (tk_Template t)),
      (''depends'', \<lambda>t. map_option (\<lambda>ss. JArray (map JString ss)) (tk_Depends t)),
      (''temporalId'', \<lambda>t. map_option json_int64 (tk_TemporalID t)),
      (''spatialId'', \<lambda>t. map_option json_int64 (tk_SpatialID t)),
      (''codec'', \<lambda>t. put_string (tk_Codec t)),
      (''mimeType'', \<lambda>t. put_string (tk_MimeType t)),
      (''framerate'', \<lambda>t. map_option json_int64 (tk_Framerate t)),
      (''timescale'', \<lambda>t. map_option json_int64 (tk_Timescale t)),
      (''bitrate'', \<lambda>t. map_option json_int64 (tk_Bitrate t)),
      (''avgBitrate'', \<lambda>t. map_option json_int64 (tk_AvgBitrate t)),
      (''maxGopDuration'', \<lambda>t. map_option json_int64 (tk_MaxGopDuration t)),
      (''maxGroupDuration'', \<lambda>t. map_option json_int64 (tk_MaxGroupDuration t)),
      (''width'', \<lambda>t. map_option json_int64 (tk_Width t)),
      (''height'', \<lambda>t. map_option json_int64 (tk_Height t)),
      (''samplerate'', \<lambda>t. map_option json_int64 (tk_SampleRate t)),
      (''channelConfig'', \<lambda>t. put_string (tk_ChannelConfig t)),
      (''displayWidth'', \<lambda>t. map_option json_int64 (tk_DisplayWidth t)),
      (''displayHeight'', \<lambda>t. map_option json_int64 (tk_DisplayHeight t)),
      (''lang'', \<lambda>t. put_string (tk_Language t)),
      (''parentNamespace'', \<lambda>t. put_string (tk_ParentNamespace t)),
      (''trackDuration'', \<lambda>t. map_option json_int64 (tk_TrackDuration t)),
      (''connectionUri'', \<lambda>t. put_string (tk_ConnectionURI t)),
      (''token'', \<lambda>t. put_string (tk_Token t)),
      (''encryptionScheme'', \<lambda>t. put_string (tk_EncryptionScheme t)),
      (''cipherSuite'', \<lambda>t. put_string (tk_CipherSuite t)),
      (''keyId'', \<lambda>t. put_string (tk_KeyID t)),
      (''trackBaseKey'', \<lambda>t. put_string (tk_TrackBaseKey t)),
      (''authInfo'', \<lambda>t. map_option json_map (tk_AuthInfo t)),
      (''accessibility'', \<lambda>t. map_option (\<lambda>ds. JArray (map AccessibilityDescriptor_Marshal ds)) (tk_Accessibility t))]"

definition marshalObject :: "Track \<Rightarrow> raw_fields" where
  "marshalObject t = encode_members track_encoders t (tk_ExtraFields t)"

definition Track_Marshal :: "Track \<Rightarrow> json" where
  "Track_Marshal t = json_map (marshalObject t)"

text \<open>\<open>unmarshalObject\<close>: every key is noted as present before its case.\<close>

definition track_decoders :: "(string \<times> (json \<Rightarrow> Track \<Rightarrow> msf_error + Track)) list" where
  "track_decoders =
     [(''namespace'', dec_string tk_Namespace_update tk_Namespace),
      (''name'', dec_string tk_Name_update tk_Name),
      (''packaging'', dec_string tk_Packaging_update tk_Packaging),
      (''eventType'', dec_string tk_EventType_update tk_EventType),
      (''role'', dec_string tk_Role_update tk_Role),
      (''isLive'', dec_new (un_bool False) tk_IsLive_update),
      (''targetLatency'', dec_new (un_int64 0) tk_TargetLatency_update),
      (''label'', dec_string tk_Label_update tk_Label),
      (''renderGroup'', dec_val un_int64_ptr tk_RenderGroup_update),
      (''altGroup'', dec_val un_int64_ptr tk_AltGroup_update),
      (''initRef'', dec_string tk_InitRef_update tk_InitRef),
      (''buffers'', dec_new Buffers_Unmarshal tk_Buffers_update),
      (''template'', dec_new (Template_Unmarshal zero_template) tk_Template_update),
      (''depends'', dec_val (un_slice (un_string [])) tk_Depends_update),
      (''temporalId'', dec_val un_int64_ptr tk_TemporalID_update),
      (''spatialId'', dec_val un_int64_ptr tk_SpatialID_update),
      (''codec'', dec_string tk_Codec_update tk_Codec),
      (''mimeType'', dec_string tk_MimeType_update tk_MimeType),
      (''framerate'', dec_val un_int64_ptr tk_Framerate_update),
      (''timescale'', dec_val un_int64_ptr tk_Timescale_update),
      (''bitrate'', dec_val un_int64_ptr tk_Bitrate_update),
      (''avgBitrate'', dec_val un_int64_ptr tk_AvgBitrate_update),
      (''maxGopDuration'', dec_val un_int64_ptr tk_MaxGopDuration_update),
      (''maxGroupDuration'', dec_val un_int64_ptr tk_MaxGroupDuration_update),
      (''width'', dec_val un_int64_ptr tk_Width_update),
      (''height'', dec_val un_int64_ptr tk_Height_update),
      (''samplerate'', dec_val un_int64_ptr tk_SampleRate_update),
      (''channelConfig'', dec_string tk_ChannelConfig_update tk_ChannelConfig),
      (''displayWidth'', dec_val un_int64_ptr tk_DisplayWidth_update),
      (''displayHeight'', dec_val un_int64_ptr tk_DisplayHeight_update),
      (''lang'', dec_string tk_Language_update tk_Language),
      (''parentNamespace'', dec_string tk_ParentNamespace_update tk_ParentNamespace),
      (''trackDuration'', dec_val un_int64_ptr tk_TrackDuration_update),
      (''connectionUri'', dec_string tk_ConnectionURI_update tk_ConnectionURI),
      (''token'', dec_string tk_Token_update tk_Token),
      (''encryptionScheme'', dec_string tk_EncryptionScheme_update tk_EncryptionScheme),
      (''cipherSuite'', dec_string tk_CipherSuite_update tk_CipherSuite),
      (''keyId'', dec_string tk_KeyID_update tk_KeyID),
      (''trackBaseKey'', dec_string tk_TrackBaseKey_update tk_TrackBaseKey),
      (''authInfo'', dec_val un_raw_map tk_AuthInfo_update),
      (''accessibility'', dec_val (un_slice AccessibilityDescriptor_Unmarshal) tk_Accessibility_update)]"

definition track_other :: "string \<Rightarrow> json \<Rightarrow> Track \<Rightarrow> Track" where
  "track_other k v t = t\<lparr>tk_ExtraFields := fmupd k v (tk_ExtraFields t)\<rparr>"

definition present :: "string \<Rightarrow> Track \<Rightarrow> Track" where
  "present k t = t\<lparr>tk_presentFields := insert k (tk_presentFields t)\<rparr>"

definition unmarshalObject :: "(string \<times> json) list \<Rightarrow> msf_error + Track" where
  "unmarshalObject raw =
     decode_members (map (\<lambda>(k, d). (k, \<lambda>v t. d v (present k t))) track_decoders)
       (\<lambda>k v t. track_other k v (present k t)) raw zero_track"

definition Track_Unmarshal :: "json \<Rightarrow> msf_error + Track" where
  "Track_Unmarshal j = and_then (raw_members j) unmarshalObject"

text \<open>\<open>hasField\<close>\<close>

definition track_fields :: "(string \<times> (Track \<Rightarrow> bool)) list" where
  "track_fields =
     [(''namespace'', \<lambda>t. tk_Namespace t \<noteq> []),
      (''name'', \<lambda>t. tk_Name t \<noteq> []),
      (''packaging'', \<lambda>t. tk_Packaging t \<noteq> []),
      (''eventType'', \<lambda>t. tk_EventType t \<noteq> []),
      (''role'', \<lambda>t. tk_Role t \<noteq> []),
      (''isLive'', \<lambda>t. tk_IsLive t \<noteq> None),
      (''targetLatency'', \<lambda>t. tk_TargetLatency t \<noteq> None),
      (''label'', \<lambda>t. tk_Label t \<noteq> []),
      (''renderGroup'', \<lambda>t. tk_RenderGroup t \<noteq> None),
      (''altGroup'', \<lambda>t. tk_AltGroup t \<noteq> None),
      (''initRef'', \<lambda>t. tk_InitRef t \<noteq> []),
      (''buffers'', \<lambda>t. tk_Buffers t \<noteq> None),
      (''template'', \<lambda>t. tk_Template t \<noteq> None),
      (''depends'', \<lambda>t. tk_Depends t \<noteq> None),
      (''temporalId'', \<lambda>t. tk_TemporalID t \<noteq> None),
      (''spatialId'', \<lambda>t. tk_SpatialID t \<noteq> None),
      (''codec'', \<lambda>t. tk_Codec t \<noteq> []),
      (''mimeType'', \<lambda>t. tk_MimeType t \<noteq> []),
      (''framerate'', \<lambda>t. tk_Framerate t \<noteq> None),
      (''timescale'', \<lambda>t. tk_Timescale t \<noteq> None),
      (''bitrate'', \<lambda>t. tk_Bitrate t \<noteq> None),
      (''avgBitrate'', \<lambda>t. tk_AvgBitrate t \<noteq> None),
      (''maxGopDuration'', \<lambda>t. tk_MaxGopDuration t \<noteq> None),
      (''maxGroupDuration'', \<lambda>t. tk_MaxGroupDuration t \<noteq> None),
      (''width'', \<lambda>t. tk_Width t \<noteq> None),
      (''height'', \<lambda>t. tk_Height t \<noteq> None),
      (''samplerate'', \<lambda>t. tk_SampleRate t \<noteq> None),
      (''channelConfig'', \<lambda>t. tk_ChannelConfig t \<noteq> []),
      (''displayWidth'', \<lambda>t. tk_DisplayWidth t \<noteq> None),
      (''displayHeight'', \<lambda>t. tk_DisplayHeight t \<noteq> None),
      (''lang'', \<lambda>t. tk_Language t \<noteq> []),
      (''parentNamespace'', \<lambda>t. tk_ParentNamespace t \<noteq> []),
      (''trackDuration'', \<lambda>t. tk_TrackDuration t \<noteq> None),
      (''connectionUri'', \<lambda>t. tk_ConnectionURI t \<noteq> []),
      (''token'', \<lambda>t. tk_Token t \<noteq> []),
      (''encryptionScheme'', \<lambda>t. tk_EncryptionScheme t \<noteq> []),
      (''cipherSuite'', \<lambda>t. tk_CipherSuite t \<noteq> []),
      (''keyId'', \<lambda>t. tk_KeyID t \<noteq> []),
      (''trackBaseKey'', \<lambda>t. tk_TrackBaseKey t \<noteq> []),
      (''authInfo'', \<lambda>t. tk_AuthInfo t \<noteq> None),
      (''accessibility'', \<lambda>t. tk_Accessibility t \<noteq> None)]"

definition hasField :: "Track \<Rightarrow> string \<Rightarrow> bool" where
  "hasField t field \<longleftrightarrow>
     field \<in> tk_presentFields t \<or> (case map_of track_fields field of None \<Rightarrow> False | Some f \<Rightarrow> f t)"

text \<open>\<open>applyOverrides\<close>: AuthInfo goes through cloneRawMessages, which makes an empty map of a nil one.\<close>

definition track_overrides :: "(string \<times> (Track \<Rightarrow> Track \<Rightarrow> Track)) list" where
  "track_overrides =
     [(''namespace'', \<lambda>ov t. t\<lparr>tk_Namespace := tk_Namespace ov\<rparr>),
      (''name'', \<lambda>ov t. t\<lparr>tk_Name := tk_Name ov\<rparr>),
      (''packaging'', \<lambda>ov t. t\<lparr>tk_Packaging := tk_Packaging ov\<rparr>),
      (''eventType'', \<lambda>ov t. t\<lparr>tk_EventType := tk_EventType ov\<rparr>),
      (''role'', \<lambda>ov t. t\<lparr>tk_Role := tk_Role ov\<rparr>),
      (''isLive'', \<lambda>ov t. t\<lparr>tk_IsLive := tk_IsLive ov\<rparr>),
      (''targetLatency'', \<lambda>ov t. t\<lparr>tk_TargetLatency := tk_TargetLatency ov\<rparr>),
      (''label'', \<lambda>ov t. t\<lparr>tk_Label := tk_Label ov\<rparr>),
      (''renderGroup'', \<lambda>ov t. t\<lparr>tk_RenderGroup := tk_RenderGroup ov\<rparr>),
      (''altGroup'', \<lambda>ov t. t\<lparr>tk_AltGroup := tk_AltGroup ov\<rparr>),
      (''initRef'', \<lambda>ov t. t\<lparr>tk_InitRef := tk_InitRef ov\<rparr>),
      (''buffers'', \<lambda>ov t. t\<lparr>tk_Buffers := tk_Buffers ov\<rparr>),
      (''template'', \<lambda>ov t. t\<lparr>tk_Template := tk_Template ov\<rparr>),
      (''depends'', \<lambda>ov t. t\<lparr>tk_Depends := tk_Depends ov\<rparr>),
      (''temporalId'', \<lambda>ov t. t\<lparr>tk_TemporalID := tk_TemporalID ov\<rparr>),
      (''spatialId'', \<lambda>ov t. t\<lparr>tk_SpatialID := tk_SpatialID ov\<rparr>),
      (''codec'', \<lambda>ov t. t\<lparr>tk_Codec := tk_Codec ov\<rparr>),
      (''mimeType'', \<lambda>ov t. t\<lparr>tk_MimeType := tk_MimeType ov\<rparr>),
      (''framerate'', \<lambda>ov t. t\<lparr>tk_Framerate := tk_Framerate ov\<rparr>),
      (''timescale'', \<lambda>ov t. t\<lparr>tk_Timescale := tk_Timescale ov\<rparr>),
      (''bitrate'', \<lambda>ov t. t\<lparr>tk_Bitrate := tk_Bitrate ov\<rparr>),
      (''avgBitrate'', \<lambda>ov t. t\<lparr>tk_AvgBitrate := tk_AvgBitrate ov\<rparr>),
      (''maxGopDuration'', \<lambda>ov t. t\<lparr>tk_MaxGopDuration := tk_MaxGopDuration ov\<rparr>),
      (''maxGroupDuration'', \<lambda>ov t. t\<lparr>tk_MaxGroupDuration := tk_MaxGroupDuration ov\<rparr>),
      (''width'', \<lambda>ov t. t\<lparr>tk_Width := tk_Width ov\<rparr>),
      (''height'', \<lambda>ov t. t\<lparr>tk_Height := tk_Height ov\<rparr>),
      (''samplerate'', \<lambda>ov t. t\<lparr>tk_SampleRate := tk_SampleRate ov\<rparr>),
      (''channelConfig'', \<lambda>ov t. t\<lparr>tk_ChannelConfig := tk_ChannelConfig ov\<rparr>),
      (''displayWidth'', \<lambda>ov t. t\<lparr>tk_DisplayWidth := tk_DisplayWidth ov\<rparr>),
      (''displayHeight'', \<lambda>ov t. t\<lparr>tk_DisplayHeight := tk_DisplayHeight ov\<rparr>),
      (''lang'', \<lambda>ov t. t\<lparr>tk_Language := tk_Language ov\<rparr>),
      (''parentNamespace'', \<lambda>ov t. t\<lparr>tk_ParentNamespace := tk_ParentNamespace ov\<rparr>),
      (''trackDuration'', \<lambda>ov t. t\<lparr>tk_TrackDuration := tk_TrackDuration ov\<rparr>),
      (''connectionUri'', \<lambda>ov t. t\<lparr>tk_ConnectionURI := tk_ConnectionURI ov\<rparr>),
      (''token'', \<lambda>ov t. t\<lparr>tk_Token := tk_Token ov\<rparr>),
      (''encryptionScheme'', \<lambda>ov t. t\<lparr>tk_EncryptionScheme := tk_EncryptionScheme ov\<rparr>),
      (''cipherSuite'', \<lambda>ov t. t\<lparr>tk_CipherSuite := tk_CipherSuite ov\<rparr>),
      (''keyId'', \<lambda>ov t. t\<lparr>tk_KeyID := tk_KeyID ov\<rparr>),
      (''trackBaseKey'', \<lambda>ov t. t\<lparr>tk_TrackBaseKey := tk_TrackBaseKey ov\<rparr>),
      (''authInfo'', \<lambda>ov t. t\<lparr>tk_AuthInfo := Some (case tk_AuthInfo ov of None \<Rightarrow> fmempty | Some m \<Rightarrow> m)\<rparr>),
      (''accessibility'', \<lambda>ov t. t\<lparr>tk_Accessibility := tk_Accessibility ov\<rparr>)]"

definition applyOverrides :: "Track \<Rightarrow> Track \<Rightarrow> Track" where
  "applyOverrides override t =
     (let t = fold (\<lambda>(k, copy) t. if hasField override k then copy override t else t) track_overrides t
      in t\<lparr>tk_presentFields := tk_presentFields t \<union> tk_presentFields override,
           tk_ExtraFields := fmadd (tk_ExtraFields t) (tk_ExtraFields override)\<rparr>)"

section \<open>Objects come back\<close>

definition plain :: "(string \<times> 'a) list \<Rightarrow> raw_fields \<Rightarrow> bool" where
  "plain cs m \<longleftrightarrow> list_all (\<lambda>(k, f). fmlookup m k = None) cs"

lemma plainD: "plain cs m \<Longrightarrow> k \<in> fst ` set cs \<Longrightarrow> fmlookup m k = None"
  by (auto simp: plain_def list_all_iff)

interpretation init: json_record init_decoders init_encoders id_ExtraFields init_other zero_init "\<lambda>_. True" "(=)"
  by unfold_locales
    (auto simp: init_decoders_def init_encoders_def init_other_def zero_init_def decoder_Inr json_simps)

interpretation buffers: json_record buffers_decoders buffers_encoders bf_ExtraFields buffers_other zero_buffers "\<lambda>_. True" "(=)"
  by unfold_locales
    (auto simp: buffers_decoders_def buffers_encoders_def buffers_other_def zero_buffers_def decoder_Inr json_simps)

interpretation access: json_record accessibility_decoders accessibility_encoders ad_ExtraFields accessibility_other
    zero_accessibility "\<lambda>_. True" "(=)"
  by unfold_locales
    (auto simp: accessibility_decoders_def accessibility_encoders_def accessibility_other_def zero_accessibility_def
      decoder_Inr json_simps)

lemma InitDataRef_json: "plain init_decoders (id_ExtraFields r) \<Longrightarrow> InitDataRef_Unmarshal (InitDataRef_Marshal r) = Inr r"
  using init.roundtrip [of r] plainD by (fastforce simp: InitDataRef_Unmarshal_def InitDataRef_Marshal_def json_simps)

lemma Buffers_json: "plain buffers_decoders (bf_ExtraFields b) \<Longrightarrow> Buffers_Unmarshal (Buffers_Marshal b) = Inr b"
  using buffers.roundtrip [of b] plainD by (fastforce simp: Buffers_Unmarshal_def Buffers_Marshal_def json_simps)

lemma Accessibility_json:
  "plain accessibility_decoders (ad_ExtraFields a) \<Longrightarrow>
   AccessibilityDescriptor_Unmarshal (AccessibilityDescriptor_Marshal a) = Inr a"
  using access.roundtrip [of a] plainD
  by (fastforce simp: AccessibilityDescriptor_Unmarshal_def AccessibilityDescriptor_Marshal_def json_simps)

text \<open>What a track has to leave alone: the keys of the objects among their extra fields.\<close>

definition buffers_plain :: "Buffers option \<Rightarrow> bool" where
  "buffers_plain b \<longleftrightarrow> (case b of None \<Rightarrow> True | Some b \<Rightarrow> plain buffers_decoders (bf_ExtraFields b))"

definition accessibility_plain :: "AccessibilityDescriptor list option \<Rightarrow> bool" where
  "accessibility_plain ds \<longleftrightarrow>
     (case ds of None \<Rightarrow> True | Some ds \<Rightarrow> list_all (\<lambda>a. plain accessibility_decoders (ad_ExtraFields a)) ds)"

lemma Buffers_Marshal_inject: "\<lbrakk>buffers_plain b; buffers_plain b'; map_option Buffers_Marshal b = map_option Buffers_Marshal b'\<rbrakk> \<Longrightarrow> b = b'"
  using Buffers_json by (cases b; cases b') (auto simp: buffers_plain_def, metis Inr_inject)

lemma un_slice_accessibility:
  "accessibility_plain (Some ds) \<Longrightarrow>
   un_slice AccessibilityDescriptor_Unmarshal (JArray (map AccessibilityDescriptor_Marshal ds)) = Inr (Some ds)"
  using un_list_json [of ds AccessibilityDescriptor_Unmarshal AccessibilityDescriptor_Marshal id] Accessibility_json
  by (simp add: un_slice_def accessibility_plain_def list_all_iff)

lemma Accessibility_Marshal_inject:
  assumes "accessibility_plain ds" "accessibility_plain ds'"
    "map_option (\<lambda>ds. JArray (map AccessibilityDescriptor_Marshal ds)) ds = map_option (\<lambda>ds. JArray (map AccessibilityDescriptor_Marshal ds)) ds'"
  shows "ds = ds'"
proof (cases ds)
  case (Some xs)
  then obtain ys where ys: "ds' = Some ys" using assms(3) by (cases ds') auto
  have "JArray (map AccessibilityDescriptor_Marshal xs) = JArray (map AccessibilityDescriptor_Marshal ys)"
    using assms(3) Some ys by simp
  then have "Inr (Some xs) = (Inr (Some ys) :: msf_error + _)"
    using un_slice_accessibility [OF assms(1) [unfolded Some]] un_slice_accessibility [OF assms(2) [unfolded ys]] by (metis (no_types))
  then show ?thesis using Some ys by simp
qed (use assms(3) in auto)

text \<open>Tracks that differ only in what was noted as present.\<close>

definition same_track :: "Track \<Rightarrow> Track \<Rightarrow> bool" where
  "same_track t u \<longleftrightarrow> t\<lparr>tk_presentFields := {}\<rparr> = u\<lparr>tk_presentFields := {}\<rparr>"

definition track_plain :: "Track \<Rightarrow> bool" where
  "track_plain t \<longleftrightarrow> buffers_plain (tk_Buffers t) \<and> accessibility_plain (tk_Accessibility t)"

lemma map_Template_Marshal [simp]: "map_option Template_Marshal x = map_option Template_Marshal y \<longleftrightarrow> x = y"
  by (rule map_option_same) (metis Inr_inject Template_json)

lemma map_depends [simp]:
  "map_option (\<lambda>ss. JArray (map JString ss)) x = map_option (\<lambda>ss. JArray (map JString ss)) y \<longleftrightarrow> x = y"
  by (rule map_option_same) (metis un_slice_strings Inr_inject option.inject)

lemma map_json_map [simp]: "map_option json_map x = map_option json_map y \<longleftrightarrow> x = y"
  by (rule map_option_same) simp

lemma map_json_bool [simp]: "map_option JBool x = map_option JBool y \<longleftrightarrow> x = y"
  by (rule map_option_same) simp

abbreviation track_cases :: "(string \<times> (json \<Rightarrow> Track \<Rightarrow> msf_error + Track)) list" where
  "track_cases \<equiv> map (\<lambda>(k, d). (k, \<lambda>v t. d v (present k t))) track_decoders"

text \<open>The equations on keys: none of the names is another one.\<close>

lemma track_ext:
  assumes "track_plain t" "track_plain u" "\<forall>(k, g) \<in> set track_encoders. g u = g t" "tk_ExtraFields u = tk_ExtraFields t"
  shows "same_track t u"
proof -
  have "tk_Buffers u = tk_Buffers t" "tk_Accessibility u = tk_Accessibility t"
    using assms(1-3) Buffers_Marshal_inject [of "tk_Buffers u" "tk_Buffers t"]
      Accessibility_Marshal_inject [of "tk_Accessibility u" "tk_Accessibility t"]
    by (simp_all add: track_encoders_def track_plain_def)
  then show ?thesis
    using assms(3,4) by (simp add: track_encoders_def same_track_def)
qed

text \<open>A case of one of the tables changes one field, the one of its key.\<close>

definition track_touch :: "(string \<times> (Track \<Rightarrow> Track \<Rightarrow> bool)) list" where
  "track_touch =
     [(''namespace'', \<lambda>t u. \<exists>x. u = t\<lparr>tk_Namespace := x\<rparr>),
      (''name'', \<lambda>t u. \<exists>x. u = t\<lparr>tk_Name := x\<rparr>),
      (''packaging'', \<lambda>t u. \<exists>x. u = t\<lparr>tk_Packaging := x\<rparr>),
      (''eventType'', \<lambda>t u. \<exists>x. u = t\<lparr>tk_EventType := x\<rparr>),
      (''role'', \<lambda>t u. \<exists>x. u = t\<lparr>tk_Role := x\<rparr>),
      (''isLive'', \<lambda>t u. \<exists>x. u = t\<lparr>tk_IsLive := x\<rparr>),
      (''targetLatency'', \<lambda>t u. \<exists>x. u = t\<lparr>tk_TargetLatency := x\<rparr>),
      (''label'', \<lambda>t u. \<exists>x. u = t\<lparr>tk_Label := x\<rparr>),
      (''renderGroup'', \<lambda>t u. \<exists>x. u = t\<lparr>tk_RenderGroup := x\<rparr>),
      (''altGroup'', \<lambda>t u. \<exists>x. u = t\<lparr>tk_AltGroup := x\<rparr>),
      (''initRef'', \<lambda>t u. \<exists>x. u = t\<lparr>tk_InitRef := x\<rparr>),
      (''buffers'', \<lambda>t u. \<exists>x. u = t\<lparr>tk_Buffers := x\<rparr>),
      (''template'', \<lambda>t u. \<exists>x. u = t\<lparr>tk_Template := x\<rparr>),
      (''depends'', \<lambda>t u. \<exists>x. u = t\<lparr>tk_Depends := x\<rparr>),
      (''temporalId'', \<lambda>t u. \<exists>x. u = t\<lparr>tk_TemporalID := x\<rparr>),
      (''spatialId'', \<lambda>t u. \<exists>x. u = t\<lparr>tk_SpatialID := x\<rparr>),
      (''codec'', \<lambda>t u. \<exists>x. u = t\<lparr>tk_Codec := x\<rparr>),
      (''mimeType'', \<lambda>t u. \<exists>x. u = t\<lparr>tk_MimeType := x\<rparr>),
      (''framerate'', \<lambda>t u. \<exists>x. u = t\<lparr>tk_Framerate := x\<rparr>),
      (''timescale'', \<lambda>t u. \<exists>x. u = t\<lparr>tk_Timescale := x\<rparr>),
      (''bitrate'', \<lambda>t u. \<exists>x. u = t\<lparr>tk_Bitrate := x\<rparr>),
      (''avgBitrate'', \<lambda>t u. \<exists>x. u = t\<lparr>tk_AvgBitrate := x\<rparr>),
      (''maxGopDuration'', \<lambda>t u. \<exists>x. u = t\<lparr>tk_MaxGopDuration := x\<rparr>),
      (''maxGroupDuration'', \<lambda>t u. \<exists>x. u = t\<lparr>tk_MaxGroupDuration := x\<rparr>),
      (''width'', \<lambda>t u. \<exists>x. u = t\<lparr>tk_Width := x\<rparr>),
      (''height'', \<lambda>t u. \<exists>x. u = t\<lparr>tk_Height := x\<rparr>),
      (''samplerate'', \<lambda>t u. \<exists>x. u = t\<lparr>tk_SampleRate := x\<rparr>),
      (''channelConfig'', \<lambda>t u. \<exists>x. u = t\<lparr>tk_ChannelConfig := x\<rparr>),
      (''displayWidth'', \<lambda>t u. \<exists>x. u = t\<lparr>tk_DisplayWidth := x\<rparr>),
      (''displayHeight'', \<lambda>t u. \<exists>x. u = t\<lparr>tk_DisplayHeight := x\<rparr>),
      (''lang'', \<lambda>t u. \<exists>x. u = t\<lparr>tk_Language := x\<rparr>),
      (''parentNamespace'', \<lambda>t u. \<exists>x. u = t\<lparr>tk_ParentNamespace := x\<rparr>),
      (''trackDuration'', \<lambda>t u. \<exists>x. u = t\<lparr>tk_TrackDuration := x\<rparr>),
      (''connectionUri'', \<lambda>t u. \<exists>x. u = t\<lparr>tk_ConnectionURI := x\<rparr>),
      (''token'', \<lambda>t u. \<exists>x. u = t\<lparr>tk_Token := x\<rparr>),
      (''encryptionScheme'', \<lambda>t u. \<exists>x. u = t\<lparr>tk_EncryptionScheme := x\<rparr>),
      (''cipherSuite'', \<lambda>t u. \<exists>x. u = t\<lparr>tk_CipherSuite := x\<rparr>),
      (''keyId'', \<lambda>t u. \<exists>x. u = t\<lparr>tk_KeyID := x\<rparr>),
      (''trackBaseKey'', \<lambda>t u. \<exists>x. u = t\<lparr>tk_TrackBaseKey := x\<rparr>),
      (''authInfo'', \<lambda>t u. \<exists>x. u = t\<lparr>tk_AuthInfo := x\<rparr>),
      (''accessibility'', \<lambda>t u. \<exists>x. u = t\<lparr>tk_Accessibility := x\<rparr>)]"

lemma touch_others:
  "\<lbrakk>(k, R) \<in> set track_touch; R t u\<rbrakk> \<Longrightarrow> list_all (\<lambda>(k', g). k' \<noteq> k \<longrightarrow> g u = g t) track_encoders"
  unfolding track_touch_def list.set insert_iff empty_iff
  by (elim disjE; clarsimp simp: track_encoders_def)

lemma touch_other:
  "\<lbrakk>(k, R) \<in> set track_touch; (k', g) \<in> set track_encoders; k' \<noteq> k; R t u\<rbrakk> \<Longrightarrow> g u = g t"
  using touch_others unfolding list_all_iff by fast

lemma touch_extra: "\<lbrakk>(k, R) \<in> set track_touch; R t u\<rbrakk> \<Longrightarrow> tk_ExtraFields u = tk_ExtraFields t \<and> tk_presentFields u = tk_presentFields t"
  by (auto simp: track_touch_def)

lemma decoder_touch: "\<lbrakk>(k, d) \<in> set track_decoders; d v t = Inr u\<rbrakk> \<Longrightarrow> \<exists>R. (k, R) \<in> set track_touch \<and> R t u"
  unfolding track_decoders_def list.set insert_iff empty_iff
  by (elim disjE; clarsimp simp: decoder_Inr track_touch_def; auto)

lemma override_touch: "(k, copy) \<in> set track_overrides \<Longrightarrow> \<exists>R. (k, R) \<in> set track_touch \<and> R t (copy ov t)"
  unfolding track_overrides_def list.set insert_iff empty_iff
  by (elim disjE; clarsimp simp: track_touch_def; auto)

lemma present_other: "(k', g) \<in> set track_encoders \<Longrightarrow> g (present k t) = g t"
  by (auto simp: track_encoders_def present_def)

lemma track_other_other: "(k', g) \<in> set track_encoders \<Longrightarrow> g (track_other k v t) = g t"
  by (auto simp: track_encoders_def track_other_def)

lemma track_keys: "map fst track_decoders = map fst track_encoders" "distinct (map fst track_encoders)"
  "map fst track_overrides = map fst track_encoders"
  by (simp_all add: track_decoders_def track_encoders_def track_overrides_def)

lemma track_dec_own:
  "\<lbrakk>(k, g) \<in> set track_encoders; (k, d) \<in> set track_decoders; track_plain r; track_plain s; g r = Some v\<rbrakk> \<Longrightarrow>
   \<exists>s'. d v s = Inr s' \<and> g s' = Some v \<and> track_plain s'"
  unfolding track_encoders_def list.set insert_iff empty_iff
  by (elim disjE; clarsimp simp: track_decoders_def decoder_Inr json_simps track_plain_def Buffers_json buffers_plain_def
      un_slice_accessibility)

lemma track_decoderE:
  assumes "(k, d) \<in> set track_cases"
  obtains d' where "(k, d') \<in> set track_decoders" "d = (\<lambda>v t. d' v (present k t))"
  using assms by auto

interpretation track: json_record track_cases track_encoders tk_ExtraFields "\<lambda>k v t. track_other k v (present k t)"
    zero_track track_plain same_track
proof
  show "fst ` set track_encoders \<subseteq> fst ` set track_cases" "distinct (map fst track_encoders)"
    using track_keys by (simp_all add: set_map [symmetric] o_def case_prod_beta del: set_map)
  show "\<exists>s'. d v s = Inr s' \<and> g s' = Some v \<and> track_plain s'"
    if c: "(k, d) \<in> set track_cases" "(k, g) \<in> set track_encoders" "track_plain r" "track_plain s" "g r = Some v" for k d g r s v
  proof -
    obtain d' where d: "(k, d') \<in> set track_decoders" "d = (\<lambda>v t. d' v (present k t))" using track_decoderE [OF c(1)] .
    have "track_plain (present k s)" using c(4) by (simp add: track_plain_def present_def)
    then show ?thesis using track_dec_own [OF c(2) d(1) c(3) _ c(5), of "present k s"] d(2) by simp
  qed
  show "g s' = g s"
    if c: "(k, d) \<in> set track_cases" "(k', g) \<in> set track_encoders" "k' \<noteq> k" "d v s = Inr s'" for k d k' g v s s'
  proof -
    obtain d' where d: "(k, d') \<in> set track_decoders" "d = (\<lambda>v t. d' v (present k t))" using track_decoderE [OF c(1)] .
    obtain R where "(k, R) \<in> set track_touch" "R (present k s) s'" using decoder_touch [OF d(1)] c(4) d(2) by blast
    then show ?thesis using touch_other [OF _ c(2,3)] present_other [OF c(2)] by simp
  qed
  show "tk_ExtraFields s' = tk_ExtraFields s" if c: "(k, d) \<in> set track_cases" "d v s = Inr s'" for k d v s s'
  proof -
    obtain d' where d: "(k, d') \<in> set track_decoders" "d = (\<lambda>v t. d' v (present k t))" using track_decoderE [OF c(1)] .
    obtain R where "(k, R) \<in> set track_touch" "R (present k s) s'" using decoder_touch [OF d(1)] c(2) d(2) by blast
    then show ?thesis using touch_extra by (fastforce simp: present_def)
  qed
  show "g (track_other k v (present k s)) = g s" if "(k', g) \<in> set track_encoders" for k' g k v s
    using that by (simp add: track_other_other present_other)
  show "g zero_track = None" if "(k, g) \<in> set track_encoders" for k g
    using that by (auto simp: track_encoders_def zero_track_def)
qed (auto simp: track_other_def present_def track_plain_def zero_track_def buffers_plain_def accessibility_plain_def
    intro: track_ext [unfolded track_plain_def])

lemma Track_json:
  assumes "track_plain t" "plain track_decoders (tk_ExtraFields t)"
  shows "\<exists>u. Track_Unmarshal (Track_Marshal t) = Inr u \<and> same_track t u"
proof -
  have "fst ` set track_cases = fst ` set track_decoders" by (force simp: case_prod_beta)
  then show ?thesis
    using track.roundtrip [OF assms(1)] plainD [OF assms(2)]
    by (simp add: Track_Unmarshal_def Track_Marshal_def marshalObject_def unmarshalObject_def json_simps)
qed

text \<open>What was noted as present: the keys of the object.\<close>

lemma decode_present:
  "decode_members track_cases (\<lambda>k v t. track_other k v (present k t)) ms t = Inr u \<Longrightarrow>
   tk_presentFields u = tk_presentFields t \<union> fst ` set ms"
proof (induction ms arbitrary: t)
  case (Cons m ms)
  obtain k v where m: "m = (k, v)" by fastforce
  obtain t1 where t1: "(case map_of track_cases k of None \<Rightarrow> Inr (track_other k v (present k t)) | Some d \<Rightarrow> d v t) = Inr t1"
      "decode_members track_cases (\<lambda>k v t. track_other k v (present k t)) ms t1 = Inr u"
    using Cons.prems by (auto simp: m and_then_Inr)
  have "tk_presentFields t1 = insert k (tk_presentFields t)"
  proof (cases "map_of track_cases k")
    case None
    then show ?thesis using t1(1) by (auto simp: track_other_def present_def)
  next
    case (Some d)
    then obtain d' where d: "(k, d') \<in> set track_decoders" "d = (\<lambda>v t. d' v (present k t))"
      using track_decoderE [OF map_of_SomeD] by blast
    then obtain R where "(k, R) \<in> set track_touch" "R (present k t) t1" using decoder_touch [OF d(1)] t1(1) Some by fastforce
    then show ?thesis using touch_extra by (fastforce simp: present_def)
  qed
  then show ?case using Cons.IH [OF t1(2)] m by auto
qed simp

end
