(* ===== verification/Catalog.thy ===== *)
theory Catalog
  imports Tracks
begin

text \<open>
  Catalogs and their delta updates (msf/catalog.go, msf/catalog_delta.go): overriding a track field
  by field, validation with its two ways of looking for duplicates, applying a delta, and the JSON
  form of both.
\<close>

section \<open>Overriding, field by field\<close>

lemma json_map_empty: "json_map fmempty = JObject []"
  by (simp add: json_map_def sorted_list_of_fmap_def sorted_list_of_fset.rep_eq)

text \<open>What a field of the result says when the override has the field.\<close>

definition override_value :: "string \<Rightarrow> (Track \<Rightarrow> json option) \<Rightarrow> Track \<Rightarrow> json option" where
  "override_value k g ov = (if k = ''authInfo'' \<and> tk_AuthInfo ov = None then Some (JObject []) else g ov)"

lemma override_own:
  "\<lbrakk>(k, g) \<in> set track_encoders; (k, copy) \<in> set track_overrides\<rbrakk> \<Longrightarrow> g (copy ov t) = override_value k g ov"
  unfolding track_encoders_def list.set insert_iff empty_iff
  by (elim disjE; clarsimp simp: track_overrides_def override_value_def; simp add: json_map_empty split: option.split)

lemma overrides_fold:
  "\<lbrakk>distinct (map fst cs); set cs \<subseteq> set track_overrides; (k, g) \<in> set track_encoders\<rbrakk> \<Longrightarrow>
   g (fold (\<lambda>(k, copy) t. if P k then copy ov t else t) cs t) =
     (if k \<in> fst ` set cs \<and> P k then override_value k g ov else g t)"
proof (induction cs arbitrary: t)
  case (Cons c cs)
  obtain k' copy where c: "c = (k', copy)" by fastforce
  have co: "(k', copy) \<in> set track_overrides" using Cons.prems(2) c by simp
  obtain R where R: "(k', R) \<in> set track_touch" "R t (copy ov t)" using override_touch [OF co] by blast
  show ?case
  proof (cases "k = k'")
    case True
    then have "k \<notin> fst ` set cs" using Cons.prems(1) c by auto
    then show ?thesis using Cons True c override_own [of k g copy ov t] co by simp
  next
    case False
    then have "g (copy ov t) = g t" using touch_other [OF R(1) Cons.prems(3) _ R(2)] by simp
    then show ?thesis using Cons False c by simp
  qed
qed simp

lemma overrides_field:
  assumes "(k, g) \<in> set track_encoders"
  shows "g (applyOverrides ov t) = (if hasField ov k then override_value k g ov else g t)"
proof -
  have "g (t\<lparr>tk_presentFields := p, tk_ExtraFields := x\<rparr>) = g t" for t p x
    using assms by (auto simp: track_encoders_def)
  moreover have "k \<in> set (map fst track_overrides)" unfolding track_keys(3) using assms by force
  moreover have "distinct (map fst track_overrides)" unfolding track_keys(3) by (rule track_keys(2))
  ultimately show ?thesis
    using overrides_fold [OF _ subset_refl assms, of "hasField ov" ov t] by (simp add: applyOverrides_def Let_def)
qed

section \<open>Identities and validation\<close>

definition inheritedNamespaceSentinel :: string where
  "inheritedNamespaceSentinel = CHR 0x00 # ''catalog''"

record TrackID =
  ti_Namespace :: string
  ti_Name :: string

text \<open>effectiveNamespace of tracks and references, parentEffectiveNamespace of clones.\<close>

definition effectiveNamespace :: "string \<Rightarrow> string \<Rightarrow> string" where
  "effectiveNamespace ns defaultNamespace =
     (if ns \<noteq> [] then ns else if defaultNamespace \<noteq> [] then defaultNamespace else inheritedNamespaceSentinel)"

definition Track_ID :: "Track \<Rightarrow> string \<Rightarrow> TrackID" where
  "Track_ID t ns = \<lparr>ti_Namespace = effectiveNamespace (tk_Namespace t) ns, ti_Name = tk_Name t\<rparr>"

text \<open>The problems Validate lists, as values instead of their texts.\<close>

datatype track_problem =
    NameRequired | PackagingRequired | DurationOfLive
  | EventTypeRequired | EventTimelineMimeType | EventTimelineDepends
  | MediaEventType | MediaTimelineMimeType | MediaTimelineDepends
  | LocEventType | LocIsLive | LogEventType | OtherEventType | CipherSuiteRequired

datatype problem =
    VersionRequired
  | InTrack nat track_problem
  | InPublishTrack nat track_problem
  | DuplicateTrack nat TrackID
  | InitType nat | InitIDRequired nat | DuplicateInit nat string
  | TrackInitRef nat string | PublishInitRef nat string

abbreviation "list_if c x \<equiv> (if c then [x] else [])"

definition Track_validate :: "Track \<Rightarrow> track_problem list" where
  "Track_validate t =
     list_if (tk_Name t = []) NameRequired @
     list_if (tk_Packaging t = []) PackagingRequired @
     list_if (tk_TrackDuration t \<noteq> None \<and> tk_IsLive t = Some True) DurationOfLive @
     (if tk_Packaging t = ''eventtimeline'' then
        list_if (tk_EventType t = []) EventTypeRequired @
        list_if (tk_MimeType t \<noteq> ''application/json'') EventTimelineMimeType @
        list_if (tk_Depends t = None \<or> tk_Depends t = Some []) EventTimelineDepends
      else if tk_Packaging t = ''mediatimeline'' then
        list_if (tk_EventType t \<noteq> []) MediaEventType @
        list_if (tk_MimeType t \<noteq> ''application/json'') MediaTimelineMimeType @
        list_if (tk_Depends t = None \<or> tk_Depends t = Some []) MediaTimelineDepends
      else if tk_Packaging t = ''loc'' then
        list_if (tk_EventType t \<noteq> []) LocEventType @
        list_if (tk_IsLive t = None) LocIsLive
      else if tk_Packaging t = ''moqlog'' \<or> tk_Packaging t = ''moqmetrics'' then
        list_if (tk_EventType t \<noteq> []) LogEventType
      else list_if (tk_EventType t \<noteq> []) OtherEventType) @
     list_if (tk_EncryptionScheme t \<noteq> [] \<and> tk_CipherSuite t = []) CipherSuiteRequired"

record Catalog =
  ct_DefaultNamespace :: string
  ct_Version :: int64
  ct_GeneratedAt :: "int64 option"
  ct_IsComplete :: bool
  ct_Tracks :: "Track list"
  ct_PublishTracks :: "Track list"
  ct_InitDataList :: "InitDataRef list"
  ct_ExtraFields :: raw_fields

text \<open>Duplicate identities: by a map for more than 16 tracks, by an array of those seen below.\<close>

fun dup_map :: "TrackID set \<Rightarrow> nat \<Rightarrow> TrackID list \<Rightarrow> problem list" where
  "dup_map seen i [] = []"
| "dup_map seen i (x # ids) =
     (if x \<in> seen then DuplicateTrack i x # dup_map seen (Suc i) ids else dup_map (insert x seen) (Suc i) ids)"

fun dup_array :: "TrackID list \<Rightarrow> nat \<Rightarrow> TrackID list \<Rightarrow> problem list" where
  "dup_array seen i [] = []"
| "dup_array seen i (x # ids) =
     (if list_ex (\<lambda>y. y = x) seen then DuplicateTrack i x # dup_array seen (Suc i) ids
      else dup_array (seen @ [x]) (Suc i) ids)"

definition duplicate_tracks :: "TrackID list \<Rightarrow> problem list" where
  "duplicate_tracks ids =
     (if length ids > 16 then dup_map {} 0 ids
      else if length ids > 1 then dup_array [ids ! 0] 1 (drop 1 ids) else [])"

text \<open>The initialization data: the problems and the ids.\<close>

fun init_problems :: "string set \<Rightarrow> nat \<Rightarrow> InitDataRef list \<Rightarrow> problem list \<times> string set" where
  "init_problems initIDs i [] = ([], initIDs)"
| "init_problems initIDs i (ref # refs) =
     (let types = list_if (id_Type ref \<noteq> [] \<and> id_Type ref \<noteq> ''inline'') (InitType i)
      in if id_ID ref = [] then
           (case init_problems initIDs (Suc i) refs of (ps, initIDs) \<Rightarrow> (types @ InitIDRequired i # ps, initIDs))
         else if id_ID ref \<in> initIDs then
           (case init_problems initIDs (Suc i) refs of (ps, initIDs) \<Rightarrow> (types @ DuplicateInit i (id_ID ref) # ps, initIDs))
         else (case init_problems (insert (id_ID ref) initIDs) (Suc i) refs of (ps, initIDs) \<Rightarrow> (types @ ps, initIDs)))"

definition check_refs :: "(nat \<Rightarrow> string \<Rightarrow> problem) \<Rightarrow> string set \<Rightarrow> Track list \<Rightarrow> problem list" where
  "check_refs p initIDs tracks =
     concat (map (\<lambda>(i, t). list_if (tk_InitRef t \<noteq> [] \<and> tk_InitRef t \<notin> initIDs) (p i (tk_InitRef t))) (enumerate 0 tracks))"

definition track_ids :: "Catalog \<Rightarrow> TrackID list" where
  "track_ids c = map (\<lambda>t. Track_ID t (ct_DefaultNamespace c)) (ct_Tracks c)"

definition Catalog_Validate :: "Catalog \<Rightarrow> problem list" where
  "Catalog_Validate c =
     list_if (ct_Version c = 0) VersionRequired @
     concat (map (\<lambda>(i, t). map (InTrack i) (Track_validate t)) (enumerate 0 (ct_Tracks c))) @
     concat (map (\<lambda>(i, t). map (InPublishTrack i) (Track_validate t)) (enumerate 0 (ct_PublishTracks c))) @
     duplicate_tracks (track_ids c) @
     (case init_problems {} 0 (ct_InitDataList c) of (ps, initIDs) \<Rightarrow>
        ps @ (if initIDs \<noteq> {} then
                check_refs TrackInitRef initIDs (ct_Tracks c) @ check_refs PublishInitRef initIDs (ct_PublishTracks c)
              else []))"

section \<open>Deltas\<close>

record TrackRef =
  tr_Namespace :: string
  tr_RefName :: string
  tr_ExtraFields :: raw_fields

record TrackClone =
  tc_Track :: Track
  tc_ParentName :: string
  tc_ParentNamespace :: string

datatype deltaOperationKind = deltaOperationAdd | deltaOperationRemove | deltaOperationClone

record CatalogDelta =
  dl_DefaultNamespace :: string
  dl_GeneratedAt :: "int64 option"
  dl_IsComplete :: bool
  dl_AddTracks :: "Track list"
  dl_RemoveTracks :: "TrackRef list"
  dl_CloneTracks :: "TrackClone list"
  dl_ExtraFields :: raw_fields
  dl_ops :: "(deltaOperationKind \<times> nat) list"

definition TrackRef_ID :: "TrackRef \<Rightarrow> string \<Rightarrow> TrackID" where
  "TrackRef_ID r ns = \<lparr>ti_Namespace = effectiveNamespace (tr_Namespace r) ns, ti_Name = tr_RefName r\<rparr>"

datatype delta_problem =
    NoOperations
  | InAdd nat track_problem
  | RemoveName nat | RemoveFields nat
  | CloneName nat | CloneParentName nat

definition TrackRef_Validate :: "nat \<Rightarrow> TrackRef \<Rightarrow> delta_problem list" where
  "TrackRef_Validate i r =
     list_if (tr_RefName r = []) (RemoveName i) @ list_if (fmdom (tr_ExtraFields r) \<noteq> {||}) (RemoveFields i)"

definition TrackClone_Validate :: "nat \<Rightarrow> TrackClone \<Rightarrow> delta_problem list" where
  "TrackClone_Validate i c =
     list_if (tk_Name (tc_Track c) = []) (CloneName i) @ list_if (tc_ParentName c = []) (CloneParentName i)"

definition CatalogDelta_Validate :: "CatalogDelta \<Rightarrow> delta_problem list" where
  "CatalogDelta_Validate d =
     list_if (dl_AddTracks d = [] \<and> dl_RemoveTracks d = [] \<and> dl_CloneTracks d = []) NoOperations @
     concat (map (\<lambda>(i, t). map (InAdd i) (Track_validate t)) (enumerate 0 (dl_AddTracks d))) @
     concat (map (\<lambda>(i, r). TrackRef_Validate i r) (enumerate 0 (dl_RemoveTracks d))) @
     concat (map (\<lambda>(i, c). TrackClone_Validate i c) (enumerate 0 (dl_CloneTracks d)))"

text \<open>\<open>operations\<close>: the recorded operations as ranges, then what they leave over.\<close>

record deltaSpan =
  sp_kind :: deltaOperationKind
  sp_lo :: nat
  sp_hi :: nat

definition delta_lens :: "CatalogDelta \<Rightarrow> deltaOperationKind \<Rightarrow> nat" where
  "delta_lens d k =
     (case k of deltaOperationAdd \<Rightarrow> length (dl_AddTracks d) | deltaOperationRemove \<Rightarrow> length (dl_RemoveTracks d)
      | deltaOperationClone \<Rightarrow> length (dl_CloneTracks d))"

fun span_loop :: "(deltaOperationKind \<Rightarrow> nat) \<Rightarrow> (deltaOperationKind \<times> nat) list \<Rightarrow> (deltaOperationKind \<Rightarrow> nat) \<Rightarrow>
    deltaSpan list \<times> (deltaOperationKind \<Rightarrow> nat)" where
  "span_loop lens [] next = ([], next)"
| "span_loop lens ((kind, n) # ops) next =
     (let lo = next kind; hi = min (lo + n) (lens kind)
      in case span_loop lens ops (next(kind := hi)) of (spans, next) \<Rightarrow>
           (list_if (lo < hi \<or> n = 0) \<lparr>sp_kind = kind, sp_lo = lo, sp_hi = hi\<rparr> @ spans, next))"

definition operations :: "CatalogDelta \<Rightarrow> deltaSpan list" where
  "operations d =
     (case span_loop (delta_lens d) (dl_ops d) (\<lambda>_. 0) of (spans, next) \<Rightarrow>
        spans @ concat (map (\<lambda>kind. list_if (next kind < delta_lens d kind)
            \<lparr>sp_kind = kind, sp_lo = next kind, sp_hi = delta_lens d kind\<rparr>)
          [deltaOperationAdd, deltaOperationRemove, deltaOperationClone]))"

definition slice :: "deltaSpan \<Rightarrow> 'a list \<Rightarrow> 'a list" where
  "slice sp xs = take (sp_hi sp - sp_lo sp) (drop (sp_lo sp) xs)"

section \<open>Applying a delta\<close>

datatype catalog_error =
    InvalidCatalog "problem list"
  | InvalidDelta "delta_problem list"
  | NamespaceInherited
  | AddDuplicate TrackID nat
  | RemoveUnknown TrackID
  | CloneUnknown TrackID
  | CloneUnnamed TrackID
  | CloneDuplicate TrackID nat

text \<open>\<open>findTrack\<close>: the first track with the identity, and its index.\<close>

fun find_track :: "string \<Rightarrow> TrackID \<Rightarrow> nat \<Rightarrow> Track list \<Rightarrow> (Track \<times> nat) option" where
  "find_track ns x i [] = None"
| "find_track ns x i (t # ts) = (if Track_ID t ns = x then Some (t, i) else find_track ns x (Suc i) ts)"

definition findTrack :: "TrackID \<Rightarrow> Catalog \<Rightarrow> (Track \<times> nat) option" where
  "findTrack x c = find_track (ct_DefaultNamespace c) x 0 (ct_Tracks c)"

definition addTrack :: "Track \<Rightarrow> Catalog \<Rightarrow> catalog_error + Catalog" where
  "addTrack t c =
     (let x = Track_ID t (ct_DefaultNamespace c)
      in case findTrack x c of
           Some (_, idx) \<Rightarrow> Inl (AddDuplicate x idx)
         | None \<Rightarrow> Inr (c\<lparr>ct_Tracks := ct_Tracks c @ [t]\<rparr>))"

definition removeTrack :: "TrackRef \<Rightarrow> Catalog \<Rightarrow> catalog_error + Catalog" where
  "removeTrack r c =
     (let x = TrackRef_ID r (ct_DefaultNamespace c)
      in case findTrack x c of
           None \<Rightarrow> Inl (RemoveUnknown x)
         | Some (_, idx) \<Rightarrow> Inr (c\<lparr>ct_Tracks := take idx (ct_Tracks c) @ drop (idx + 1) (ct_Tracks c)\<rparr>))"

definition parent_ID :: "TrackClone \<Rightarrow> string \<Rightarrow> TrackID" where
  "parent_ID tc ns = \<lparr>ti_Namespace = effectiveNamespace (tc_ParentNamespace tc) ns, ti_Name = tc_ParentName tc\<rparr>"

definition cloneTrack :: "TrackClone \<Rightarrow> Catalog \<Rightarrow> catalog_error + Catalog" where
  "cloneTrack tc c =
     (let parentID = parent_ID tc (ct_DefaultNamespace c)
      in case findTrack parentID c of
           None \<Rightarrow> Inl (CloneUnknown parentID)
         | Some (parent, _) \<Rightarrow>
             (let cloned = applyOverrides (tc_Track tc) parent
              in if tk_Name cloned = [] then Inl (CloneUnnamed parentID)
                 else (let newID = Track_ID cloned (ct_DefaultNamespace c)
                       in case findTrack newID c of
                            Some (_, idx) \<Rightarrow> Inl (CloneDuplicate newID idx)
                          | None \<Rightarrow> Inr (c\<lparr>ct_Tracks := ct_Tracks c @ [cloned]\<rparr>))))"

fun fold_err :: "('a \<Rightarrow> 's \<Rightarrow> 'e + 's) \<Rightarrow> 'a list \<Rightarrow> 's \<Rightarrow> 'e + 's" where
  "fold_err f [] s = Inr s"
| "fold_err f (x # xs) s = and_then (f x s) (fold_err f xs)"

definition apply_span :: "CatalogDelta \<Rightarrow> deltaSpan \<Rightarrow> Catalog \<Rightarrow> catalog_error + Catalog" where
  "apply_span d sp c =
     (case sp_kind sp of
        deltaOperationAdd \<Rightarrow> fold_err addTrack (slice sp (dl_AddTracks d)) c
      | deltaOperationRemove \<Rightarrow> fold_err removeTrack (slice sp (dl_RemoveTracks d)) c
      | deltaOperationClone \<Rightarrow> fold_err cloneTrack (slice sp (dl_CloneTracks d)) c)"

definition hasInheritedNamespaceTracks :: "Catalog \<Rightarrow> bool" where
  "hasInheritedNamespaceTracks c = list_ex (\<lambda>t. tk_Namespace t = []) (ct_Tracks c)"

text \<open>The metadata first, then the operations.\<close>

definition apply_metadata :: "CatalogDelta \<Rightarrow> Catalog \<Rightarrow> Catalog" where
  "apply_metadata d c =
     c\<lparr>ct_DefaultNamespace := (if dl_DefaultNamespace d \<noteq> [] then dl_DefaultNamespace d else ct_DefaultNamespace c),
       ct_GeneratedAt := (if dl_GeneratedAt d \<noteq> None then dl_GeneratedAt d else ct_GeneratedAt c),
       ct_IsComplete := (dl_IsComplete d \<or> ct_IsComplete c),
       ct_ExtraFields := fmadd (ct_ExtraFields c) (dl_ExtraFields d)\<rparr>"

definition ApplyDelta :: "Catalog \<Rightarrow> CatalogDelta \<Rightarrow> catalog_error + Catalog" where
  "ApplyDelta c d =
     (if Catalog_Validate c \<noteq> [] then Inl (InvalidCatalog (Catalog_Validate c))
      else if CatalogDelta_Validate d \<noteq> [] then Inl (InvalidDelta (CatalogDelta_Validate d))
      else if dl_DefaultNamespace d \<noteq> [] \<and> dl_DefaultNamespace d \<noteq> ct_DefaultNamespace c \<and> hasInheritedNamespaceTracks c
        then Inl NamespaceInherited
      else and_then (fold_err (apply_span d) (operations d) (apply_metadata d c)) (\<lambda>result.
           if Catalog_Validate result \<noteq> [] then Inl (InvalidCatalog (Catalog_Validate result)) else Inr result))"

section \<open>What a delta means: maps from identities to tracks\<close>

datatype delta_entry = EAdd Track | ERemove TrackRef | EClone TrackClone

definition span_entries :: "CatalogDelta \<Rightarrow> deltaSpan \<Rightarrow> delta_entry list" where
  "span_entries d sp =
     (case sp_kind sp of
        deltaOperationAdd \<Rightarrow> map EAdd (slice sp (dl_AddTracks d))
      | deltaOperationRemove \<Rightarrow> map ERemove (slice sp (dl_RemoveTracks d))
      | deltaOperationClone \<Rightarrow> map EClone (slice sp (dl_CloneTracks d)))"

definition delta_entries :: "CatalogDelta \<Rightarrow> delta_entry list" where
  "delta_entries d = concat (map (span_entries d) (operations d))"

type_synonym track_map = "TrackID \<rightharpoonup> Track"

fun spec_step :: "string \<Rightarrow> delta_entry \<Rightarrow> track_map \<Rightarrow> track_map option" where
  "spec_step ns (EAdd t) m = (if m (Track_ID t ns) = None then Some (m(Track_ID t ns \<mapsto> t)) else None)"
| "spec_step ns (ERemove r) m = (if m (TrackRef_ID r ns) = None then None else Some (m(TrackRef_ID r ns := None)))"
| "spec_step ns (EClone tc) m =
     (case m (parent_ID tc ns) of None \<Rightarrow> None
      | Some p \<Rightarrow> (let t = applyOverrides (tc_Track tc) p
                   in if tk_Name t \<noteq> [] \<and> m (Track_ID t ns) = None then Some (m(Track_ID t ns \<mapsto> t)) else None))"

fun spec_run :: "string \<Rightarrow> delta_entry list \<Rightarrow> track_map \<Rightarrow> track_map option" where
  "spec_run ns [] m = Some m"
| "spec_run ns (e # es) m = (case spec_step ns e m of None \<Rightarrow> None | Some m \<Rightarrow> spec_run ns es m)"

definition track_map :: "Catalog \<Rightarrow> track_map" where
  "track_map c = map_of (map (\<lambda>t. (Track_ID t (ct_DefaultNamespace c), t)) (ct_Tracks c))"

section \<open>The duplicates\<close>

lemma dup_array_map: "dup_array seen i ids = dup_map (set seen) i ids"
proof (induction seen i ids rule: dup_array.induct)
  case (2 seen i x ids)
  then show ?case by (auto simp: list_ex_iff insert_commute)
qed simp

lemma duplicate_tracks_map: "duplicate_tracks ids = dup_map {} 0 ids"
proof (cases ids)
  case (Cons x xs)
  then show ?thesis by (cases xs) (simp_all add: duplicate_tracks_def dup_array_map)
qed (simp add: duplicate_tracks_def)

lemma dup_map_distinct: "dup_map seen i ids = [] \<longleftrightarrow> distinct ids \<and> set ids \<inter> seen = {}"
  by (induction seen i ids rule: dup_map.induct) auto

lemma duplicate_tracks_distinct: "duplicate_tracks ids = [] \<longleftrightarrow> distinct ids"
  by (simp add: duplicate_tracks_map dup_map_distinct)

lemma dup_map_list:
  "dup_map seen i ids =
   map (\<lambda>j. DuplicateTrack (i + j) (ids ! j)) (filter (\<lambda>j. ids ! j \<in> seen \<union> set (take j ids)) [0..<length ids])"
proof (induction ids arbitrary: seen i)
  case (Cons x ids)
  have u: "[0..<length (x # ids)] = 0 # map Suc [0..<length ids]" using upt_conv_Cons [of 0 "length (x # ids)"] by (simp add: map_Suc_upt del: upt_Suc)
  have "dup_map (insert x seen) (Suc i) ids =
      map (\<lambda>j. DuplicateTrack (i + j) ((x # ids) ! j))
        (filter (\<lambda>j. (x # ids) ! j \<in> seen \<union> set (take j (x # ids))) (map Suc [0..<length ids]))"
    unfolding Cons.IH filter_map by (simp add: o_def disj_ac)
  then show ?case unfolding u by (cases "x \<in> seen") (simp_all add: insert_absorb)
qed simp

section \<open>The operations on the map\<close>

lemma find_track_None: "find_track ns x i ts = None \<longleftrightarrow> map_of (map (\<lambda>t. (Track_ID t ns, t)) ts) x = None"
  by (induction ts arbitrary: i) auto

lemma find_track_Some:
  "find_track ns x i ts = Some (t, j) \<Longrightarrow> map_of (map (\<lambda>t. (Track_ID t ns, t)) ts) x = Some t \<and> i \<le> j \<and> j - i < length ts \<and>
     ts ! (j - i) = t \<and> Track_ID t ns = x"
proof (induction ts arbitrary: i)
  case (Cons t' ts)
  show ?case
  proof (cases "Track_ID t' ns = x")
    case False
    then have "find_track ns x (Suc i) ts = Some (t, j)" using Cons.prems by simp
    from Cons.IH [OF this] show ?thesis using False by (auto simp: nth_Cons' Suc_diff_Suc)
  qed (use Cons.prems in auto)
qed simp

lemma map_of_delete_nth:
  assumes "distinct (map fst xs)" "i < length xs"
  shows "map_of (take i xs @ drop (Suc i) xs) = (map_of xs)(fst (xs ! i) := None)"
proof -
  have xs: "xs = take i xs @ xs ! i # drop (Suc i) xs" using assms(2) by (rule id_take_nth_drop)
  obtain k v where kv: "xs ! i = (k, v)" by fastforce
  have "distinct (map fst (take i xs @ (k, v) # drop (Suc i) xs))" using assms(1) xs kv by metis
  then have "k \<notin> fst ` set (take i xs)" "k \<notin> fst ` set (drop (Suc i) xs)" by auto
  then have n: "map_of (take i xs) k = None" "map_of (drop (Suc i) xs) k = None" by (simp_all add: map_of_eq_None_iff)
  have "map_of xs = map_of (take i xs @ (k, v) # drop (Suc i) xs)" using xs kv by metis
  then show ?thesis using n kv by (auto simp: fun_eq_iff map_add_def split: option.split)
qed

text \<open>One step of a delta on the list of tracks is one step on the map.\<close>

definition apply_entry :: "delta_entry \<Rightarrow> Catalog \<Rightarrow> catalog_error + Catalog" where
  "apply_entry e c = (case e of EAdd t \<Rightarrow> addTrack t c | ERemove r \<Rightarrow> removeTrack r c | EClone tc \<Rightarrow> cloneTrack tc c)"

lemma findTrack_map:
  "findTrack x c = None \<longleftrightarrow> track_map c x = None"
  "findTrack x c = Some (t, j) \<Longrightarrow> track_map c x = Some t \<and> j < length (ct_Tracks c) \<and> ct_Tracks c ! j = t \<and>
     Track_ID t (ct_DefaultNamespace c) = x"
  using find_track_Some [of "ct_DefaultNamespace c" x 0 "ct_Tracks c" t j]
  by (auto simp: findTrack_def track_map_def find_track_None)

lemma track_map_dom: "track_map c x = None \<longleftrightarrow> x \<notin> set (track_ids c)"
  by (simp add: track_map_def track_ids_def map_of_eq_None_iff image_image)

lemma track_map_append:
  assumes "track_map c (Track_ID t (ct_DefaultNamespace c)) = None"
  shows "track_map (c\<lparr>ct_Tracks := ct_Tracks c @ [t]\<rparr>) = (track_map c)(Track_ID t (ct_DefaultNamespace c) \<mapsto> t)"
  using assms by (auto simp: track_map_def fun_eq_iff map_add_def split: option.split)

lemma apply_entry_refines:
  assumes "distinct (track_ids c)" "ns = ct_DefaultNamespace c"
  shows "case apply_entry e c of Inl err \<Rightarrow> spec_step ns e (track_map c) = None
    | Inr c' \<Rightarrow> spec_step ns e (track_map c) = Some (track_map c') \<and> distinct (track_ids c') \<and> ct_DefaultNamespace c' = ns"
proof (cases e)
  case (EAdd t)
  show ?thesis
  proof (cases "findTrack (Track_ID t ns) c")
    case None
    then show ?thesis
      using EAdd assms track_map_append [of c t] track_map_dom [of c "Track_ID t ns"] findTrack_map(1) [of "Track_ID t ns" c]
      by (auto simp: apply_entry_def addTrack_def Let_def track_ids_def)
  next
    case (Some tj)
    then show ?thesis using EAdd assms findTrack_map(1) [of "Track_ID t ns" c]
      by (auto simp: apply_entry_def addTrack_def Let_def split: prod.split)
  qed
next
  case (ERemove r)
  let ?x = "TrackRef_ID r ns"
  show ?thesis
  proof (cases "findTrack ?x c")
    case None
    then show ?thesis using ERemove assms findTrack_map(1) [of ?x c] by (simp add: apply_entry_def removeTrack_def Let_def)
  next
    case (Some tj)
    obtain t j where tj: "tj = (t, j)" by fastforce
    let ?pairs = "map (\<lambda>t. (Track_ID t ns, t)) (ct_Tracks c)"
    let ?c = "c\<lparr>ct_Tracks := take j (ct_Tracks c) @ drop (j + 1) (ct_Tracks c)\<rparr>"
    have f: "j < length (ct_Tracks c)" "ct_Tracks c ! j = t" "Track_ID t ns = ?x" "track_map c ?x = Some t"
      using findTrack_map(2) [of ?x c t j] Some tj assms(2) by simp_all
    have "distinct (map fst ?pairs)" using assms by (simp add: track_ids_def o_def)
    then have "track_map ?c = (track_map c)(?x := None)"
      using map_of_delete_nth [of ?pairs j] f assms(2) by (simp add: track_map_def take_map drop_map)
    moreover have "distinct (track_ids ?c)"
      using assms(1) set_take_disj_set_drop_if_distinct [of "track_ids c" j "j + 1"]
      by (simp add: track_ids_def take_map [symmetric] drop_map [symmetric])
    ultimately show ?thesis using ERemove assms(2) Some tj f by (simp add: apply_entry_def removeTrack_def Let_def)
  qed
next
  case (EClone tc)
  let ?p = "parent_ID tc ns"
  show ?thesis
  proof (cases "findTrack ?p c")
    case None
    then show ?thesis using EClone assms findTrack_map(1) [of ?p c] by (simp add: apply_entry_def cloneTrack_def Let_def)
  next
    case (Some tj)
    obtain parent j where tj: "tj = (parent, j)" by fastforce
    let ?t = "applyOverrides (tc_Track tc) parent"
    have f: "track_map c ?p = Some parent" using findTrack_map(2) [of ?p c parent j] Some tj by simp
    show ?thesis
      using EClone assms Some tj f findTrack_map(1) [of "Track_ID ?t ns" c] track_map_append [of c ?t] track_map_dom [of c "Track_ID ?t ns"]
      by (auto simp: apply_entry_def cloneTrack_def Let_def track_ids_def split: option.split prod.split)
  qed
qed

lemma fold_err_append: "fold_err f (xs @ ys) s = and_then (fold_err f xs s) (fold_err f ys)"
  by (induction xs arbitrary: s) (auto simp: and_then_def split: sum.split)

lemma fold_err_map: "fold_err f (map g xs) s = fold_err (\<lambda>x. f (g x)) xs s"
  by (induction xs arbitrary: s) (auto simp: and_then_def split: sum.split)

lemma apply_entry_simps:
  "(\<lambda>t. apply_entry (EAdd t)) = addTrack"
  "(\<lambda>r. apply_entry (ERemove r)) = removeTrack"
  "(\<lambda>tc. apply_entry (EClone tc)) = cloneTrack"
  by (simp_all add: apply_entry_def fun_eq_iff)

lemma apply_span_entries: "apply_span d sp c = fold_err apply_entry (span_entries d sp) c"
  by (cases "sp_kind sp") (simp_all add: apply_span_def span_entries_def fold_err_map apply_entry_simps)

lemma apply_spans_entries: "fold_err (apply_span d) sps c = fold_err apply_entry (concat (map (span_entries d) sps)) c"
  by (induction sps arbitrary: c) (simp_all add: fold_err_append apply_span_entries and_then_def split: sum.split)

lemma run_refines:
  "\<lbrakk>distinct (track_ids c); ns = ct_DefaultNamespace c\<rbrakk> \<Longrightarrow>
   case fold_err apply_entry es c of Inl err \<Rightarrow> spec_run ns es (track_map c) = None
   | Inr c' \<Rightarrow> spec_run ns es (track_map c) = Some (track_map c') \<and> distinct (track_ids c')"
proof (induction es arbitrary: c)
  case (Cons e es)
  have step: "case apply_entry e c of Inl err \<Rightarrow> spec_step ns e (track_map c) = None
    | Inr c' \<Rightarrow> spec_step ns e (track_map c) = Some (track_map c') \<and> distinct (track_ids c') \<and> ct_DefaultNamespace c' = ns"
    by (rule apply_entry_refines [OF Cons.prems])
  show ?case
  proof (cases "apply_entry e c")
    case (Inl err)
    then show ?thesis using step by (simp add: and_then_def)
  next
    case (Inr b)
    then have b: "spec_step ns e (track_map c) = Some (track_map b)" "distinct (track_ids b)" "ns = ct_DefaultNamespace b"
      using step by simp_all
    show ?thesis using Cons.IH [OF b(2,3)] Inr b(1) by (cases "fold_err apply_entry es b") simp_all
  qed
qed simp

lemma metadata_map:
  assumes "dl_DefaultNamespace d = [] \<or> dl_DefaultNamespace d = ct_DefaultNamespace c \<or> \<not> hasInheritedNamespaceTracks c"
  shows "track_map (apply_metadata d c) = track_map c \<and> track_ids (apply_metadata d c) = track_ids c"
proof (cases "hasInheritedNamespaceTracks c \<or> dl_DefaultNamespace d = []")
  case True
  then have "ct_DefaultNamespace (apply_metadata d c) = ct_DefaultNamespace c" using assms by (auto simp: apply_metadata_def)
  then show ?thesis by (simp add: track_map_def track_ids_def) (simp add: apply_metadata_def)
next
  case False
  then have "Track_ID t (ct_DefaultNamespace (apply_metadata d c)) = Track_ID t (ct_DefaultNamespace c)" if "t \<in> set (ct_Tracks c)" for t
    using that by (auto simp: hasInheritedNamespaceTracks_def list_ex_iff Track_ID_def effectiveNamespace_def)
  moreover have "ct_Tracks (apply_metadata d c) = ct_Tracks c" by (simp add: apply_metadata_def)
  ultimately show ?thesis by (simp add: track_map_def track_ids_def cong: map_cong)
qed

lemma valid_distinct: "Catalog_Validate c = [] \<Longrightarrow> distinct (track_ids c)"
  by (simp add: Catalog_Validate_def duplicate_tracks_distinct)

section \<open>Properties\<close>

text \<open>C18 Overriding one track by another works field by field, on what the JSON form says: a field the
  override has (because it was in its JSON or is set) is the override's, any other the track's, with
  one exception for AuthInfo, where an explicit null makes an empty object.\<close>
theorem overrides_by_field:
  assumes "(k, g) \<in> set track_encoders"
  shows "g (applyOverrides ov t) =
    (if \<not> hasField ov k then g t else if k = ''authInfo'' \<and> tk_AuthInfo ov = None then Some (JObject []) else g ov)"
  using overrides_field [OF assms] by (simp add: override_value_def)

text \<open>A track that is marshalled and read back is the same track in all its fields, nested objects and
  unknown properties included; the fields noted as present are then the keys of the object.\<close>
lemma track_roundtrip:
  assumes "track_plain t" "plain track_decoders (tk_ExtraFields t)"
  shows "\<exists>u. Track_Unmarshal (Track_Marshal t) = Inr u \<and> same_track t u \<and>
    (\<forall>k. k \<in> tk_presentFields u \<longleftrightarrow> fmlookup (marshalObject t) k \<noteq> None)"
proof -
  obtain u where u: "Track_Unmarshal (Track_Marshal t) = Inr u" "same_track t u" using Track_json [OF assms] by blast
  have "decode_members track_cases (\<lambda>k v t. track_other k v (present k t)) (sorted_list_of_fmap (marshalObject t)) zero_track = Inr u"
    using u(1) by (simp add: Track_Unmarshal_def Track_Marshal_def unmarshalObject_def json_simps)
  from decode_present [OF this]
  have "tk_presentFields u = fst ` set (sorted_list_of_fmap (marshalObject t))" by (simp add: zero_track_def)
  moreover have "k \<in> fst ` set (sorted_list_of_fmap (marshalObject t)) \<longleftrightarrow> fmlookup (marshalObject t) k \<noteq> None" for k
    by (metis map_of_eq_None_iff map_of_sorted_list)
  ultimately show ?thesis using u by blast
qed

text \<open>C38 Validate names a track as a duplicate exactly when an earlier one has its identity, whichever of
  its two searches it takes: the array of up to 16 identities or the map for longer catalogs.\<close>
theorem duplicates_reported:
  "duplicate_tracks ids =
   map (\<lambda>j. DuplicateTrack j (ids ! j)) (filter (\<lambda>j. ids ! j \<in> set (take j ids)) [0..<length ids])"
  using dup_map_list [of "{}" 0 ids] by (simp add: duplicate_tracks_map)


lemma overrides_by_field_witness:
  "put_string (tk_Label (applyOverrides (zero_track\<lparr>tk_presentFields := {''label''}\<rparr>) (zero_track\<lparr>tk_Label := ''x''\<rparr>))) = None"
proof -
  have "(''label'', \<lambda>t. put_string (tk_Label t)) \<in> set track_encoders" by (simp add: track_encoders_def)
  from overrides_by_field [OF this, of "zero_track\<lparr>tk_presentFields := {''label''}\<rparr>" "zero_track\<lparr>tk_Label := ''x''\<rparr>"]
  show ?thesis by (simp add: hasField_def) (simp add: zero_track_def)
qed

definition sample_track :: "string \<Rightarrow> Track" where
  "sample_track name = zero_track\<lparr>tk_Name := name, tk_Packaging := ''loc'', tk_IsLive := Some True\<rparr>"

definition sample_catalog :: Catalog where
  "sample_catalog =
     \<lparr>ct_DefaultNamespace = ''ns'', ct_Version = 1, ct_GeneratedAt = None, ct_IsComplete = False, ct_Tracks = [sample_track ''a''],
      ct_PublishTracks = [], ct_InitDataList = [], ct_ExtraFields = fmempty\<rparr>"

definition sample_delta :: CatalogDelta where
  "sample_delta =
     \<lparr>dl_DefaultNamespace = [], dl_GeneratedAt = None, dl_IsComplete = False, dl_AddTracks = [sample_track ''a''],
      dl_RemoveTracks = [\<lparr>tr_Namespace = [], tr_RefName = ''a'', tr_ExtraFields = fmempty\<rparr>], dl_CloneTracks = [],
      dl_ExtraFields = fmempty, dl_ops = [(deltaOperationRemove, 1)]\<rparr>"


end
