(* ===== verification/Deltas.thy ===== *)
theory Deltas
  imports Catalog
begin

text \<open>
  The JSON form of catalogs and of their deltas (msf/catalog.go, msf/catalog_delta.go). A delta
  is an array of operations; decoding groups the tracks by kind and notes the operations, and
  encoding cuts the groups back into them.
\<close>

section \<open>References and clones\<close>

definition ref_encoders :: "(string \<times> (TrackRef \<Rightarrow> json option)) list" where
  "ref_encoders = [(''namespace'', \<lambda>r. put_string (tr_Namespace r)), (''name'', \<lambda>r. put_string (tr_RefName r))]"

definition ref_decoders :: "(string \<times> (json \<Rightarrow> TrackRef \<Rightarrow> msf_error + TrackRef)) list" where
  "ref_decoders =
     [(''namespace'', dec_string tr_Namespace_update tr_Namespace), (''name'', dec_string tr_RefName_update tr_RefName)]"

definition ref_other :: "string \<Rightarrow> json \<Rightarrow> TrackRef \<Rightarrow> TrackRef" where
  "ref_other k v r = r\<lparr>tr_ExtraFields := fmupd k v (tr_ExtraFields r)\<rparr>"

definition zero_ref :: TrackRef where
  "zero_ref = \<lparr>tr_Namespace = [], tr_RefName = [], tr_ExtraFields = fmempty\<rparr>"

definition TrackRef_Marshal :: "TrackRef \<Rightarrow> json" where
  "TrackRef_Marshal r = json_map (encode_members ref_encoders r (tr_ExtraFields r))"

definition TrackRef_Unmarshal :: "json \<Rightarrow> msf_error + TrackRef" where
  "TrackRef_Unmarshal j = and_then (raw_members j) (\<lambda>raw. decode_members ref_decoders ref_other raw zero_ref)"

text \<open>A clone is its track's object with the two keys of the parent; decoding takes them out first.\<close>

record clone_raw =
  cr_ParentName :: string
  cr_ParentNamespace :: string
  cr_trackRaw :: raw_fields

definition clone_encoders :: "(string \<times> (clone_raw \<Rightarrow> json option)) list" where
  "clone_encoders =
     [(''parentName'', \<lambda>c. put_string (cr_ParentName c)), (''parentNamespace'', \<lambda>c. put_string (cr_ParentNamespace c))]"

definition clone_decoders :: "(string \<times> (json \<Rightarrow> clone_raw \<Rightarrow> msf_error + clone_raw)) list" where
  "clone_decoders =
     [(''parentName'', dec_string cr_ParentName_update cr_ParentName),
      (''parentNamespace'', dec_string cr_ParentNamespace_update cr_ParentNamespace)]"

definition clone_other :: "string \<Rightarrow> json \<Rightarrow> clone_raw \<Rightarrow> clone_raw" where
  "clone_other k v c = c\<lparr>cr_trackRaw := fmupd k v (cr_trackRaw c)\<rparr>"

definition zero_clone_raw :: clone_raw where
  "zero_clone_raw = \<lparr>cr_ParentName = [], cr_ParentNamespace = [], cr_trackRaw = fmempty\<rparr>"

definition TrackClone_Marshal :: "TrackClone \<Rightarrow> json" where
  "TrackClone_Marshal c =
     json_map (encode_members clone_encoders
       \<lparr>cr_ParentName = tc_ParentName c, cr_ParentNamespace = tc_ParentNamespace c, cr_trackRaw = fmempty\<rparr>
       (marshalObject (tc_Track c)))"

definition TrackClone_Unmarshal :: "json \<Rightarrow> msf_error + TrackClone" where
  "TrackClone_Unmarshal j =
     and_then (raw_members j) (\<lambda>raw.
     and_then (decode_members clone_decoders clone_other raw zero_clone_raw) (\<lambda>c.
     and_then (unmarshalObject (sorted_list_of_fmap (cr_trackRaw c))) (\<lambda>t.
     Inr \<lparr>tc_Track = t, tc_ParentName = cr_ParentName c, tc_ParentNamespace = cr_ParentNamespace c\<rparr>)))"

section \<open>Catalogs\<close>

text \<open>\<open>decodeOrderedObject\<close>\<close>

definition decodeOrderedObject :: "json \<Rightarrow> msf_error + (string \<times> json) list" where
  "decodeOrderedObject j = (case j of JObject kvs \<Rightarrow> Inr kvs | _ \<Rightarrow> Inl (MsfError ''expected JSON object''))"

text \<open>Into a slice whose nil value is the empty list here.\<close>

definition dec_list :: "(json \<Rightarrow> msf_error + 'a) \<Rightarrow> (('a list \<Rightarrow> 'a list) \<Rightarrow> 'r \<Rightarrow> 'r) \<Rightarrow> json \<Rightarrow> 'r \<Rightarrow> msf_error + 'r" where
  "dec_list un upd v r = and_then (un_slice un v) (\<lambda>xs. Inr (upd (\<lambda>_. case xs of None \<Rightarrow> [] | Some xs \<Rightarrow> xs) r))"

definition put_list :: "('a \<Rightarrow> json) \<Rightarrow> 'a list \<Rightarrow> json option" where
  "put_list f xs = (if xs \<noteq> [] then Some (JArray (map f xs)) else None)"

definition dec_refuse :: "string \<Rightarrow> json \<Rightarrow> 'r \<Rightarrow> msf_error + 'r" where
  "dec_refuse msg v r = Inl (MsfError msg)"

definition put_true :: "bool \<Rightarrow> json option" where
  "put_true b = (if b then Some (JBool True) else None)"

definition put_nonzero :: "int64 \<Rightarrow> json option" where
  "put_nonzero w = (if w \<noteq> 0 then Some (json_int64 w) else None)"

definition catalog_encoders :: "(string \<times> (Catalog \<Rightarrow> json option)) list" where
  "catalog_encoders =
     [(''version'', \<lambda>c. put_nonzero (ct_Version c)),
      (''generatedAt'', \<lambda>c. map_option json_int64 (ct_GeneratedAt c)),
      (''isComplete'', \<lambda>c. put_true (ct_IsComplete c)),
      (''tracks'', \<lambda>c. put_list Track_Marshal (ct_Tracks c)),
      (''publishTracks'', \<lambda>c. put_list Track_Marshal (ct_PublishTracks c)),
      (''initDataList'', \<lambda>c. put_list InitDataRef_Marshal (ct_InitDataList c))]"

definition catalog_decoders :: "(string \<times> (json \<Rightarrow> Catalog \<Rightarrow> msf_error + Catalog)) list" where
  "catalog_decoders =
     [(''version'', \<lambda>v c. and_then (un_int64 (ct_Version c) v) (\<lambda>w. Inr (c\<lparr>ct_Version := w\<rparr>))),
      (''generatedAt'', dec_new (un_int64 0) ct_GeneratedAt_update),
      (''isComplete'', \<lambda>v c. and_then (un_bool (ct_IsComplete c) v) (\<lambda>b. Inr (c\<lparr>ct_IsComplete := b\<rparr>))),
      (''tracks'', dec_list Track_Unmarshal ct_Tracks_update),
      (''publishTracks'', dec_list Track_Unmarshal ct_PublishTracks_update),
      (''initDataList'', dec_list InitDataRef_Unmarshal ct_InitDataList_update),
      (''deltaUpdate'', dec_refuse ''delta catalog fields are not allowed in an independent catalog'')]"

definition catalog_other :: "string \<Rightarrow> json \<Rightarrow> Catalog \<Rightarrow> Catalog" where
  "catalog_other k v c = c\<lparr>ct_ExtraFields := fmupd k v (ct_ExtraFields c)\<rparr>"

definition zero_catalog :: Catalog where
  "zero_catalog =
     \<lparr>ct_DefaultNamespace = [], ct_Version = 0, ct_GeneratedAt = None, ct_IsComplete = False, ct_Tracks = [],
      ct_PublishTracks = [], ct_InitDataList = [], ct_ExtraFields = fmempty\<rparr>"

definition Catalog_Marshal :: "Catalog \<Rightarrow> json" where
  "Catalog_Marshal c = json_map (encode_members catalog_encoders c (ct_ExtraFields c))"

definition Catalog_Unmarshal :: "json \<Rightarrow> msf_error + Catalog" where
  "Catalog_Unmarshal j =
     and_then (decodeOrderedObject j) (\<lambda>ordered. decode_members catalog_decoders catalog_other ordered zero_catalog)"

section \<open>Deltas\<close>

text \<open>A part of a nil slice is nil, which is written as null; the empty groups of a delta are nil.\<close>

definition json_slice :: "('a \<Rightarrow> json) \<Rightarrow> deltaSpan \<Rightarrow> 'a list \<Rightarrow> json" where
  "json_slice f sp xs = (if xs = [] then JNull else JArray (map f (slice sp xs)))"

definition kind_name :: "deltaOperationKind \<Rightarrow> string" where
  "kind_name k =
     (case k of deltaOperationAdd \<Rightarrow> ''add'' | deltaOperationRemove \<Rightarrow> ''remove'' | deltaOperationClone \<Rightarrow> ''clone'')"

definition span_tracks :: "CatalogDelta \<Rightarrow> deltaSpan \<Rightarrow> json" where
  "span_tracks d sp =
     (case sp_kind sp of
        deltaOperationAdd \<Rightarrow> json_slice Track_Marshal sp (dl_AddTracks d)
      | deltaOperationRemove \<Rightarrow> json_slice TrackRef_Marshal sp (dl_RemoveTracks d)
      | deltaOperationClone \<Rightarrow> json_slice TrackClone_Marshal sp (dl_CloneTracks d))"

definition delta_ops :: "CatalogDelta \<Rightarrow> json" where
  "delta_ops d =
     JArray (map (\<lambda>sp. JObject [(''op'', JString (kind_name (sp_kind sp))), (''tracks'', span_tracks d sp)]) (operations d))"

definition delta_encoders :: "(string \<times> (CatalogDelta \<Rightarrow> json option)) list" where
  "delta_encoders =
     [(''deltaUpdate'', \<lambda>d. Some (delta_ops d)),
      (''generatedAt'', \<lambda>d. map_option json_int64 (dl_GeneratedAt d)),
      (''isComplete'', \<lambda>d. put_true (dl_IsComplete d))]"

definition CatalogDelta_Marshal :: "CatalogDelta \<Rightarrow> json" where
  "CatalogDelta_Marshal d = json_map (encode_members delta_encoders d (dl_ExtraFields d))"

text \<open>\<open>decodeDeltaOps\<close>: one operation, into its group and noted; a nil map has no fields.\<close>

definition raw_field :: "raw_fields option \<Rightarrow> string \<Rightarrow> json option" where
  "raw_field m k = (case m of None \<Rightarrow> None | Some m \<Rightarrow> fmlookup m k)"

definition un_tracks :: "(json \<Rightarrow> msf_error + 'a) \<Rightarrow> json \<Rightarrow> msf_error + 'a list" where
  "un_tracks un v = and_then (un_slice un v) (\<lambda>xs. Inr (case xs of None \<Rightarrow> [] | Some xs \<Rightarrow> xs))"

definition decode_op :: "raw_fields option \<Rightarrow> CatalogDelta \<Rightarrow> msf_error + CatalogDelta" where
  "decode_op opObj d =
     (case raw_field opObj ''op'' of
        None \<Rightarrow> Inl (MsfError ''delta update operation must contain an op field'')
      | Some opRaw \<Rightarrow> and_then (un_string [] opRaw) (\<lambda>op.
          case raw_field opObj ''tracks'' of
            None \<Rightarrow> Inl (MsfError ''delta update operation must contain a tracks field'')
          | Some tracksRaw \<Rightarrow>
              if op = ''add'' then
                and_then (un_tracks Track_Unmarshal tracksRaw) (\<lambda>add.
                  Inr (d\<lparr>dl_AddTracks := dl_AddTracks d @ add, dl_ops := dl_ops d @ [(deltaOperationAdd, length add)]\<rparr>))
              else if op = ''remove'' then
                and_then (un_tracks TrackRef_Unmarshal tracksRaw) (\<lambda>remove.
                  Inr (d\<lparr>dl_RemoveTracks := dl_RemoveTracks d @ remove, dl_ops := dl_ops d @ [(deltaOperationRemove, length remove)]\<rparr>))
              else if op = ''clone'' then
                and_then (un_tracks TrackClone_Unmarshal tracksRaw) (\<lambda>clone.
                  Inr (d\<lparr>dl_CloneTracks := dl_CloneTracks d @ clone, dl_ops := dl_ops d @ [(deltaOperationClone, length clone)]\<rparr>))
              else Inl (MsfError ''unknown delta update op'')))"

definition decodeDeltaOps :: "json \<Rightarrow> CatalogDelta \<Rightarrow> msf_error + CatalogDelta" where
  "decodeDeltaOps v d =
     (case un_slice un_raw_map v of
        Inl e \<Rightarrow> Inl (MsfError ''deltaUpdate must be an array of operation objects'')
      | Inr ops \<Rightarrow> fold_err decode_op (case ops of None \<Rightarrow> [] | Some ops \<Rightarrow> ops) d)"

definition delta_decoders :: "(string \<times> (json \<Rightarrow> CatalogDelta \<Rightarrow> msf_error + CatalogDelta)) list" where
  "delta_decoders =
     [(''deltaUpdate'', decodeDeltaOps),
      (''version'', dec_refuse ''independent catalog fields are not allowed in a delta catalog''),
      (''tracks'', dec_refuse ''independent catalog fields are not allowed in a delta catalog''),
      (''generatedAt'', dec_new (un_int64 0) dl_GeneratedAt_update),
      (''isComplete'', \<lambda>v d. and_then (un_bool (dl_IsComplete d) v) (\<lambda>b. Inr (d\<lparr>dl_IsComplete := b\<rparr>)))]"

definition delta_other :: "string \<Rightarrow> json \<Rightarrow> CatalogDelta \<Rightarrow> CatalogDelta" where
  "delta_other k v d = d\<lparr>dl_ExtraFields := fmupd k v (dl_ExtraFields d)\<rparr>"

definition zero_delta :: CatalogDelta where
  "zero_delta =
     \<lparr>dl_DefaultNamespace = [], dl_GeneratedAt = None, dl_IsComplete = False, dl_AddTracks = [], dl_RemoveTracks = [],
      dl_CloneTracks = [], dl_ExtraFields = fmempty, dl_ops = []\<rparr>"

definition CatalogDelta_Unmarshal :: "json \<Rightarrow> msf_error + CatalogDelta" where
  "CatalogDelta_Unmarshal j =
     and_then (decodeOrderedObject j) (\<lambda>ordered.
     and_then (decode_members delta_decoders delta_other ordered zero_delta) (\<lambda>d.
     if list_ex (\<lambda>(k, v). k = ''deltaUpdate'') ordered then Inr d
     else Inl (MsfError ''delta catalog must include a deltaUpdate array'')))"

section \<open>References, clones and catalogs come back\<close>

interpretation trackref: json_record ref_decoders ref_encoders tr_ExtraFields ref_other zero_ref "\<lambda>_. True" "(=)"
  by unfold_locales (auto simp: ref_decoders_def ref_encoders_def ref_other_def zero_ref_def decoder_Inr json_simps)

interpretation clones: json_record clone_decoders clone_encoders cr_trackRaw clone_other zero_clone_raw "\<lambda>_. True" "(=)"
  by unfold_locales (auto simp: clone_decoders_def clone_encoders_def clone_other_def zero_clone_raw_def decoder_Inr json_simps)

lemma TrackRef_json: "plain ref_decoders (tr_ExtraFields r) \<Longrightarrow> TrackRef_Unmarshal (TrackRef_Marshal r) = Inr r"
  using trackref.roundtrip [of r] plainD by (fastforce simp: TrackRef_Unmarshal_def TrackRef_Marshal_def json_simps)

definition track_ok :: "Track \<Rightarrow> bool" where
  "track_ok t \<longleftrightarrow> track_plain t \<and> plain track_decoders (tk_ExtraFields t)"

definition clone_ok :: "TrackClone \<Rightarrow> bool" where
  "clone_ok c \<longleftrightarrow> track_ok (tc_Track c) \<and> tk_ParentNamespace (tc_Track c) = [] \<and> plain clone_decoders (tk_ExtraFields (tc_Track c))"

definition same_clone :: "TrackClone \<Rightarrow> TrackClone \<Rightarrow> bool" where
  "same_clone c e \<longleftrightarrow> same_track (tc_Track c) (tc_Track e) \<and> tc_ParentName e = tc_ParentName c \<and>
     tc_ParentNamespace e = tc_ParentNamespace c"

lemma marshalObject_none: "\<lbrakk>k \<notin> fst ` set track_encoders; fmlookup (tk_ExtraFields t) k = None\<rbrakk> \<Longrightarrow> fmlookup (marshalObject t) k = None"
  by (simp add: marshalObject_def encode_other)

lemma TrackClone_json:
  assumes "clone_ok c"
  shows "\<exists>e. TrackClone_Unmarshal (TrackClone_Marshal c) = Inr e \<and> same_clone c e"
proof -
  let ?r = "\<lparr>cr_ParentName = tc_ParentName c, cr_ParentNamespace = tc_ParentNamespace c, cr_trackRaw = marshalObject (tc_Track c)\<rparr>"
  have x: "fmlookup (tk_ExtraFields (tc_Track c)) ''parentName'' = None" "fmlookup (tk_ExtraFields (tc_Track c)) ''parentNamespace'' = None"
    using assms by (simp_all add: clone_ok_def plain_def clone_decoders_def)
  have "fmlookup (marshalObject (tc_Track c)) ''parentName'' = None"
    by (rule marshalObject_none [OF _ x(1)]) (simp add: track_encoders_def)
  moreover have pn: "(''parentNamespace'', \<lambda>t. put_string (tk_ParentNamespace t)) \<in> set track_encoders"
    by (simp add: track_encoders_def)
  have "fmlookup (marshalObject (tc_Track c)) ''parentNamespace'' = None"
    unfolding marshalObject_def encode_own [OF track_keys(2) pn] using assms x(2) by (simp add: clone_ok_def)
  ultimately have "decode_members clone_decoders clone_other (sorted_list_of_fmap (encode_members clone_encoders ?r (marshalObject (tc_Track c)))) zero_clone_raw = Inr ?r"
    using clones.roundtrip [of ?r] by (auto simp: clone_decoders_def)
  moreover have "encode_members clone_encoders ?r m = encode_members clone_encoders (?r\<lparr>cr_trackRaw := fmempty\<rparr>) m" for m
    by (simp add: clone_encoders_def)
  ultimately show ?thesis
    using Track_json [of "tc_Track c"] assms
    by (auto simp: TrackClone_Unmarshal_def TrackClone_Marshal_def json_simps clone_ok_def track_ok_def same_clone_def
        Track_Unmarshal_def Track_Marshal_def)
qed

lemma un_list_rel:
  "(\<And>x. x \<in> set xs \<Longrightarrow> \<exists>y. un (f x) = Inr y \<and> R x y) \<Longrightarrow> \<exists>ys. un_list un (map f xs) = Inr ys \<and> list_all2 R xs ys"
proof (induction xs)
  case (Cons x xs)
  obtain y where "un (f x) = Inr y" "R x y" using Cons.prems by auto
  moreover obtain ys where "un_list un (map f xs) = Inr ys" "list_all2 R xs ys" using Cons by auto
  ultimately show ?case by simp
qed simp

lemma same_track_refl [simp]: "same_track t t" by (simp add: same_track_def)

lemma same_track_trans: "\<lbrakk>same_track t u; same_track u v\<rbrakk> \<Longrightarrow> same_track t v" by (simp add: same_track_def)

lemma same_track_sym: "same_track t u \<Longrightarrow> same_track u t" by (simp add: same_track_def)

lemma same_track_encode:
  assumes "same_track t u"
  shows "Track_Marshal u = Track_Marshal t" "track_ok u = track_ok t"
proof -
  have u: "u = t\<lparr>tk_presentFields := tk_presentFields u\<rparr>" 
  proof -
    have "u = (u\<lparr>tk_presentFields := {}\<rparr>)\<lparr>tk_presentFields := tk_presentFields u\<rparr>" by simp
    also have "\<dots> = (t\<lparr>tk_presentFields := {}\<rparr>)\<lparr>tk_presentFields := tk_presentFields u\<rparr>" using assms by (simp only: same_track_def)
    finally show ?thesis by simp
  qed
  have g: "g (t\<lparr>tk_presentFields := p\<rparr>) = g t" if "(k, g) \<in> set track_encoders" for k g p
    using that by (auto simp: track_encoders_def)
  have "encode_members fs (t\<lparr>tk_presentFields := p\<rparr>) m = encode_members fs t m" if "set fs \<subseteq> set track_encoders" for fs p m
    using that by (induction fs arbitrary: m) (auto simp: g)
  from this [OF subset_refl, of "tk_presentFields u"] show "Track_Marshal u = Track_Marshal t"
    by (subst u) (simp add: Track_Marshal_def marshalObject_def)
  show "track_ok u = track_ok t" by (subst u) (simp add: track_ok_def track_plain_def)
qed

lemma Track_json': "track_ok t \<Longrightarrow> \<exists>u. Track_Unmarshal (Track_Marshal t) = Inr u \<and> same_track t u"
  using Track_json [of t] by (simp add: track_ok_def)

lemma Track_Marshal_same: "\<lbrakk>track_ok t; track_ok u; Track_Marshal t = Track_Marshal u\<rbrakk> \<Longrightarrow> same_track t u"
  using Track_json' [of t] Track_json' [of u] same_track_trans same_track_sym by (metis Inr_inject)

lemma un_slice_rel:
  assumes "\<And>x. x \<in> set xs \<Longrightarrow> \<exists>y. un (f x) = Inr y \<and> R x y"
  shows "\<exists>ys. un_slice un (JArray (map f xs)) = Inr (Some ys) \<and> list_all2 R xs ys"
  using un_list_rel [of xs un f R] assms by (fastforce simp: un_slice_def)

definition catalog_good :: "Catalog \<Rightarrow> bool" where
  "catalog_good c \<longleftrightarrow> list_all track_ok (ct_Tracks c) \<and> list_all track_ok (ct_PublishTracks c) \<and>
     list_all (\<lambda>r. plain init_decoders (id_ExtraFields r)) (ct_InitDataList c)"

text \<open>The same catalog but for what is not written: the namespace it was found in and the noted fields.\<close>

definition same_catalog :: "Catalog \<Rightarrow> Catalog \<Rightarrow> bool" where
  "same_catalog c e \<longleftrightarrow>
     ct_Version e = ct_Version c \<and> ct_GeneratedAt e = ct_GeneratedAt c \<and> ct_IsComplete e = ct_IsComplete c \<and>
     list_all2 same_track (ct_Tracks c) (ct_Tracks e) \<and> list_all2 same_track (ct_PublishTracks c) (ct_PublishTracks e) \<and>
     ct_InitDataList e = ct_InitDataList c \<and> ct_ExtraFields e = ct_ExtraFields c"

lemma put_simps [simp]:
  "put_true b = Some v \<longleftrightarrow> b \<and> v = JBool True" "put_true b = put_true c \<longleftrightarrow> b = c" "put_true False = None"
  "put_nonzero w = Some v \<longleftrightarrow> w \<noteq> 0 \<and> v = json_int64 w" "put_nonzero w = put_nonzero x \<longleftrightarrow> w = x" "put_nonzero 0 = None"
  by (auto simp: put_true_def put_nonzero_def)

lemma put_list_Some: "put_list f xs = Some v \<longleftrightarrow> xs \<noteq> [] \<and> v = JArray (map f xs)"
  by (auto simp: put_list_def)

lemma dec_list_Inr: "dec_list un upd v r = Inr s \<longleftrightarrow> (\<exists>xs. un_slice un v = Inr xs \<and> s = upd (\<lambda>_. case xs of None \<Rightarrow> [] | Some xs \<Rightarrow> xs) r)"
  by (auto simp: dec_list_def and_then_Inr)

lemma same_tracks_encode:
  "list_all2 same_track ts us \<Longrightarrow> map Track_Marshal us = map Track_Marshal ts \<and> list_all track_ok us = list_all track_ok ts"
  by (induction rule: list_all2_induct) (auto simp: same_track_encode)

lemma tracks_json:
  assumes "list_all track_ok ts"
  obtains us where "un_slice Track_Unmarshal (JArray (map Track_Marshal ts)) = Inr (Some us)" "list_all track_ok us"
    "map Track_Marshal us = map Track_Marshal ts" "list_all2 same_track ts us"
proof -
  obtain us where us: "un_slice Track_Unmarshal (JArray (map Track_Marshal ts)) = Inr (Some us)" "list_all2 same_track ts us"
    using un_slice_rel [of ts Track_Unmarshal Track_Marshal same_track] Track_json' assms by (auto simp: list_all_iff)
  show thesis by (rule that [OF us(1) _ _ us(2)]) (use same_tracks_encode [OF us(2)] assms in auto)
qed

lemma put_tracks_same:
  assumes "list_all track_ok ts" "list_all track_ok us" "put_list Track_Marshal us = put_list Track_Marshal ts"
  shows "list_all2 same_track ts us"
proof -
  have "map Track_Marshal us = map Track_Marshal ts" using assms(3) by (auto simp: put_list_def split: if_splits)
  then show ?thesis using assms(1,2)
  proof (induction ts arbitrary: us)
    case (Cons t ts)
    then obtain u vs where "us = u # vs" by auto
    then show ?case using Cons Track_Marshal_same [of t u] by auto
  qed simp
qed

lemma inits_json:
  "list_all (\<lambda>r. plain init_decoders (id_ExtraFields r)) rs \<Longrightarrow>
   un_slice InitDataRef_Unmarshal (JArray (map InitDataRef_Marshal rs)) = Inr (Some rs)"
  using un_list_json [of rs InitDataRef_Unmarshal InitDataRef_Marshal id] InitDataRef_json
  by (simp add: un_slice_def list_all_iff)

lemma put_inits_same:
  assumes "list_all (\<lambda>r. plain init_decoders (id_ExtraFields r)) rs" "list_all (\<lambda>r. plain init_decoders (id_ExtraFields r)) ss"
    "put_list InitDataRef_Marshal ss = put_list InitDataRef_Marshal rs"
  shows "ss = rs"
proof -
  have "JArray (map InitDataRef_Marshal ss) = JArray (map InitDataRef_Marshal rs)"
    using assms(3) by (auto simp: put_list_def split: if_splits)
  then have "Inr (Some ss) = (Inr (Some rs) :: msf_error + _)" using inits_json [OF assms(1)] inits_json [OF assms(2)] by metis
  then show ?thesis by simp
qed

lemma catalog_dec_own:
  assumes "(k, d) \<in> set catalog_decoders" "(k, g) \<in> set catalog_encoders" "catalog_good r" "catalog_good s" "g r = Some v"
  shows "\<exists>s'. d v s = Inr s' \<and> g s' = Some v \<and> catalog_good s'"
proof -
  obtain ts where ts: "un_slice Track_Unmarshal (JArray (map Track_Marshal (ct_Tracks r))) = Inr (Some ts)" "list_all track_ok ts"
      "map Track_Marshal ts = map Track_Marshal (ct_Tracks r)"
    using assms(3) by (auto simp: catalog_good_def intro: tracks_json)
  obtain ps where ps: "un_slice Track_Unmarshal (JArray (map Track_Marshal (ct_PublishTracks r))) = Inr (Some ps)"
      "list_all track_ok ps" "map Track_Marshal ps = map Track_Marshal (ct_PublishTracks r)"
    using assms(3) by (auto simp: catalog_good_def intro: tracks_json)
  have ini: "un_slice InitDataRef_Unmarshal (JArray (map InitDataRef_Marshal (ct_InitDataList r))) = Inr (Some (ct_InitDataList r))"
    using assms(3) by (simp add: catalog_good_def inits_json)
  have ne: "ts = [] \<longleftrightarrow> ct_Tracks r = []" "ps = [] \<longleftrightarrow> ct_PublishTracks r = []" using ts(3) ps(3) by auto
  show ?thesis
    using assms(1,2) unfolding catalog_encoders_def list.set insert_iff empty_iff
    by (elim disjE; use assms(3-5) in \<open>clarsimp simp: catalog_decoders_def put_list_Some dec_list_Inr decoder_Inr json_simps
        and_then_Inr catalog_good_def ts ps ini ne split: if_splits\<close>)
qed

lemma catalog_dec_other:
  "\<lbrakk>(k, d) \<in> set catalog_decoders; (k', g) \<in> set catalog_encoders; k' \<noteq> k; d v s = Inr s'\<rbrakk> \<Longrightarrow> g s' = g s"
  unfolding catalog_decoders_def list.set insert_iff empty_iff
  apply (elim disjE; clarsimp simp: decoder_Inr dec_list_Inr and_then_Inr dec_refuse_def)
  unfolding catalog_encoders_def list.set insert_iff empty_iff
  by (elim disjE; simp)+

interpretation catalogs: json_record catalog_decoders catalog_encoders ct_ExtraFields catalog_other zero_catalog catalog_good same_catalog
proof
  show "\<exists>s'. d v s = Inr s' \<and> g s' = Some v \<and> catalog_good s'"
    if "(k, d) \<in> set catalog_decoders" "(k, g) \<in> set catalog_encoders" "catalog_good r" "catalog_good s" "g r = Some v" for k d g r s v
    using catalog_dec_own that .
  show "same_catalog r s" if s: "catalog_good r" "catalog_good s" "\<forall>(k, g) \<in> set catalog_encoders. g s = g r"
    "ct_ExtraFields s = ct_ExtraFields r" for r s
  proof -
    have e: "put_list Track_Marshal (ct_Tracks s) = put_list Track_Marshal (ct_Tracks r)"
      "put_list Track_Marshal (ct_PublishTracks s) = put_list Track_Marshal (ct_PublishTracks r)"
      "put_list InitDataRef_Marshal (ct_InitDataList s) = put_list InitDataRef_Marshal (ct_InitDataList r)"
      "ct_GeneratedAt s = ct_GeneratedAt r" "ct_Version s = ct_Version r" "ct_IsComplete s = ct_IsComplete r"
      using s(3) by (simp_all add: catalog_encoders_def)
    show ?thesis unfolding same_catalog_def
      using s(1,2,4) e(4-6) put_tracks_same [OF _ _ e(1)] put_tracks_same [OF _ _ e(2)] put_inits_same [OF _ _ e(3)]
      by (simp add: catalog_good_def)
  qed
  show "g s' = g s"
    if "(k, d) \<in> set catalog_decoders" "(k', g) \<in> set catalog_encoders" "k' \<noteq> k" "d v s = Inr s'" for k d k' g v s s'
    using catalog_dec_other that .
  show "ct_ExtraFields s' = ct_ExtraFields s" if c: "(k, d) \<in> set catalog_decoders" "d v s = Inr s'" for k d v s s'
    using c(1) unfolding catalog_decoders_def list.set insert_iff empty_iff
    by (elim disjE; use c(2) in \<open>auto simp: decoder_Inr dec_list_Inr and_then_Inr dec_refuse_def\<close>)
qed (auto simp: catalog_encoders_def catalog_decoders_def catalog_other_def zero_catalog_def catalog_good_def put_list_def)

lemma Catalog_json:
  assumes "catalog_good c" "plain catalog_decoders (ct_ExtraFields c)"
  shows "\<exists>e. Catalog_Unmarshal (Catalog_Marshal c) = Inr e \<and> same_catalog c e"
  using catalogs.roundtrip [OF assms(1)] plainD [OF assms(2)]
  by (simp add: Catalog_Unmarshal_def Catalog_Marshal_def decodeOrderedObject_def json_map_def)

section \<open>The operations cover the groups\<close>

fun tile :: "(deltaOperationKind \<Rightarrow> nat) \<Rightarrow> (deltaOperationKind \<Rightarrow> nat) \<Rightarrow> deltaSpan list \<Rightarrow> (deltaOperationKind \<Rightarrow> nat) option" where
  "tile lens next [] = Some next"
| "tile lens next (sp # sps) =
     (if sp_lo sp = next (sp_kind sp) \<and> sp_lo sp \<le> sp_hi sp \<and> sp_hi sp \<le> lens (sp_kind sp)
      then tile lens (next(sp_kind sp := sp_hi sp)) sps else None)"

lemma tile_append: "tile lens m (xs @ ys) = Option.bind (tile lens m xs) (\<lambda>n. tile lens n ys)"
  by (induction xs arbitrary: m) simp_all

lemma span_loop_tile:
  "\<lbrakk>\<And>k. m k \<le> lens k; span_loop lens ops m = (sps, m')\<rbrakk> \<Longrightarrow> tile lens m sps = Some m' \<and> (\<forall>k. m' k \<le> lens k)"
proof (induction ops arbitrary: m sps)
  case (Cons op ops)
  obtain kind n where op: "op = (kind, n)" by fastforce
  define hi where "hi = min (m kind + n) (lens kind)"
  obtain tl where tl: "span_loop lens ops (m(kind := hi)) = (tl, m')"
    "sps = list_if (m kind < hi \<or> n = 0) \<lparr>sp_kind = kind, sp_lo = m kind, sp_hi = hi\<rparr> @ tl"
    using Cons.prems(2) unfolding op span_loop.simps Let_def hi_def [symmetric] by (auto split: prod.splits)
  have le: "(m(kind := hi)) k \<le> lens k" for k using Cons.prems(1) [of k] by (simp add: hi_def)
  have hi: "m kind \<le> hi" "hi \<le> lens kind" using Cons.prems(1) [of kind] by (simp_all add: hi_def)
  have "m(kind := hi) = m" if "\<not> (m kind < hi \<or> n = 0)" using that hi by (auto simp: fun_eq_iff)
  moreover have "tile lens (m(kind := hi)) tl = Some m'" "\<forall>k. m' k \<le> lens k" using Cons.IH [OF le tl(1)] by blast+
  ultimately show ?case using tl(2) hi by (cases "m kind < hi \<or> n = 0") simp_all
qed simp

lemma operations_tile: "tile (delta_lens d) (\<lambda>_. 0) (operations d) = Some (delta_lens d)"
proof -
  obtain sps n where s: "span_loop (delta_lens d) (dl_ops d) (\<lambda>_. 0) = (sps, n)" by fastforce
  have t: "tile (delta_lens d) (\<lambda>_. 0) sps = Some n" and n: "\<And>k. n k \<le> delta_lens d k"
    using span_loop_tile [OF _ s] by simp_all
  have kinds: "tile (delta_lens d) m (concat (map (\<lambda>kind. list_if (n kind < delta_lens d kind)
        \<lparr>sp_kind = kind, sp_lo = n kind, sp_hi = delta_lens d kind\<rparr>) ks)) =
      Some (\<lambda>k. if k \<in> set ks then delta_lens d k else m k)"
    if "distinct ks" "\<And>k. k \<in> set ks \<Longrightarrow> m k = n k" for ks m
    using that
  proof (induction ks arbitrary: m)
    case (Cons k ks)
    have "tile (delta_lens d) (m(k := delta_lens d k)) (concat (map (\<lambda>kind. list_if (n kind < delta_lens d kind)
        \<lparr>sp_kind = kind, sp_lo = n kind, sp_hi = delta_lens d kind\<rparr>) ks)) =
        Some (\<lambda>x. if x \<in> set ks then delta_lens d x else (m(k := delta_lens d k)) x)"
      by (rule Cons.IH) (use Cons.prems in auto)
    moreover have "m(k := delta_lens d k) = m" if "\<not> n k < delta_lens d k"
      using that n [of k] Cons.prems(2) [of k] by (auto simp: fun_eq_iff)
    ultimately show ?case using Cons.prems(2) [of k] by (cases "n k < delta_lens d k") (auto simp: fun_eq_iff)
  qed simp
  have "k = deltaOperationAdd \<or> k = deltaOperationRemove \<or> k = deltaOperationClone" for k by (cases k) simp_all
  then have "(\<lambda>k. if k \<in> set [deltaOperationAdd, deltaOperationRemove, deltaOperationClone] then delta_lens d k else n k) = delta_lens d"
    by (auto simp: fun_eq_iff)
  then show ?thesis
    using kinds [of "[deltaOperationAdd, deltaOperationRemove, deltaOperationClone]" n] by (simp add: operations_def s tile_append t)
qed

abbreviation span_op :: "deltaSpan \<Rightarrow> deltaOperationKind \<times> nat" where
  "span_op sp \<equiv> (sp_kind sp, sp_hi sp - sp_lo sp)"

lemma span_loop_again: "tile lens m sps = Some m' \<Longrightarrow> span_loop lens (map span_op sps) m = (sps, m')"
proof (induction sps arbitrary: m)
  case (Cons sp sps)
  then have "sp_lo sp = m (sp_kind sp)" "sp_lo sp \<le> sp_hi sp" "sp_hi sp \<le> lens (sp_kind sp)"
    "tile lens (m(sp_kind sp := sp_hi sp)) sps = Some m'" by (simp_all split: if_splits)
  then show ?case using Cons.IH by (auto simp: Let_def)
qed simp

lemma operations_again:
  assumes "delta_lens e = delta_lens d" "dl_ops e = map span_op (operations d)"
  shows "operations e = operations d"
  using span_loop_again [OF operations_tile [of d]] by (simp add: operations_def [of e] assms)

section \<open>Deltas come back\<close>

definition delta_good :: "CatalogDelta \<Rightarrow> bool" where
  "delta_good d \<longleftrightarrow> list_all track_ok (dl_AddTracks d) \<and> list_all (\<lambda>r. plain ref_decoders (tr_ExtraFields r)) (dl_RemoveTracks d) \<and>
     list_all clone_ok (dl_CloneTracks d)"

lemma set_slice: "x \<in> set (slice sp xs) \<Longrightarrow> x \<in> set xs"
  unfolding slice_def by (meson in_set_dropD in_set_takeD)

lemma un_tracks_slice:
  assumes "\<And>x. x \<in> set xs \<Longrightarrow> \<exists>y. un (f x) = Inr y \<and> R x y"
  shows "\<exists>ys. un_tracks un (json_slice f sp xs) = Inr ys \<and> list_all2 R (slice sp xs) ys"
proof (cases "xs = []")
  case True
  then show ?thesis by (simp add: un_tracks_def json_slice_def un_slice_def slice_def)
next
  case False
  then show ?thesis
    using un_slice_rel [of "slice sp xs" un f R] assms set_slice [of _ sp xs] by (fastforce simp: un_tracks_def json_slice_def)
qed

definition span_raw :: "CatalogDelta \<Rightarrow> deltaSpan \<Rightarrow> raw_fields option" where
  "span_raw d sp = Some (fmap_of_list [(''tracks'', span_tracks d sp), (''op'', JString (kind_name (sp_kind sp)))])"

lemma un_delta_ops: "un_slice un_raw_map (delta_ops d) = Inr (Some (map (span_raw d) (operations d)))"
proof -
  have "un_list un_raw_map (map (\<lambda>sp. JObject [(''op'', JString (kind_name (sp_kind sp))), (''tracks'', span_tracks d sp)]) sps) =
    Inr (map (span_raw d) sps)" for sps
    by (rule un_list_json) (simp add: un_raw_map_def span_raw_def)
  then show ?thesis by (simp add: un_slice_def delta_ops_def)
qed

definition rest_of :: "CatalogDelta \<Rightarrow> string \<times> int64 option \<times> bool \<times> raw_fields" where
  "rest_of d = (dl_DefaultNamespace d, dl_GeneratedAt d, dl_IsComplete d, dl_ExtraFields d)"

text \<open>What has been decoded when the operations up to the marks have.\<close>

definition decoded :: "CatalogDelta \<Rightarrow> (deltaOperationKind \<Rightarrow> nat) \<Rightarrow> CatalogDelta \<Rightarrow> bool" where
  "decoded d n e \<longleftrightarrow>
     list_all2 same_track (take (n deltaOperationAdd) (dl_AddTracks d)) (dl_AddTracks e) \<and>
     dl_RemoveTracks e = take (n deltaOperationRemove) (dl_RemoveTracks d) \<and>
     list_all2 same_clone (take (n deltaOperationClone) (dl_CloneTracks d)) (dl_CloneTracks e)"

lemma take_slice: "\<lbrakk>sp_lo sp = lo; lo \<le> sp_hi sp\<rbrakk> \<Longrightarrow> take (sp_hi sp) xs = take lo xs @ slice sp xs"
  using take_add [of lo "sp_hi sp - lo" xs] by (simp add: slice_def)

lemma list_all2_same: "list_all2 (\<lambda>x y. x = y) xs ys \<longleftrightarrow> xs = ys"
  by (simp add: list.rel_eq)

lemma length_slice: "\<lbrakk>sp_lo sp \<le> sp_hi sp; sp_hi sp \<le> length xs\<rbrakk> \<Longrightarrow> length (slice sp xs) = sp_hi sp - sp_lo sp"
  by (simp add: slice_def)

lemma decode_op_span:
  assumes "delta_good d" "decoded d n e" "sp_lo sp = n (sp_kind sp)" "sp_lo sp \<le> sp_hi sp" "sp_hi sp \<le> delta_lens d (sp_kind sp)"
  shows "\<exists>e'. decode_op (span_raw d sp) e = Inr e' \<and> decoded d (n(sp_kind sp := sp_hi sp)) e' \<and>
    dl_ops e' = dl_ops e @ [span_op sp] \<and> rest_of e' = rest_of e"
proof (cases "sp_kind sp")
  case deltaOperationAdd
  obtain us where us: "un_tracks Track_Unmarshal (json_slice Track_Marshal sp (dl_AddTracks d)) = Inr us"
      "list_all2 same_track (slice sp (dl_AddTracks d)) us"
    using un_tracks_slice [of "dl_AddTracks d" Track_Unmarshal Track_Marshal same_track sp] Track_json' assms(1)
    by (auto simp: delta_good_def list_all_iff)
  have "length us = sp_hi sp - sp_lo sp"
    using list_all2_lengthD [OF us(2)] length_slice [OF assms(4), of "dl_AddTracks d"] assms(5) deltaOperationAdd
    by (simp add: delta_lens_def)
  then show ?thesis
    using us assms(2-4) deltaOperationAdd take_slice [of sp "n deltaOperationAdd" "dl_AddTracks d"]
    by (simp add: decode_op_def raw_field_def span_raw_def json_simps kind_name_def span_tracks_def decoded_def rest_of_def
        list_all2_appendI)
next
  case deltaOperationRemove
  obtain us where us: "un_tracks TrackRef_Unmarshal (json_slice TrackRef_Marshal sp (dl_RemoveTracks d)) = Inr us"
      "list_all2 (\<lambda>x y. x = y) (slice sp (dl_RemoveTracks d)) us"
    using un_tracks_slice [of "dl_RemoveTracks d" TrackRef_Unmarshal TrackRef_Marshal "\<lambda>x y. x = y" sp] TrackRef_json assms(1)
    by (auto simp: delta_good_def list_all_iff)
  have "length us = sp_hi sp - sp_lo sp"
    using list_all2_lengthD [OF us(2)] length_slice [OF assms(4), of "dl_RemoveTracks d"] assms(5) deltaOperationRemove
    by (simp add: delta_lens_def)
  then show ?thesis
    using us assms(2-4) deltaOperationRemove take_slice [of sp "n deltaOperationRemove" "dl_RemoveTracks d"]
    by (simp add: decode_op_def raw_field_def span_raw_def json_simps kind_name_def span_tracks_def decoded_def rest_of_def
        list_all2_same)
next
  case deltaOperationClone
  obtain us where us: "un_tracks TrackClone_Unmarshal (json_slice TrackClone_Marshal sp (dl_CloneTracks d)) = Inr us"
      "list_all2 same_clone (slice sp (dl_CloneTracks d)) us"
    using un_tracks_slice [of "dl_CloneTracks d" TrackClone_Unmarshal TrackClone_Marshal same_clone sp] TrackClone_json assms(1)
    by (auto simp: delta_good_def list_all_iff)
  have "length us = sp_hi sp - sp_lo sp"
    using list_all2_lengthD [OF us(2)] length_slice [OF assms(4), of "dl_CloneTracks d"] assms(5) deltaOperationClone
    by (simp add: delta_lens_def)
  then show ?thesis
    using us assms(2-4) deltaOperationClone take_slice [of sp "n deltaOperationClone" "dl_CloneTracks d"]
    by (simp add: decode_op_def raw_field_def span_raw_def json_simps kind_name_def span_tracks_def decoded_def rest_of_def
        list_all2_appendI)
qed

lemma decode_ops_tile:
  assumes "delta_good d"
  shows "\<lbrakk>tile (delta_lens d) n sps = Some n'; decoded d n e\<rbrakk> \<Longrightarrow>
    \<exists>e'. fold_err decode_op (map (span_raw d) sps) e = Inr e' \<and> decoded d n' e' \<and>
      dl_ops e' = dl_ops e @ map span_op sps \<and> rest_of e' = rest_of e"
proof (induction sps arbitrary: n e)
  case (Cons sp sps)
  have sp: "sp_lo sp = n (sp_kind sp)" "sp_lo sp \<le> sp_hi sp" "sp_hi sp \<le> delta_lens d (sp_kind sp)"
      "tile (delta_lens d) (n(sp_kind sp := sp_hi sp)) sps = Some n'"
    using Cons.prems(1) by (simp_all split: if_splits)
  obtain e1 where e1: "decode_op (span_raw d sp) e = Inr e1" "decoded d (n(sp_kind sp := sp_hi sp)) e1"
      "dl_ops e1 = dl_ops e @ [span_op sp]" "rest_of e1 = rest_of e"
    using decode_op_span [OF assms Cons.prems(2) sp(1-3)] by blast
  show ?case using Cons.IH [OF sp(4) e1(2)] e1 by auto
qed simp

lemma decodeDeltaOps_json:
  assumes "delta_good d" "dl_AddTracks e = []" "dl_RemoveTracks e = []" "dl_CloneTracks e = []" "dl_ops e = []"
  shows "\<exists>e'. decodeDeltaOps (delta_ops d) e = Inr e' \<and> decoded d (delta_lens d) e' \<and>
    dl_ops e' = map span_op (operations d) \<and> rest_of e' = rest_of e"
  using decode_ops_tile [OF assms(1) operations_tile, of e] assms(2-)
  by (simp add: decodeDeltaOps_def un_delta_ops decoded_def)

definition groups :: "CatalogDelta \<Rightarrow> Track list \<times> TrackRef list \<times> TrackClone list \<times> (deltaOperationKind \<times> nat) list" where
  "groups d = (dl_AddTracks d, dl_RemoveTracks d, dl_CloneTracks d, dl_ops d)"

lemma delta_dec:
  "fst ` set delta_decoders = {''deltaUpdate'', ''version'', ''tracks'', ''generatedAt'', ''isComplete''}"
  "map_of delta_decoders ''deltaUpdate'' = Some decodeDeltaOps"
  "map_of delta_decoders ''generatedAt'' = Some (dec_new (un_int64 0) dl_GeneratedAt_update)"
  "map_of delta_decoders ''isComplete'' = Some (\<lambda>v d. and_then (un_bool (dl_IsComplete d) v) (\<lambda>b. Inr (d\<lparr>dl_IsComplete := b\<rparr>)))"
  by (simp_all add: delta_decoders_def)

lemma delta_enc: "fst ` set delta_encoders = {''deltaUpdate'', ''generatedAt'', ''isComplete''}"
  by (simp add: delta_encoders_def)

text \<open>What a pass over the members of an object as Marshal writes it does to a delta.\<close>

definition members_read :: "(Track list \<times> TrackRef list \<times> TrackClone list \<times> (deltaOperationKind \<times> nat) list \<Rightarrow> bool) \<Rightarrow> int64 \<Rightarrow>
    (string \<times> json) list \<Rightarrow> CatalogDelta \<Rightarrow> CatalogDelta \<Rightarrow> bool" where
  "members_read P w ms e e' \<longleftrightarrow>
     (if ''deltaUpdate'' \<in> fst ` set ms then P (groups e') else groups e' = groups e) \<and>
     dl_DefaultNamespace e' = dl_DefaultNamespace e \<and>
     dl_GeneratedAt e' = (if ''generatedAt'' \<in> fst ` set ms then Some w else dl_GeneratedAt e) \<and>
     dl_IsComplete e' = (''isComplete'' \<in> fst ` set ms \<or> dl_IsComplete e) \<and>
     (\<forall>k. fmlookup (dl_ExtraFields e') k = (if k \<in> fst ` set delta_decoders then fmlookup (dl_ExtraFields e) k
        else case map_of ms k of None \<Rightarrow> fmlookup (dl_ExtraFields e) k | Some v \<Rightarrow> Some v))"

lemma delta_members:
  assumes dec: "\<And>e. groups e = ([], [], [], []) \<Longrightarrow> \<exists>e'. decodeDeltaOps dv e = Inr e' \<and> P (groups e') \<and> rest_of e' = rest_of e"
  shows "\<lbrakk>distinct (map fst ms); \<forall>(k, v) \<in> set ms. (k = ''deltaUpdate'' \<longrightarrow> v = dv) \<and> (k = ''generatedAt'' \<longrightarrow> v = json_int64 w) \<and>
      (k = ''isComplete'' \<longrightarrow> v = JBool True) \<and> k \<noteq> ''version'' \<and> k \<noteq> ''tracks'';
      ''deltaUpdate'' \<in> fst ` set ms \<longrightarrow> groups e = ([], [], [], [])\<rbrakk> \<Longrightarrow>
    \<exists>e'. decode_members delta_decoders delta_other ms e = Inr e' \<and> members_read P w ms e e'"
proof (induction ms arbitrary: e)
  case (Cons m ms)
  obtain k v where m: "m = (k, v)" by fastforce
  have notin: "k \<notin> fst ` set ms" using Cons.prems(1) m by simp
  have none: "map_of ms k = None" using notin by (simp add: map_of_eq_None_iff)
  have ms: "distinct (map fst ms)" "\<forall>(k, v) \<in> set ms. (k = ''deltaUpdate'' \<longrightarrow> v = dv) \<and> (k = ''generatedAt'' \<longrightarrow> v = json_int64 w) \<and>
      (k = ''isComplete'' \<longrightarrow> v = JBool True) \<and> k \<noteq> ''version'' \<and> k \<noteq> ''tracks''"
    using Cons.prems(1,2) by auto
  note IH = Cons.IH [OF ms]
  have kv: "k = ''deltaUpdate'' \<longrightarrow> v = dv" "k = ''generatedAt'' \<longrightarrow> v = json_int64 w" "k = ''isComplete'' \<longrightarrow> v = JBool True"
      "k \<noteq> ''version''" "k \<noteq> ''tracks''"
    using Cons.prems(2) m by simp_all
  consider "k = ''deltaUpdate''" | "k = ''generatedAt''" | "k = ''isComplete''" | "k \<notin> fst ` set delta_decoders"
    using kv(4,5) by (auto simp: delta_dec)
  then show ?case
  proof cases
    case 1
    then obtain e1 where e1: "decodeDeltaOps dv e = Inr e1" "P (groups e1)" "rest_of e1 = rest_of e"
      using dec [of e] Cons.prems(3) m by auto
    then obtain e' where e': "decode_members delta_decoders delta_other ms e1 = Inr e'" "members_read P w ms e1 e'"
      using IH [of e1] notin 1 by blast
    have "decode_members delta_decoders delta_other (m # ms) e = Inr e'" using m 1 kv(1) e1(1) e'(1) by (simp add: delta_dec)
    moreover have "members_read P w (m # ms) e e'"
      using e'(2) e1(2,3) notin unfolding members_read_def m 1 by (simp add: rest_of_def delta_dec split: option.split)
    ultimately show ?thesis by blast
  next
    case 2
    let ?e = "e\<lparr>dl_GeneratedAt := Some w\<rparr>"
    have "groups ?e = groups e" by (simp add: groups_def)
    then obtain e' where e': "decode_members delta_decoders delta_other ms ?e = Inr e'" "members_read P w ms ?e e'"
      using IH [of ?e] Cons.prems(3) m by auto
    have "decode_members delta_decoders delta_other (m # ms) e = Inr e'"
      using m 2 kv(2) e'(1) by (simp add: delta_dec dec_new_def json_simps)
    moreover have "members_read P w (m # ms) e e'"
      using e'(2) notin \<open>groups ?e = groups e\<close> unfolding members_read_def m 2 by (simp add: delta_dec split: option.split)
    ultimately show ?thesis by blast
  next
    case 3
    let ?e = "e\<lparr>dl_IsComplete := True\<rparr>"
    have "groups ?e = groups e" by (simp add: groups_def)
    then obtain e' where e': "decode_members delta_decoders delta_other ms ?e = Inr e'" "members_read P w ms ?e e'"
      using IH [of ?e] Cons.prems(3) m by auto
    have "decode_members delta_decoders delta_other (m # ms) e = Inr e'"
      using m 3 kv(3) e'(1) by (simp add: delta_dec json_simps)
    moreover have "members_read P w (m # ms) e e'"
      using e'(2) notin \<open>groups ?e = groups e\<close> unfolding members_read_def m 3 by (simp add: delta_dec split: option.split)
    ultimately show ?thesis by blast
  next
    case 4
    let ?e = "delta_other k v e"
    have e: "groups ?e = groups e" by (simp add: groups_def delta_other_def)
    then obtain e' where e': "decode_members delta_decoders delta_other ms ?e = Inr e'" "members_read P w ms ?e e'"
      using IH [of ?e] Cons.prems(3) m by auto
    have "decode_members delta_decoders delta_other (m # ms) e = Inr e'"
      using 4 e'(1) m by (simp add: map_of_eq_None_iff [THEN iffD2])
    moreover have x: "fmlookup (dl_ExtraFields e') x = (if x \<in> fst ` set delta_decoders then fmlookup (dl_ExtraFields e) x
        else case map_of (m # ms) x of None \<Rightarrow> fmlookup (dl_ExtraFields e) x | Some v \<Rightarrow> Some v)" for x
    proof -
      have "fmlookup (dl_ExtraFields e') x = (if x \<in> fst ` set delta_decoders then fmlookup (dl_ExtraFields ?e) x
          else case map_of ms x of None \<Rightarrow> fmlookup (dl_ExtraFields ?e) x | Some v \<Rightarrow> Some v)"
        using e'(2) unfolding members_read_def by blast
      then show ?thesis using m 4 none by (cases "x = k") (simp_all add: delta_other_def split: option.split)
    qed
    moreover have "members_read P w (m # ms) e e'"
    proof -
      have k: "''deltaUpdate'' \<noteq> k" "''generatedAt'' \<noteq> k" "''isComplete'' \<noteq> k" using 4 unfolding delta_dec(1) by auto
      have r: "if ''deltaUpdate'' \<in> fst ` set ms then P (groups e') else groups e' = groups ?e"
        "dl_DefaultNamespace e' = dl_DefaultNamespace ?e"
        "dl_GeneratedAt e' = (if ''generatedAt'' \<in> fst ` set ms then Some w else dl_GeneratedAt ?e)"
        "dl_IsComplete e' = (''isComplete'' \<in> fst ` set ms \<or> dl_IsComplete ?e)"
        using e'(2) unfolding members_read_def by blast+
      have d: "dl_DefaultNamespace ?e = dl_DefaultNamespace e" "dl_GeneratedAt ?e = dl_GeneratedAt e" "dl_IsComplete ?e = dl_IsComplete e"
        by (simp_all add: delta_other_def)
      have in_ms: "x \<in> fst ` set (m # ms) \<longleftrightarrow> x \<in> fst ` set ms" if "x \<noteq> k" for x using that m by auto
      show ?thesis unfolding members_read_def in_ms [OF k(1)] in_ms [OF k(2)] in_ms [OF k(3)]
        by (intro conjI allI x) (use r in \<open>simp_all only: e d\<close>)
    qed
    ultimately show ?thesis by blast
  qed
qed (simp add: members_read_def)

definition same_delta :: "CatalogDelta \<Rightarrow> CatalogDelta \<Rightarrow> bool" where
  "same_delta d e \<longleftrightarrow>
     list_all2 same_track (dl_AddTracks d) (dl_AddTracks e) \<and> dl_RemoveTracks e = dl_RemoveTracks d \<and>
     list_all2 same_clone (dl_CloneTracks d) (dl_CloneTracks e) \<and> dl_GeneratedAt e = dl_GeneratedAt d \<and>
     dl_IsComplete e = dl_IsComplete d \<and> dl_ExtraFields e = dl_ExtraFields d"

lemma delta_keys: "distinct (map fst delta_encoders)" by (simp add: delta_encoders_def)

lemma delta_object:
  assumes "plain delta_decoders (dl_ExtraFields d)"
  shows "fmlookup (encode_members delta_encoders d (dl_ExtraFields d)) k =
    (if k = ''deltaUpdate'' then Some (delta_ops d)
     else if k = ''generatedAt'' then map_option json_int64 (dl_GeneratedAt d)
     else if k = ''isComplete'' then put_true (dl_IsComplete d) else fmlookup (dl_ExtraFields d) k)"
proof -
  have x: "k \<in> fst ` set delta_encoders \<Longrightarrow> fmlookup (dl_ExtraFields d) k = None"
    by (rule plainD [OF assms]) (simp add: delta_enc delta_dec(1); elim disjE; simp)
  have mem: "(''deltaUpdate'', \<lambda>d. Some (delta_ops d)) \<in> set delta_encoders"
    "(''generatedAt'', \<lambda>d. map_option json_int64 (dl_GeneratedAt d)) \<in> set delta_encoders"
    "(''isComplete'', \<lambda>d. put_true (dl_IsComplete d)) \<in> set delta_encoders"
    by (simp_all add: delta_encoders_def)
  note own = mem [THEN encode_own [OF delta_keys]]
  consider "k = ''deltaUpdate''" | "k = ''generatedAt''" | "k = ''isComplete''" | "k \<notin> fst ` set delta_encoders"
    by (auto simp: delta_enc)
  then show ?thesis
  proof cases
    case 2
    then show ?thesis using x by (cases "dl_GeneratedAt d") (simp_all add: own delta_enc)
  next
    case 3
    then show ?thesis using x by (cases "dl_IsComplete d") (simp_all add: own delta_enc put_true_def)
  next
    case 4
    then show ?thesis using encode_other [OF 4] by (simp add: delta_enc)
  qed (simp add: own)
qed

lemma CatalogDelta_json:
  assumes "delta_good d" "plain delta_decoders (dl_ExtraFields d)"
  shows "\<exists>e. CatalogDelta_Unmarshal (CatalogDelta_Marshal d) = Inr e \<and> same_delta d e \<and> operations e = operations d"
proof -
  let ?ms = "sorted_list_of_fmap (encode_members delta_encoders d (dl_ExtraFields d))"
  let ?P = "\<lambda>(as, rs, cs, ops). list_all2 same_track (dl_AddTracks d) as \<and> rs = dl_RemoveTracks d \<and>
    list_all2 same_clone (dl_CloneTracks d) cs \<and> ops = map span_op (operations d)"
  have dec: "\<exists>e'. decodeDeltaOps (delta_ops d) e = Inr e' \<and> ?P (groups e') \<and> rest_of e' = rest_of e"
    if "groups e = ([], [], [], [])" for e
    using decodeDeltaOps_json [OF assms(1), of e] that by (auto simp: groups_def decoded_def delta_lens_def)
  have look: "map_of ?ms k = fmlookup (encode_members delta_encoders d (dl_ExtraFields d)) k" for k by simp
  have keys: "k \<in> fst ` set ?ms \<longleftrightarrow> fmlookup (encode_members delta_encoders d (dl_ExtraFields d)) k \<noteq> None" for k
    by (metis look map_of_eq_None_iff)
  have "fmlookup (dl_ExtraFields d) ''version'' = None" "fmlookup (dl_ExtraFields d) ''tracks'' = None"
    using assms(2) by (simp_all add: plain_def delta_decoders_def)
  then have mem: "\<forall>(k, v) \<in> set ?ms. (k = ''deltaUpdate'' \<longrightarrow> v = delta_ops d) \<and>
      (k = ''generatedAt'' \<longrightarrow> v = json_int64 (the (dl_GeneratedAt d))) \<and> (k = ''isComplete'' \<longrightarrow> v = JBool True) \<and> k \<noteq> ''version'' \<and> k \<noteq> ''tracks''"
    by (auto simp: set_sorted_fmap delta_object [OF assms(2)])
  have du: "''deltaUpdate'' \<in> fst ` set ?ms" "''generatedAt'' \<in> fst ` set ?ms \<longleftrightarrow> dl_GeneratedAt d \<noteq> None"
      "''isComplete'' \<in> fst ` set ?ms \<longleftrightarrow> dl_IsComplete d"
    by (simp_all add: keys delta_object [OF assms(2)] put_true_def)
  have zero: "groups zero_delta = ([], [], [], [])" by (simp add: groups_def zero_delta_def)
  obtain e where e: "decode_members delta_decoders delta_other ?ms zero_delta = Inr e"
      "members_read ?P (the (dl_GeneratedAt d)) ?ms zero_delta e"
    using delta_members [of "delta_ops d" ?P ?ms, OF dec distinct_sorted_fmap mem, of zero_delta] zero by blast
  have r: "?P (groups e)" "dl_GeneratedAt e = dl_GeneratedAt d" "dl_IsComplete e = dl_IsComplete d"
    using e(2) du unfolding members_read_def by (auto simp: zero_delta_def)
  have x: "fmlookup (dl_ExtraFields e) k = (if k \<in> fst ` set delta_decoders then None
      else fmlookup (encode_members delta_encoders d (dl_ExtraFields d)) k)" for k
    using e(2) unfolding members_read_def look by (auto simp: zero_delta_def split: option.split)
  have "dl_ExtraFields e = dl_ExtraFields d"
  proof (rule fmap_ext)
    fix k
    show "fmlookup (dl_ExtraFields e) k = fmlookup (dl_ExtraFields d) k"
      using x [of k] plainD [OF assms(2), of k] by (auto simp: delta_object [OF assms(2)] delta_dec)
  qed
  then have same: "same_delta d e" using r by (auto simp: same_delta_def groups_def)
  then have "delta_lens e = delta_lens d"
    by (auto simp: fun_eq_iff delta_lens_def same_delta_def list_all2_lengthD split: deltaOperationKind.split)
  then have "operations e = operations d" using operations_again r(1) by (simp add: groups_def)
  moreover have "list_ex (\<lambda>(k, v). k = ''deltaUpdate'') ?ms"
    using keys [of "''deltaUpdate''"] by (force simp: list_ex_iff delta_object [OF assms(2)])
  ultimately show ?thesis using e(1) same by (simp add: CatalogDelta_Unmarshal_def CatalogDelta_Marshal_def decodeOrderedObject_def json_map_def)
qed

section \<open>Properties\<close>


text \<open>A catalog that is marshalled and read back has the same tracks, publish tracks, initialization
  data, metadata and unknown properties; only the namespace it was found in is not written.\<close>
lemma catalog_roundtrip:
  assumes "catalog_good c" "plain catalog_decoders (ct_ExtraFields c)"
  shows "\<exists>e. Catalog_Unmarshal (Catalog_Marshal c) = Inr e \<and> same_catalog c e"
  by (rule Catalog_json [OF assms])

text \<open>An example: a catalog with a labelled track, and a clone of it that clears the label.\<close>

definition labelled_track :: Track where
  "labelled_track = zero_track\<lparr>tk_Name := ''a'', tk_Packaging := ''loc'', tk_IsLive := Some True, tk_Label := ''cam''\<rparr>"

definition labelled_catalog :: Catalog where
  "labelled_catalog = zero_catalog\<lparr>ct_Version := 1, ct_Tracks := [labelled_track]\<rparr>"

definition clearing_delta :: json where
  "clearing_delta =
     JObject [(''deltaUpdate'', JArray [JObject [(''op'', JString ''clone''), (''tracks'', JArray
       [JObject [(''name'', JString ''b''), (''parentName'', JString ''a''), (''label'', JString [])]])]])]"

definition labels_after :: "CatalogDelta \<Rightarrow> catalog_error + string list" where
  "labels_after d = and_then (ApplyDelta labelled_catalog d) (\<lambda>c. Inr (map tk_Label (ct_Tracks c)))"



end
