(* ===== verification/Variables.thy ===== *)
theory Variables
  imports Deltas
begin

text \<open>
  Variables in catalogs (msf/variable.go): the names and values that are legal, the substitution of
  \<open>%name%\<close> references, the check of their syntax, and the substitution in a catalog. Against the
  code stands a grammar: a text is a list of plain characters and references.
\<close>

section \<open>Names and values\<close>

definition name_rune :: "nat \<Rightarrow> bool" where
  "name_rune r =
     (of_char CHR ''a'' \<le> r \<and> r \<le> of_char CHR ''z'' \<or> of_char CHR ''A'' \<le> r \<and> r \<le> of_char CHR ''Z'' \<or>
      of_char CHR ''0'' \<le> r \<and> r \<le> of_char CHR ''9'' \<or> r = of_char CHR ''-'' \<or> r = of_char CHR ''_'')"

definition variableNameMaxLen :: nat where "variableNameMaxLen = 1024"

definition isValidVariableName :: "string \<Rightarrow> bool" where
  "isValidVariableName s = (if s = [] \<or> length s > variableNameMaxLen then False else list_all name_rune (runes s))"

definition isValidVariableValue :: "string \<Rightarrow> bool" where
  "isValidVariableValue s = list_all (\<lambda>r. name_rune r \<or> r = of_char CHR ''@'') (runes s)"

section \<open>Substitution\<close>

text \<open>What the builder holds at the end, and ok. The variables are the map the caller parsed.\<close>

function ResolveVariables :: "(string \<Rightarrow> string option) \<Rightarrow> string \<Rightarrow> string \<times> bool" where
  "ResolveVariables vars [] = ([], True)"
| "ResolveVariables vars (c # s) =
     (if c \<noteq> CHR ''%'' then (case ResolveVariables vars s of (out, ok) \<Rightarrow> (c # out, ok))
      else (case Cut CHR ''%'' s of (name, after, found) \<Rightarrow>
        if \<not> found then ([], False)
        else if \<not> isValidVariableName name then ([], False)
        else (case vars name of
                None \<Rightarrow> ([], False)
              | Some value \<Rightarrow>
                  if \<not> isValidVariableValue value then ([], False)
                  else (case ResolveVariables vars (drop (length name + 1) s) of (out, ok) \<Rightarrow> (value @ out, ok)))))"
  by pat_completeness auto
termination by (relation "measure (\<lambda>(vars, s). length s)") auto

datatype syntax_error = Unterminated | InvalidName string

function ValidateVariableSyntax :: "string \<Rightarrow> syntax_error option" where
  "ValidateVariableSyntax [] = None"
| "ValidateVariableSyntax (c # s) =
     (if c \<noteq> CHR ''%'' then ValidateVariableSyntax s
      else (case Cut CHR ''%'' s of (name, after, found) \<Rightarrow>
        if \<not> found then Some Unterminated
        else if \<not> isValidVariableName name then Some (InvalidName name)
        else ValidateVariableSyntax (drop (length name + 1) s)))"
  by pat_completeness auto
termination by (relation "measure length") auto

text \<open>Within a catalog: six fields of every track, each written back before its error is looked at.\<close>

definition resolveStr :: "(string \<Rightarrow> string option) \<Rightarrow> string \<Rightarrow> string \<times> string option" where
  "resolveStr vars s =
     (if CHR ''%'' \<notin> set s then (s, None)
      else (case ResolveVariables vars s of (out, ok) \<Rightarrow> if \<not> ok then (s, Some s) else (out, None)))"

definition resolved_fields :: "((Track \<Rightarrow> string) \<times> ((string \<Rightarrow> string) \<Rightarrow> Track \<Rightarrow> Track)) list" where
  "resolved_fields =
     [(tk_Namespace, tk_Namespace_update), (tk_Name, tk_Name_update), (tk_ParentNamespace, tk_ParentNamespace_update),
      (tk_ConnectionURI, tk_ConnectionURI_update), (tk_Token, tk_Token_update), (tk_TrackBaseKey, tk_TrackBaseKey_update)]"

fun resolve_each :: "(string \<Rightarrow> string option) \<Rightarrow> ((Track \<Rightarrow> string) \<times> ((string \<Rightarrow> string) \<Rightarrow> Track \<Rightarrow> Track)) list \<Rightarrow>
    Track \<Rightarrow> Track \<times> string option" where
  "resolve_each vars [] t = (t, None)"
| "resolve_each vars ((sel, upd) # fs) t =
     (case resolveStr vars (sel t) of (s, err) \<Rightarrow>
        let t = upd (\<lambda>_. s) t in if err \<noteq> None then (t, err) else resolve_each vars fs t)"

definition resolveTrack :: "(string \<Rightarrow> string option) \<Rightarrow> Track \<Rightarrow> Track \<times> string option" where
  "resolveTrack vars t = resolve_each vars resolved_fields t"

text \<open>The tracks up to the first that fails, which is left as far as it got; the index with the error.\<close>

fun resolve_tracks :: "(string \<Rightarrow> string option) \<Rightarrow> nat \<Rightarrow> Track list \<Rightarrow> Track list \<times> (nat \<times> string) option" where
  "resolve_tracks vars i [] = ([], None)"
| "resolve_tracks vars i (t # ts) =
     (case resolveTrack vars t of (t, err) \<Rightarrow>
        (case err of Some e \<Rightarrow> (t # ts, Some (i, e))
         | None \<Rightarrow> (case resolve_tracks vars (Suc i) ts of (ts, err) \<Rightarrow> (t # ts, err))))"

datatype resolve_error = InTracks nat string | InPublishTracks nat string

definition Catalog_ResolveVariables :: "(string \<Rightarrow> string option) \<Rightarrow> Catalog \<Rightarrow> Catalog \<times> resolve_error option" where
  "Catalog_ResolveVariables vars c =
     (case resolve_tracks vars 0 (ct_Tracks c) of (ts, err) \<Rightarrow>
        let c = c\<lparr>ct_Tracks := ts\<rparr>
        in case err of Some (i, e) \<Rightarrow> (c, Some (InTracks i e))
           | None \<Rightarrow> (case resolve_tracks vars 0 (ct_PublishTracks c) of (ps, err) \<Rightarrow>
               let c = c\<lparr>ct_PublishTracks := ps\<rparr>
               in case err of Some (i, e) \<Rightarrow> (c, Some (InPublishTracks i e)) | None \<Rightarrow> (c, None)))"

section \<open>The grammar\<close>

datatype piece = Plain char | Ref string

fun piece_ok :: "piece \<Rightarrow> bool" where
  "piece_ok (Plain c) = (c \<noteq> CHR ''%'')"
| "piece_ok (Ref n) = isValidVariableName n"

fun render :: "piece \<Rightarrow> string" where
  "render (Plain c) = [c]"
| "render (Ref n) = CHR ''%'' # n @ [CHR ''%'']"

fun subst :: "(string \<Rightarrow> string option) \<Rightarrow> piece \<Rightarrow> string option" where
  "subst vars (Plain c) = Some [c]"
| "subst vars (Ref n) = (case vars n of None \<Rightarrow> None | Some v \<Rightarrow> if isValidVariableValue v then Some v else None)"

fun subst_all :: "(string \<Rightarrow> string option) \<Rightarrow> piece list \<Rightarrow> string option" where
  "subst_all vars [] = Some []"
| "subst_all vars (p # ps) =
     (case subst vars p of None \<Rightarrow> None
      | Some x \<Rightarrow> (case subst_all vars ps of None \<Rightarrow> None | Some xs \<Rightarrow> Some (x @ xs)))"

abbreviation "text_of ps \<equiv> concat (map render ps)"

section \<open>Lemmas\<close>

text \<open>A rune below 128 is a byte of its own.\<close>

lemma DecodeRune_ascii:
  assumes "fst (DecodeRune s) < 128"
  shows "DecodeRune s = (byte_at s 0, 1) \<and> byte_at s 0 < 128"
proof (cases "byte_at s 0 < 0x80")
  case True
  then show ?thesis by (simp add: DecodeRune_def Let_def)
next
  case False
  have "\<not> fst (DecodeRune s) < 128"
  proof (cases "rune2 s \<or> rune3 s \<or> rune4 s")
    case c: True
    have m: "b mod 64 = b - 128" if "160 \<le> b" "b \<le> 191" for b :: nat using that by (simp add: mod_if)
    have m': "b mod 64 = b - 128" if "144 \<le> b" "b \<le> 191" for b :: nat using that by (simp add: mod_if)
    have d2: "2 \<le> b mod 32" if "0xC2 \<le> b" "b \<le> 0xDF" for b :: nat using that by presburger
    have d3: "b = 0xE0 \<or> 1 \<le> b mod 16" if "0xE0 \<le> b" "b \<le> 0xEF" for b :: nat using that by presburger
    have d4: "b = 0xF0 \<or> 1 \<le> b mod 8" if "0xF0 \<le> b" "b \<le> 0xF4" for b :: nat using that by presburger
    consider "rune2 s" | "\<not> rune2 s" "rune3 s" | "\<not> rune2 s" "\<not> rune3 s" "rune4 s" using c by blast
    then show ?thesis
    proof cases
      case 1
      then show ?thesis using False d2 [of "byte_at s 0"] by (simp add: DecodeRune_def Let_def rune2_def)
    next
      case 2
      then show ?thesis using False d3 [of "byte_at s 0"] m [of "byte_at s 1"]
        by (auto simp: DecodeRune_def Let_def rune3_def cont_in_def)
    next
      case 3
      then show ?thesis using False d4 [of "byte_at s 0"] m' [of "byte_at s 1"]
        by (auto simp: DecodeRune_def Let_def rune4_def cont_in_def)
    qed
  next
    case c: False
    then show ?thesis using False by (simp add: DecodeRune_def Let_def RuneError_def)
  qed
  then show ?thesis using assms by simp
qed

lemma runes_ascii: "list_all (\<lambda>r. r < 128) (runes s) \<Longrightarrow> runes s = map of_char s"
proof (induction s rule: length_induct)
  case (1 s)
  show ?case
  proof (cases s)
    case (Cons c t)
    have "fst (DecodeRune s) < 128" using "1.prems" Cons by (subst (asm) runes.simps) simp
    then have d: "DecodeRune s = (of_char c, 1)" using DecodeRune_ascii [of s] Cons by (simp add: byte_at_def)
    then have "list_all (\<lambda>r. r < 128) (runes t)" using "1.prems" Cons by (subst (asm) runes.simps) simp
    then have "runes t = map of_char t" using "1.IH" Cons by simp
    then show ?thesis using Cons d by (subst runes.simps) simp
  qed (simp add: runes.simps)
qed

lemma valid_runes:
  assumes "list_all P (runes s)" "\<And>r. P r \<Longrightarrow> r < 128"
  shows "list_all (\<lambda>c. P (of_char c)) s"
proof -
  have "runes s = map of_char s" using runes_ascii assms by (simp add: list_all_iff)
  then show ?thesis using assms(1) by (simp add: list_all_iff)
qed

lemma name_rune_ascii: "name_rune r \<Longrightarrow> r < 128" "\<not> name_rune (of_char CHR ''%'')"
  by (auto simp: name_rune_def)

lemma name_no_percent: "isValidVariableName n \<Longrightarrow> CHR ''%'' \<notin> set n"
  using valid_runes [of name_rune n] name_rune_ascii by (auto simp: isValidVariableName_def list_all_iff split: if_splits)

lemma value_no_percent: "isValidVariableValue v \<Longrightarrow> CHR ''%'' \<notin> set v"
  using valid_runes [of "\<lambda>r. name_rune r \<or> r = of_char CHR ''@''" v] name_rune_ascii
  by (fastforce simp: isValidVariableValue_def list_all_iff)

lemma Cut_percent:
  assumes "Cut c s = (name, after, True)"
  shows "s = name @ c # after" "drop (length name + 1) s = after"
proof -
  show "s = name @ c # after" using assms by (cases rule: Cut_cases [of s c]) auto
  then show "drop (length name + 1) s = after" by simp
qed

lemma resolve_ref:
  assumes "isValidVariableName n"
  shows "ResolveVariables vars (CHR ''%'' # n @ CHR ''%'' # s) =
    (case subst vars (Ref n) of None \<Rightarrow> ([], False) | Some v \<Rightarrow> (case ResolveVariables vars s of (out, ok) \<Rightarrow> (v @ out, ok)))"
  using assms Cut_append [OF name_no_percent [OF assms], of s] by (simp split: option.split)

lemma validate_ref:
  assumes "isValidVariableName n"
  shows "ValidateVariableSyntax (CHR ''%'' # n @ CHR ''%'' # s) = ValidateVariableSyntax s"
  using assms Cut_append [OF name_no_percent [OF assms], of s] by simp

lemma resolve_text:
  "list_all piece_ok ps \<Longrightarrow> ResolveVariables vars (text_of ps) = (out, True) \<longleftrightarrow> subst_all vars ps = Some out"
proof (induction ps arbitrary: out)
  case (Cons p ps)
  obtain o1 ok1 where r: "ResolveVariables vars (text_of ps) = (o1, ok1)" by fastforce
  have IH: "ok1 \<longleftrightarrow> subst_all vars ps = Some o1" "\<And>x. subst_all vars ps = Some x \<Longrightarrow> x = o1"
    using Cons r by auto
  show ?case
  proof (cases p)
    case (Plain c)
    then show ?thesis using Cons.prems r IH by (cases "subst_all vars ps") auto
  next
    case (Ref n)
    then have n: "isValidVariableName n" using Cons.prems by simp
    have "text_of (p # ps) = CHR ''%'' # n @ CHR ''%'' # text_of ps" using Ref by simp
    then have t: "ResolveVariables vars (text_of (p # ps)) = (case subst vars p of None \<Rightarrow> ([], False) | Some v \<Rightarrow> (v @ o1, ok1))"
      using resolve_ref [OF n, of vars "text_of ps"] r Ref by (simp only: prod.case)
    show ?thesis unfolding t using IH by (cases "subst vars p"; cases "subst_all vars ps") auto
  qed
qed auto

lemma resolve_pieces: "snd (ResolveVariables vars s) \<Longrightarrow> \<exists>ps. list_all piece_ok ps \<and> s = text_of ps"
proof (induction vars s rule: ResolveVariables.induct)
  case (1 vars)
  show ?case by (rule exI [of _ "[]"]) simp
next
  case (2 vars c s)
  show ?case
  proof (cases "c = CHR ''%''")
    case False
    then have "snd (ResolveVariables vars s)" using "2.prems" by (simp split: prod.splits)
    then obtain ps where "list_all piece_ok ps" "s = text_of ps" using "2.IH"(1) False by blast
    then show ?thesis using False by (intro exI [of _ "Plain c # ps"]) simp
  next
    case True
    obtain name after found where cut: "Cut CHR ''%'' s = (name, after, found)" by (metis prod_cases3)
    have c: "found" "isValidVariableName name" using "2.prems" True cut by (simp_all split: if_splits)
    then obtain v where v: "vars name = Some v" "isValidVariableValue v" "snd (ResolveVariables vars (drop (length name + 1) s))"
      using "2.prems" True cut by (auto split: option.splits if_splits prod.splits)
    obtain ps where ps: "list_all piece_ok ps" "drop (length name + 1) s = text_of ps"
      using "2.IH"(2) True cut c v by fastforce
    have "s = name @ CHR ''%'' # text_of ps" using Cut_percent [of _ s name after] cut c(1) ps(2) by simp
    then show ?thesis using True ps(1) c(2) by (intro exI [of _ "Ref name # ps"]) simp
  qed
qed

lemma validate_text: "list_all piece_ok ps \<Longrightarrow> ValidateVariableSyntax (text_of ps) = None"
proof (induction ps)
  case (Cons p ps)
  then show ?case using validate_ref by (cases p) simp_all
qed simp

lemma validate_pieces: "ValidateVariableSyntax s = None \<Longrightarrow> \<exists>ps. list_all piece_ok ps \<and> s = text_of ps"
proof (induction s rule: ValidateVariableSyntax.induct)
  case 1
  show ?case by (rule exI [of _ "[]"]) simp
next
  case (2 c s)
  show ?case
  proof (cases "c = CHR ''%''")
    case False
    then obtain ps where "list_all piece_ok ps" "s = text_of ps" using "2.IH"(1) "2.prems" by auto
    then show ?thesis using False by (intro exI [of _ "Plain c # ps"]) simp
  next
    case True
    obtain name after found where cut: "Cut CHR ''%'' s = (name, after, found)" by (metis prod_cases3)
    have c: "found" "isValidVariableName name" "ValidateVariableSyntax (drop (length name + 1) s) = None"
      using "2.prems" True cut by (simp_all split: if_splits)
    then obtain ps where ps: "list_all piece_ok ps" "drop (length name + 1) s = text_of ps"
      using "2.IH"(2) True cut by fastforce
    have "s = name @ CHR ''%'' # text_of ps" using Cut_percent [of _ s name after] cut c(1) ps(2) by simp
    then show ?thesis using True ps(1) c(2) by (intro exI [of _ "Ref name # ps"]) simp
  qed
qed

lemma subst_no_percent: "\<lbrakk>piece_ok p; subst vars p = Some x\<rbrakk> \<Longrightarrow> CHR ''%'' \<notin> set x"
  using value_no_percent by (cases p) (auto split: option.splits if_splits)

lemma subst_all_no_percent: "\<lbrakk>list_all piece_ok ps; subst_all vars ps = Some x\<rbrakk> \<Longrightarrow> CHR ''%'' \<notin> set x"
  using subst_no_percent by (induction ps arbitrary: x) (auto split: option.splits)

lemma resolved_no_percent: "ResolveVariables vars s = (out, True) \<Longrightarrow> CHR ''%'' \<notin> set out"
  using resolve_pieces [of vars s] resolve_text subst_all_no_percent by force

lemma resolveStr_done: "resolveStr vars s = (x, None) \<Longrightarrow> CHR ''%'' \<notin> set x"
  by (auto simp: resolveStr_def dest: resolved_no_percent split: if_splits prod.splits)

section \<open>Catalogs\<close>

definition resolved :: "Track \<Rightarrow> bool" where
  "resolved t \<longleftrightarrow> list_all (\<lambda>(sel, upd). CHR ''%'' \<notin> set (sel t)) resolved_fields"

lemma resolveTrack_fields:
  assumes "resolveTrack vars t = (u, None)"
  shows "resolved u"
    "\<And>sel upd. (sel, upd) \<in> set resolved_fields \<Longrightarrow> resolveStr vars (sel t) = (sel u, None)"
    "fold (\<lambda>(sel, upd) t. upd (\<lambda>_. []) t) resolved_fields u = fold (\<lambda>(sel, upd) t. upd (\<lambda>_. []) t) resolved_fields t"
  using assms
  by (auto simp: resolveTrack_def resolved_def resolved_fields_def Let_def dest: resolveStr_done split: prod.splits if_splits)

text \<open>One track resolved into another: the six fields are, everything else is as it was.\<close>

definition erased :: "Track \<Rightarrow> Track" where
  "erased t = fold (\<lambda>(sel, upd) t. upd (\<lambda>_. []) t) resolved_fields t"

definition resolves :: "(string \<Rightarrow> string option) \<Rightarrow> Track \<Rightarrow> Track \<Rightarrow> bool" where
  "resolves vars t u \<longleftrightarrow> list_all (\<lambda>(sel, upd). resolveStr vars (sel t) = (sel u, None)) resolved_fields \<and> erased u = erased t"

lemma resolve_tracks_done:
  "resolve_tracks vars i ts = (us, None) \<Longrightarrow> list_all2 (resolves vars) ts us \<and> list_all resolved us"
proof (induction ts arbitrary: i us)
  case (Cons t ts)
  obtain u err where u: "resolveTrack vars t = (u, err)" by fastforce
  have n: "err = None" using Cons.prems u by (cases err) simp_all
  obtain vs err' where vs: "resolve_tracks vars (Suc i) ts = (vs, err')" by fastforce
  have us: "us = u # vs" "err' = None" using Cons.prems u n vs by simp_all
  have "resolves vars t u" using resolveTrack_fields(2,3) [OF u [unfolded n]] by (auto simp: resolves_def erased_def list_all_iff)
  then show ?case using Cons.IH [OF vs [unfolded us(2)]] resolveTrack_fields(1) [OF u [unfolded n]] us(1) by simp
qed simp

lemma resolve_each_again:
  "list_all (\<lambda>(sel, upd). CHR ''%'' \<notin> set (sel t) \<and> upd (\<lambda>_. sel t) t = t) fs \<Longrightarrow> resolve_each vars fs t = (t, None)"
  by (induction fs) (auto simp: resolveStr_def)

lemma resolve_tracks_again: "list_all resolved ts \<Longrightarrow> resolve_tracks vars i ts = (ts, None)"
proof (induction ts arbitrary: i)
  case (Cons t ts)
  have "list_all (\<lambda>(sel, upd). CHR ''%'' \<notin> set (sel t) \<and> upd (\<lambda>_. sel t) t = t) resolved_fields"
    using Cons.prems by (simp add: resolved_def resolved_fields_def)
  then show ?case using Cons resolve_each_again [of t resolved_fields vars] by (simp add: resolveTrack_def)
qed simp

section \<open>Properties\<close>

text \<open>C17 Substitution succeeds exactly on the texts of the grammar whose references are all defined with
  legal values, and gives the text with each reference replaced: no percent sign is left, none of a
  value is taken for another reference.\<close>
theorem resolve_iff:
  "ResolveVariables vars s = (out, True) \<longleftrightarrow>
   (\<exists>ps. list_all piece_ok ps \<and> s = concat (map render ps) \<and> subst_all vars ps = Some out)"
  using resolve_pieces [of vars s] resolve_text [of _ vars out] by (metis snd_conv)

text \<open>The check of the syntax accepts exactly the texts of the grammar, whatever the variables are.\<close>
lemma syntax_check_exact:
  "ValidateVariableSyntax s = None \<longleftrightarrow> (\<exists>ps. list_all piece_ok ps \<and> s = concat (map render ps))"
proof
  assume "ValidateVariableSyntax s = None"
  then show "\<exists>ps. list_all piece_ok ps \<and> s = concat (map render ps)" by (rule validate_pieces)
next
  assume "\<exists>ps. list_all piece_ok ps \<and> s = concat (map render ps)"
  then obtain ps where "list_all piece_ok ps" "s = concat (map render ps)" by (elim exE conjE)
  then show "ValidateVariableSyntax s = None" using validate_text [of ps] by (simp only:)
qed



end
