(* ===== verification/Broadcasts.thy ===== *)
theory Broadcasts
  imports Mux
begin

text \<open>
  The track names of one broadcast: moqt.Broadcast and its handler entries (moqt/broadcast.go).
  The entries are a store, named by numbers in the order of their allocation, because a call that
  looked an entry up keeps it after the table has let go of it. Every critical section is one step,
  and what a call does after it unlocks is a step of its own, so all interleavings of registering,
  removing, closing and serving are runs of the relation below.
\<close>

section \<open>State\<close>

record PublishInfo =
  pi_Priority :: byte
  pi_Ordered :: bool
  pi_MaxLatency :: uint64
  pi_Timescale :: uint64

record trackHandlerEntry =
  th_handler :: track_handler
  th_info :: PublishInfo
  th_active :: "nat list" \<comment> \<open>TrackWriters, by number\<close>
  th_stopped :: bool

record Broadcast =
  bc_trackHandlers :: "(string \<times> nat) list"
  bc_entries :: "nat \<Rightarrow> trackHandlerEntry"
  bc_free :: nat

datatype broadcast_error = NameMissing | HandlerNil | HandlerFuncNil

definition validateTrackHandler :: "track_handler \<Rightarrow> broadcast_error option" where
  "validateTrackHandler h = (case h of NilHandler \<Rightarrow> Some HandlerNil | NilHandlerFunc \<Rightarrow> Some HandlerFuncNil | Handler _ \<Rightarrow> None)"

definition newTrackHandlerEntry :: "track_handler \<Rightarrow> PublishInfo \<Rightarrow> trackHandlerEntry" where
  "newTrackHandlerEntry h info = \<lparr>th_handler = h, th_info = info, th_active = [], th_stopped = False\<rparr>"

definition NewBroadcast :: Broadcast where
  "NewBroadcast = \<lparr>bc_trackHandlers = [], bc_entries = (\<lambda>_. newTrackHandlerEntry NilHandler (PublishInfo.make 0 False 0 0)), bc_free = 0\<rparr>"

section \<open>Operations\<close>

text \<open>The critical section of RegisterWithInfo: the previous entry of the name is left to close.\<close>

definition RegisterWithInfo :: "string \<Rightarrow> PublishInfo \<Rightarrow> track_handler \<Rightarrow> Broadcast \<Rightarrow> broadcast_error + nat option \<times> Broadcast" where
  "RegisterWithInfo name info h b =
     (if name = [] then Inl NameMissing
      else (case validateTrackHandler h of Some e \<Rightarrow> Inl e
        | None \<Rightarrow> Inr (map_of (bc_trackHandlers b) name,
            b\<lparr>bc_trackHandlers := AList.update name (bc_free b) (bc_trackHandlers b),
              bc_entries := (bc_entries b)(bc_free b := newTrackHandlerEntry h info), bc_free := Suc (bc_free b)\<rparr>)))"

definition Remove :: "string \<Rightarrow> Broadcast \<Rightarrow> nat option \<times> Broadcast" where
  "Remove name b =
     (if name = [] then (None, b)
      else (map_of (bc_trackHandlers b) name, b\<lparr>bc_trackHandlers := AList.delete name (bc_trackHandlers b)\<rparr>))"

definition Broadcast_Close :: "Broadcast \<Rightarrow> nat list \<times> Broadcast" where
  "Broadcast_Close b = (map snd (bc_trackHandlers b), b\<lparr>bc_trackHandlers := []\<rparr>)"

text \<open>None is NotFoundTrackHandler.\<close>

definition Broadcast_Handler :: "string \<Rightarrow> Broadcast \<Rightarrow> nat option" where
  "Broadcast_Handler name b = (if name = [] then None else map_of (bc_trackHandlers b) name)"

definition TrackInfo :: "string \<Rightarrow> Broadcast \<Rightarrow> PublishInfo option" where
  "TrackInfo name b =
     (if name = [] then None else map_option (\<lambda>e. th_info (bc_entries b e)) (map_of (bc_trackHandlers b) name))"

definition set_entry :: "nat \<Rightarrow> trackHandlerEntry \<Rightarrow> Broadcast \<Rightarrow> Broadcast" where
  "set_entry e h b = b\<lparr>bc_entries := (bc_entries b)(e := h)\<rparr>"

text \<open>\<open>close\<close> of an entry: the writers to close after it.\<close>

definition entry_close :: "nat \<Rightarrow> Broadcast \<Rightarrow> nat list \<times> Broadcast" where
  "entry_close e b =
     (let h = bc_entries b e
      in if th_stopped h then ([], b) else (th_active h, set_entry e (h\<lparr>th_stopped := True, th_active := []\<rparr>) b))"

definition trackStarted :: "nat \<Rightarrow> nat \<Rightarrow> Broadcast \<Rightarrow> bool \<times> Broadcast" where
  "trackStarted e tw b =
     (let h = bc_entries b e
      in if th_stopped h then (False, b) else (True, set_entry e (h\<lparr>th_active := List.insert tw (th_active h)\<rparr>) b))"

definition trackEnded :: "nat \<Rightarrow> nat \<Rightarrow> Broadcast \<Rightarrow> Broadcast" where
  "trackEnded e tw b = (let h = bc_entries b e in set_entry e (h\<lparr>th_active := removeAll tw (th_active h)\<rparr>) b)"

section \<open>Runs\<close>

text \<open>
  The calls in progress: entries left to close, writers left to close, writers whose entry was
  looked up, and writers being served. Every subscription has a writer of its own, with the name it
  asks for.
\<close>

record calls =
  cl_bc :: Broadcast
  cl_entries :: "nat list"
  cl_writers :: "nat list"
  cl_found :: "(nat \<times> nat) list"
  cl_serving :: "(nat \<times> nat) list"
  cl_closed :: "nat list"
  cl_refused :: "nat list"
  cl_seen :: "nat list"
  cl_name :: "nat \<Rightarrow> string"

definition no_calls :: "(nat \<Rightarrow> string) \<Rightarrow> calls" where
  "no_calls names =
     \<lparr>cl_bc = NewBroadcast, cl_entries = [], cl_writers = [], cl_found = [], cl_serving = [], cl_closed = [],
      cl_refused = [], cl_seen = [], cl_name = names\<rparr>"

inductive call_step :: "calls \<Rightarrow> calls \<Rightarrow> bool" where
  register: "RegisterWithInfo name info h (cl_bc s) = Inr (prev, b) \<Longrightarrow>
    call_step s (s\<lparr>cl_bc := b, cl_entries := cl_entries s @ (case prev of None \<Rightarrow> [] | Some e \<Rightarrow> [e])\<rparr>)"
| remove: "Remove name (cl_bc s) = (prev, b) \<Longrightarrow>
    call_step s (s\<lparr>cl_bc := b, cl_entries := cl_entries s @ (case prev of None \<Rightarrow> [] | Some e \<Rightarrow> [e])\<rparr>)"
| close_all: "Broadcast_Close (cl_bc s) = (es, b) \<Longrightarrow> call_step s (s\<lparr>cl_bc := b, cl_entries := cl_entries s @ es\<rparr>)"
| close_entry: "\<lbrakk>e \<in> set (cl_entries s); entry_close e (cl_bc s) = (tws, b)\<rbrakk> \<Longrightarrow>
    call_step s (s\<lparr>cl_bc := b, cl_entries := remove1 e (cl_entries s), cl_writers := cl_writers s @ tws\<rparr>)"
| close_writer: "tw \<in> set (cl_writers s) \<Longrightarrow>
    call_step s (s\<lparr>cl_writers := remove1 tw (cl_writers s), cl_closed := cl_closed s @ [tw]\<rparr>)"
| lookup: "\<lbrakk>tw \<notin> set (cl_seen s); Broadcast_Handler (cl_name s tw) (cl_bc s) = Some e\<rbrakk> \<Longrightarrow>
    call_step s (s\<lparr>cl_found := cl_found s @ [(tw, e)], cl_seen := cl_seen s @ [tw]\<rparr>)"
| start: "\<lbrakk>(tw, e) \<in> set (cl_found s); trackStarted e tw (cl_bc s) = (True, b)\<rbrakk> \<Longrightarrow>
    call_step s (s\<lparr>cl_bc := b, cl_found := remove1 (tw, e) (cl_found s), cl_serving := cl_serving s @ [(tw, e)]\<rparr>)"
| refuse: "\<lbrakk>(tw, e) \<in> set (cl_found s); trackStarted e tw (cl_bc s) = (False, b)\<rbrakk> \<Longrightarrow>
    call_step s (s\<lparr>cl_bc := b, cl_found := remove1 (tw, e) (cl_found s), cl_refused := cl_refused s @ [tw]\<rparr>)"
| finish: "(tw, e) \<in> set (cl_serving s) \<Longrightarrow>
    call_step s (s\<lparr>cl_bc := trackEnded e tw (cl_bc s), cl_serving := remove1 (tw, e) (cl_serving s)\<rparr>)"

inductive call_reach :: "(nat \<Rightarrow> string) \<Rightarrow> calls \<Rightarrow> bool" for names where
  call_init: "call_reach names (no_calls names)"
| call_next: "\<lbrakk>call_reach names s; call_step s s'\<rbrakk> \<Longrightarrow> call_reach names s'"

section \<open>The invariant\<close>

text \<open>Of the table as a set, the entries allocated, which are stopped, and those left to close.\<close>

definition entries_ok :: "(string \<times> nat) set \<Rightarrow> nat \<Rightarrow> (nat \<Rightarrow> bool) \<Rightarrow> nat set \<Rightarrow> bool" where
  "entries_ok T n st E \<longleftrightarrow>
     (\<forall>k e. (k, e) \<in> T \<longrightarrow> e < n \<and> \<not> st e \<and> e \<notin> E) \<and> (\<forall>e \<in> E. e < n) \<and>
     (\<forall>e < n. st e \<or> e \<in> E \<or> (\<exists>k. (k, e) \<in> T)) \<and>
     (\<forall>k k' e e'. (k, e) \<in> T \<longrightarrow> (k', e') \<in> T \<longrightarrow> (k = k' \<longleftrightarrow> e = e'))"

abbreviation "stopped b e \<equiv> th_stopped (bc_entries b e)"

definition table_inv :: "calls \<Rightarrow> bool" where
  "table_inv s \<longleftrightarrow>
     distinct (map fst (bc_trackHandlers (cl_bc s))) \<and>
     entries_ok (set (bc_trackHandlers (cl_bc s))) (bc_free (cl_bc s)) (stopped (cl_bc s)) (set (cl_entries s))"

lemma entries_okD:
  assumes "entries_ok T n st E"
  shows "\<And>k e. (k, e) \<in> T \<Longrightarrow> e < n" "\<And>k e. (k, e) \<in> T \<Longrightarrow> \<not> st e" "\<And>k e. (k, e) \<in> T \<Longrightarrow> e \<notin> E"
    "\<And>e. e \<in> E \<Longrightarrow> e < n" "\<And>e. e < n \<Longrightarrow> st e \<or> e \<in> E \<or> (\<exists>k. (k, e) \<in> T)"
    "\<And>k k' e e'. \<lbrakk>(k, e) \<in> T; (k', e') \<in> T\<rbrakk> \<Longrightarrow> k = k' \<longleftrightarrow> e = e'"
  using assms unfolding entries_ok_def by blast+

lemma entries_okI:
  assumes "\<And>k e. (k, e) \<in> T \<Longrightarrow> e < n \<and> \<not> st e \<and> e \<notin> E" "\<And>e. e \<in> E \<Longrightarrow> e < n"
    "\<And>e. e < n \<Longrightarrow> st e \<or> e \<in> E \<or> (\<exists>k. (k, e) \<in> T)"
    "\<And>k k' e e'. \<lbrakk>(k, e) \<in> T; (k', e') \<in> T\<rbrakk> \<Longrightarrow> k = k' \<longleftrightarrow> e = e'"
  shows "entries_ok T n st E"
  using assms unfolding entries_ok_def by blast

lemma entries_register:
  assumes "entries_ok T n st E"
  shows "entries_ok (insert (k, n) {p \<in> T. fst p \<noteq> k}) (Suc n) (st(n := False)) (E \<union> {e. (k, e) \<in> T})"
proof (rule entries_okI)
  note d = entries_okD [OF assms]
  show "e < Suc n \<and> \<not> (st(n := False)) e \<and> e \<notin> E \<union> {e. (k, e) \<in> T}" if "(x, e) \<in> insert (k, n) {p \<in> T. fst p \<noteq> k}" for x e
    using that d(1-4) d(4) [of n] d(1) [of k n] d(6) [of x e k e] by (cases "e = n") (auto simp: less_Suc_eq)
  show "e < Suc n" if "e \<in> E \<union> {e. (k, e) \<in> T}" for e
    using that d(1) [of k e] d(4) [of e] by auto
  show "(st(n := False)) e \<or> e \<in> E \<union> {e. (k, e) \<in> T} \<or> (\<exists>x. (x, e) \<in> insert (k, n) {p \<in> T. fst p \<noteq> k})" if "e < Suc n" for e
    using that d(5) [of e] by (cases "e = n") auto
  show "x = y \<longleftrightarrow> e = f" if "(x, e) \<in> insert (k, n) {p \<in> T. fst p \<noteq> k}" "(y, f) \<in> insert (k, n) {p \<in> T. fst p \<noteq> k}" for x y e f
    using that d(6) [of x e y f] d(1) [of x e] d(1) [of y f] by auto
qed

lemma entries_remove:
  assumes "entries_ok T n st E"
  shows "entries_ok {p \<in> T. fst p \<noteq> k} n st (E \<union> {e. (k, e) \<in> T})"
proof (rule entries_okI)
  note d = entries_okD [OF assms]
  show "e < n \<and> \<not> st e \<and> e \<notin> E \<union> {e. (k, e) \<in> T}" if "(x, e) \<in> {p \<in> T. fst p \<noteq> k}" for x e
    using that d(1-3) [of x e] d(6) [of x e k e] by auto
  show "e < n" if "e \<in> E \<union> {e. (k, e) \<in> T}" for e using that d(1) [of k e] d(4) [of e] by auto
  show "st e \<or> e \<in> E \<union> {e. (k, e) \<in> T} \<or> (\<exists>x. (x, e) \<in> {p \<in> T. fst p \<noteq> k})" if "e < n" for e using d(5) [OF that] by auto
  show "x = y \<longleftrightarrow> e = f" if "(x, e) \<in> {p \<in> T. fst p \<noteq> k}" "(y, f) \<in> {p \<in> T. fst p \<noteq> k}" for x y e f
    using that d(6) [of x e y f] by simp
qed

lemma entries_clear:
  assumes "entries_ok T n st E"
  shows "entries_ok {} n st (E \<union> snd ` T)"
proof (rule entries_okI)
  note d = entries_okD [OF assms]
  show "e < n" if "e \<in> E \<union> snd ` T" for e using that d(1) d(4) [of e] by auto
  show "st e \<or> e \<in> E \<union> snd ` T \<or> (\<exists>x. (x, e) \<in> {})" if "e < n" for e using d(5) [OF that] by force
qed simp_all

lemma entries_stop:
  assumes "entries_ok T n st E" "e \<in> E" "E' \<subseteq> E" "E - {e} \<subseteq> E'"
  shows "entries_ok T n (st(e := True)) E'"
proof (rule entries_okI)
  note d = entries_okD [OF assms(1)]
  show "f < n \<and> \<not> (st(e := True)) f \<and> f \<notin> E'" if "(k, f) \<in> T" for k f using d(1-3) [OF that] assms(2,3) by auto
  show "f < n" if "f \<in> E'" for f using that assms(3) d(4) by blast
  show "(st(e := True)) f \<or> f \<in> E' \<or> (\<exists>x. (x, f) \<in> T)" if "f < n" for f using d(5) [OF that] assms(4) by (cases "f = e") auto
  show "x = y \<longleftrightarrow> f = g" if "(x, f) \<in> T" "(y, g) \<in> T" for x y f g using d(6) [OF that] .
qed

text \<open>Of the calls that hold an entry: they keep the name they asked for, and a writer being served is
  known to its entry, or was handed over for closing when the entry stopped.\<close>

definition holders_ok :: "calls \<Rightarrow> bool" where
  "holders_ok s \<longleftrightarrow>
     (\<forall>tw e. (tw, e) \<in> set (cl_found s) \<union> set (cl_serving s) \<longrightarrow> e < bc_free (cl_bc s) \<and> tw \<in> set (cl_seen s) \<and>
        (\<forall>name. (name, e) \<in> set (bc_trackHandlers (cl_bc s)) \<longrightarrow> cl_name s tw = name)) \<and>
     distinct (map fst (cl_found s @ cl_serving s))"

definition served_ok :: "calls \<Rightarrow> bool" where
  "served_ok s \<longleftrightarrow>
     (\<forall>tw e. (tw, e) \<in> set (cl_serving s) \<longrightarrow>
        (stopped (cl_bc s) e \<longrightarrow> tw \<in> set (cl_writers s) \<union> set (cl_closed s)) \<and>
        (\<not> stopped (cl_bc s) e \<longrightarrow> tw \<in> set (th_active (bc_entries (cl_bc s) e))))"

lemma set_update:
  "distinct (map fst xs) \<Longrightarrow> set (AList.update k v xs) = insert (k, v) {p \<in> set xs. fst p \<noteq> k}"
proof (induction xs)
  case (Cons x xs)
  then show ?case by (cases x; cases "fst x = k") force+
qed simp

lemma set_delete: "set (AList.delete k xs) = {p \<in> set xs. fst p \<noteq> k}"
  by (auto simp: AList.delete_eq)

lemma looked_up:
  "distinct (map fst xs) \<Longrightarrow> set (case map_of xs k of None \<Rightarrow> [] | Some e \<Rightarrow> [e]) = {e. (k, e) \<in> set xs}"
  by (cases "map_of xs k") (auto simp: map_of_eq_None_iff rev_image_eqI dest: map_of_SomeD)

lemma table_inv_step: "\<lbrakk>call_step s s'; table_inv s\<rbrakk> \<Longrightarrow> table_inv s'"
proof (induction rule: call_step.induct)
  case (register name info h s prev b)
  have b: "prev = map_of (bc_trackHandlers (cl_bc s)) name" "bc_free b = Suc (bc_free (cl_bc s))"
    "bc_trackHandlers b = AList.update name (bc_free (cl_bc s)) (bc_trackHandlers (cl_bc s))"
    "stopped b = (stopped (cl_bc s))(bc_free (cl_bc s) := False)"
    using register(1) by (auto simp: RegisterWithInfo_def newTrackHandlerEntry_def fun_eq_iff split: if_splits option.splits)
  show ?case
    using register(2) entries_register [of "set (bc_trackHandlers (cl_bc s))" _ _ "set (cl_entries s)" name]
    by (simp add: table_inv_def b set_update looked_up distinct_update)
next
  case (remove name s prev b)
  have b: "prev = (if name = [] then None else map_of (bc_trackHandlers (cl_bc s)) name)" "bc_free b = bc_free (cl_bc s)"
    "bc_trackHandlers b = (if name = [] then bc_trackHandlers (cl_bc s) else AList.delete name (bc_trackHandlers (cl_bc s)))"
    "stopped b = stopped (cl_bc s)"
    using remove(1) by (auto simp: Remove_def split: if_splits)
  show ?case
    using remove(2) entries_remove [of "set (bc_trackHandlers (cl_bc s))" _ _ "set (cl_entries s)" name]
    by (cases "name = []") (simp_all add: table_inv_def b set_delete looked_up distinct_delete)
next
  case (close_all s es b)
  then show ?case using entries_clear by (auto simp: table_inv_def Broadcast_Close_def)
next
  case (close_entry e s tws b)
  have b: "bc_free b = bc_free (cl_bc s)" "bc_trackHandlers b = bc_trackHandlers (cl_bc s)"
    "stopped b = (stopped (cl_bc s))(e := True)"
    using close_entry(2) by (auto simp: entry_close_def set_entry_def Let_def fun_eq_iff split: if_splits)
  have "set (remove1 e (cl_entries s)) \<subseteq> set (cl_entries s)" "set (cl_entries s) - {e} \<subseteq> set (remove1 e (cl_entries s))"
    by (rule set_remove1_subset) (auto intro: in_set_remove1 [THEN iffD2])
  then show ?case using close_entry(1,3) entries_stop by (auto simp: table_inv_def b)
next
  case (start tw e s b)
  have b: "bc_free b = bc_free (cl_bc s)" "bc_trackHandlers b = bc_trackHandlers (cl_bc s)" "stopped b = stopped (cl_bc s)"
    using start(2) by (auto simp: trackStarted_def set_entry_def Let_def fun_eq_iff split: if_splits)
  show ?case using start(3) by (simp add: table_inv_def b)
next
  case (refuse tw e s b)
  then show ?case by (auto simp: table_inv_def trackStarted_def Let_def split: if_splits)
next
  case (finish tw e s)
  have b: "bc_free (trackEnded e tw (cl_bc s)) = bc_free (cl_bc s)" "stopped (trackEnded e tw (cl_bc s)) = stopped (cl_bc s)"
    "bc_trackHandlers (trackEnded e tw (cl_bc s)) = bc_trackHandlers (cl_bc s)"
    by (auto simp: trackEnded_def set_entry_def Let_def fun_eq_iff)
  show ?case using finish(2) by (simp add: table_inv_def b)
qed (simp_all add: table_inv_def)

lemma distinct_fst_remove1: "distinct (map fst xs) \<Longrightarrow> distinct (map fst (remove1 x xs))"
proof (induction xs)
  case (Cons y xs)
  then show ?case using set_remove1_subset [of x xs] by auto
qed simp

lemma fst_remove1:
  assumes "distinct (map fst xs)" "(k, v) \<in> set xs"
  shows "fst ` set (remove1 (k, v) xs) = fst ` set xs - {k}"
proof -
  have s: "set (remove1 (k, v) xs) = set xs - {(k, v)}" using assms(1) by (simp add: set_remove1_eq distinct_map)
  have v: "w = v" if "(k, w) \<in> set xs" for w by (rule eq_key_imp_eq_value [OF assms(1) that assms(2)])
  show ?thesis unfolding s
  proof (intro set_eqI iffI)
    fix x assume "x \<in> fst ` (set xs - {(k, v)})"
    then obtain p where "x = fst p" "p \<in> set xs - {(k, v)}" by (rule imageE)
    then have w: "(x, snd p) \<in> set xs" "(x, snd p) \<noteq> (k, v)" by simp_all
    have "x \<noteq> k" using w v by blast
    then show "x \<in> fst ` set xs - {k}" using w(1) by force
  next
    fix x assume "x \<in> fst ` set xs - {k}"
    then obtain w where "(x, w) \<in> set xs" "x \<noteq> k" by force
    then have "(x, w) \<in> set xs - {(k, v)}" by simp
    then show "x \<in> fst ` (set xs - {(k, v)})" by force
  qed
qed

lemma fst_remove1_subset: "fst ` set (remove1 x xs) \<subseteq> fst ` set xs"
  by (intro image_mono set_remove1_subset)

lemma same_pair: "\<lbrakk>distinct (map fst xs); (k, v) \<in> set xs; (k, w) \<in> set xs\<rbrakk> \<Longrightarrow> v = w"
  by (rule eq_key_imp_eq_value)

lemma holders_step: "\<lbrakk>call_step s s'; table_inv s; holders_ok s\<rbrakk> \<Longrightarrow> holders_ok s'"
proof (induction rule: call_step.induct)
  case (register name info h s prev b)
  have "bc_free b = Suc (bc_free (cl_bc s))"
    "set (bc_trackHandlers b) = insert (name, bc_free (cl_bc s)) {p \<in> set (bc_trackHandlers (cl_bc s)). fst p \<noteq> name}"
    using register(1,2) by (auto simp: RegisterWithInfo_def table_inv_def set_update split: if_splits option.splits)
  then show ?case using register(3) unfolding holders_ok_def by fastforce
next
  case (remove name s prev b)
  have "bc_free b = bc_free (cl_bc s)" "set (bc_trackHandlers b) \<subseteq> set (bc_trackHandlers (cl_bc s))"
    using remove(1) by (auto simp: Remove_def set_delete split: if_splits)
  then show ?case using remove(3) unfolding holders_ok_def by (simp add: subset_iff)
next
  case (close_all s es b)
  then show ?case by (auto simp: holders_ok_def Broadcast_Close_def)
next
  case (close_entry e s tws b)
  have "bc_free b = bc_free (cl_bc s)" "bc_trackHandlers b = bc_trackHandlers (cl_bc s)"
    using close_entry(2) by (auto simp: entry_close_def set_entry_def Let_def split: if_splits)
  then show ?case using close_entry(4) by (simp add: holders_ok_def)
next
  case (lookup tw s e)
  have in_table: "(cl_name s tw, e) \<in> set (bc_trackHandlers (cl_bc s))"
    using lookup(2) by (auto simp: Broadcast_Handler_def dest: map_of_SomeD split: if_splits)
  note ok = entries_okD [OF conjunct2 [OF lookup(3) [unfolded table_inv_def]]]
  have "tw \<notin> fst ` set (cl_found s @ cl_serving s)" using lookup(1,4) by (auto simp: holders_ok_def)
  then show ?case using lookup(4) ok(1) [OF in_table] ok(6) [OF in_table] by (auto simp: holders_ok_def)
next
  case (start tw e s b)
  have b: "bc_free b = bc_free (cl_bc s)" "bc_trackHandlers b = bc_trackHandlers (cl_bc s)"
    using start(2) by (auto simp: trackStarted_def set_entry_def Let_def split: if_splits)
  have d: "distinct (map fst (cl_found s @ cl_serving s))" using start(4) by (simp add: holders_ok_def)
  then have "fst ` set (remove1 (tw, e) (cl_found s)) = fst ` set (cl_found s) - {tw}" using fst_remove1 [OF _ start(1)] by simp
  moreover have "tw \<in> fst ` set (cl_found s)" using start(1) by force
  ultimately have "distinct (map fst (remove1 (tw, e) (cl_found s) @ cl_serving s @ [(tw, e)]))"
    using d distinct_fst_remove1 [of "cl_found s" "(tw, e)"] by auto
  then show ?case using start(1,4) set_remove1_subset [of "(tw, e)" "cl_found s"] unfolding holders_ok_def by (auto simp: b)
next
  case (refuse tw e s b)
  have b: "b = cl_bc s" using refuse(2) by (auto simp: trackStarted_def Let_def split: if_splits)
  have "distinct (map fst (remove1 (tw, e) (cl_found s) @ cl_serving s))"
    using refuse(4) fst_remove1_subset [of "(tw, e)" "cl_found s"] distinct_fst_remove1 [of "cl_found s" "(tw, e)"]
    unfolding holders_ok_def by (simp only: map_append distinct_append set_map) blast
  then show ?case using refuse(4) set_remove1_subset [of "(tw, e)" "cl_found s"] unfolding holders_ok_def by (simp add: b subset_iff) blast
next
  case (finish tw e s)
  have b: "bc_free (trackEnded e tw (cl_bc s)) = bc_free (cl_bc s)"
    "bc_trackHandlers (trackEnded e tw (cl_bc s)) = bc_trackHandlers (cl_bc s)"
    by (simp_all add: trackEnded_def set_entry_def Let_def)
  have "distinct (map fst (cl_found s @ remove1 (tw, e) (cl_serving s)))"
    using finish(3) fst_remove1_subset [of "(tw, e)" "cl_serving s"] distinct_fst_remove1 [of "cl_serving s" "(tw, e)"]
    unfolding holders_ok_def by (simp only: map_append distinct_append set_map) blast
  then show ?case using finish(3) set_remove1_subset [of "(tw, e)" "cl_serving s"] unfolding holders_ok_def by (simp add: b subset_iff) blast
qed (auto simp: holders_ok_def)

lemma served_step: "\<lbrakk>call_step s s'; holders_ok s; served_ok s\<rbrakk> \<Longrightarrow> served_ok s'"
proof (induction rule: call_step.induct)
  case (register name info h s prev b)
  have "bc_entries b = (bc_entries (cl_bc s))(bc_free (cl_bc s) := newTrackHandlerEntry h info)"
    using register(1) by (auto simp: RegisterWithInfo_def split: if_splits option.splits)
  moreover have "e \<noteq> bc_free (cl_bc s)" if "(tw, e) \<in> set (cl_serving s)" for tw e
    using register(2) that by (auto simp: holders_ok_def)
  ultimately show ?case using register(3) by (auto simp: served_ok_def)
next
  case (remove name s prev b)
  then have "bc_entries b = bc_entries (cl_bc s)" by (auto simp: Remove_def split: if_splits)
  then show ?case using remove(3) by (simp add: served_ok_def)
next
  case (close_all s es b)
  then have "bc_entries b = bc_entries (cl_bc s)" by (auto simp: Broadcast_Close_def)
  then show ?case using close_all(3) by (simp add: served_ok_def)
next
  case (close_entry e s tws b)
  show ?case
  proof (cases "stopped (cl_bc s) e")
    case True
    then show ?thesis using close_entry(2,4) by (auto simp: entry_close_def Let_def served_ok_def)
  next
    case False
    then have b: "tws = th_active (bc_entries (cl_bc s) e)" "bc_entries b = (bc_entries (cl_bc s))
        (e := (bc_entries (cl_bc s) e)\<lparr>th_stopped := True, th_active := []\<rparr>)"
      using close_entry(2) by (auto simp: entry_close_def set_entry_def Let_def)
    show ?thesis using close_entry(4) False unfolding served_ok_def by (auto simp: b)
  qed
next
  case (close_writer tw s)
  have "x \<in> set (cl_writers s) \<Longrightarrow> x = tw \<or> x \<in> set (remove1 tw (cl_writers s))" for x by (cases "x = tw") simp_all
  then show ?case using close_writer(3) unfolding served_ok_def by (simp split: if_splits) blast
next
  case (start tw e s b)
  have b: "\<not> stopped (cl_bc s) e" "bc_entries b = (bc_entries (cl_bc s))(e := (bc_entries (cl_bc s) e)
      \<lparr>th_active := List.insert tw (th_active (bc_entries (cl_bc s) e))\<rparr>)"
    using start(2) by (auto simp: trackStarted_def set_entry_def Let_def split: if_splits)
  show ?case using start(4) b(1) unfolding served_ok_def by (auto simp: b(2))
next
  case (refuse tw e s b)
  then show ?case by (auto simp: served_ok_def trackStarted_def Let_def split: if_splits)
next
  case (finish tw e s)
  have d: "distinct (map fst (cl_serving s))" using finish(2) by (simp add: holders_ok_def)
  have b: "bc_entries (trackEnded e tw (cl_bc s)) = (bc_entries (cl_bc s))
      (e := (bc_entries (cl_bc s) e)\<lparr>th_active := removeAll tw (th_active (bc_entries (cl_bc s) e))\<rparr>)"
    by (simp add: trackEnded_def set_entry_def Let_def)
  have others: "x \<noteq> tw \<and> (x, f) \<in> set (cl_serving s)" if "(x, f) \<in> set (remove1 (tw, e) (cl_serving s))" for x f
  proof
    show "(x, f) \<in> set (cl_serving s)" using that set_remove1_subset by fast
    have "x \<in> fst ` set (remove1 (tw, e) (cl_serving s))" using that by force
    then show "x \<noteq> tw" using fst_remove1 [OF d finish(1)] by simp
  qed
  let ?s = "s\<lparr>cl_bc := trackEnded e tw (cl_bc s), cl_serving := remove1 (tw, e) (cl_serving s)\<rparr>"
  have serving: "cl_serving ?s = remove1 (tw, e) (cl_serving s)" by simp
  show ?case unfolding served_ok_def
  proof (intro allI impI)
    fix x f assume "(x, f) \<in> set (cl_serving ?s)"
    then have "(x, f) \<in> set (remove1 (tw, e) (cl_serving s))" unfolding serving .
    from others [OF this] have x: "x \<noteq> tw" "(x, f) \<in> set (cl_serving s)" by blast+
    then show "(stopped (cl_bc ?s) f \<longrightarrow> x \<in> set (cl_writers ?s) \<union> set (cl_closed ?s)) \<and>
        (\<not> stopped (cl_bc ?s) f \<longrightarrow> x \<in> set (th_active (bc_entries (cl_bc ?s) f)))"
      using finish(3) [unfolded served_ok_def, rule_format, OF x(2)] by (cases "f = e") (simp_all add: b)
  qed
qed (auto simp: served_ok_def)

lemma call_inv:
  "call_reach names s \<Longrightarrow> table_inv s \<and> holders_ok s \<and> served_ok s \<and> cl_name s = names"
proof (induction rule: call_reach.induct)
  case call_init
  show ?case
    by (simp add: table_inv_def entries_ok_def holders_ok_def served_ok_def no_calls_def NewBroadcast_def)
next
  case (call_next s s')
  have "cl_name s' = cl_name s" using call_next.hyps(2) by cases simp_all
  then show ?case using call_next table_inv_step holders_step served_step by blast
qed

text \<open>A subscription that looks its handler up and starts only after that handler was replaced or removed
  and closed is refused with not found, and never starts.\<close>
lemma late_track_refused:
  assumes "call_reach names s" "(tw, e) \<in> set (cl_found s)" "cl_entries s = []"
    "map_of (bc_trackHandlers (cl_bc s)) (names tw) \<noteq> Some e"
  shows "trackStarted e tw (cl_bc s) = (False, cl_bc s)"
proof -
  have t: "table_inv s" "holders_ok s" "cl_name s = names" using call_inv [OF assms(1)] by simp_all
  have e: "e < bc_free (cl_bc s)" using t(2) assms(2) by (auto simp: holders_ok_def)
  have "\<not> (\<exists>name. (name, e) \<in> set (bc_trackHandlers (cl_bc s)))"
  proof
    assume "\<exists>name. (name, e) \<in> set (bc_trackHandlers (cl_bc s))"
    then obtain name where name: "(name, e) \<in> set (bc_trackHandlers (cl_bc s))" ..
    then have "names tw = name" using t(2,3) assms(2) by (auto simp: holders_ok_def)
    then show False using assms(4) name t(1) by (simp add: table_inv_def)
  qed
  then have "stopped (cl_bc s) e"
    using entries_okD(5) [OF conjunct2 [OF t(1) [unfolded table_inv_def]] e] assms(3) by simp
  then show ?thesis by (simp add: trackStarted_def)
qed

section \<open>Properties\<close>

text \<open>C9 However registering, replacing, removing, closing and serving interleave: once the calls that
  took an entry out of the table have finished closing it, a subscription that is still being served is
  served by the entry its name has in the table now, or its writer has been closed. No subscription is
  left with a handler that was replaced or removed.\<close>
theorem no_orphaned_track:
  assumes "call_reach names s" "cl_entries s = []" "cl_writers s = []" "(tw, e) \<in> set (cl_serving s)"
  shows "map_of (bc_trackHandlers (cl_bc s)) (names tw) = Some e \<or> tw \<in> set (cl_closed s)"
proof (cases "stopped (cl_bc s) e")
  case True
  then show ?thesis using call_inv [OF assms(1)] assms(3,4) by (auto simp: served_ok_def)
next
  case False
  have t: "table_inv s" "holders_ok s" "cl_name s = names" using call_inv [OF assms(1)] by simp_all
  have "e < bc_free (cl_bc s)" using t(2) assms(4) by (auto simp: holders_ok_def)
  then obtain name where name: "(name, e) \<in> set (bc_trackHandlers (cl_bc s))"
    using entries_okD(5) [OF conjunct2 [OF t(1) [unfolded table_inv_def]]] False assms(2) by auto
  then have "names tw = name" using t(2,3) assms(4) by (auto simp: holders_ok_def)
  then show ?thesis using name t(1) by (simp add: table_inv_def)
qed

text \<open>A run: register a handler, then look it up for writer 0.\<close>

definition sample_names :: "nat \<Rightarrow> string" where "sample_names tw = ''v''"

definition sample_entry :: trackHandlerEntry where
  "sample_entry = newTrackHandlerEntry (Handler 7) (PublishInfo.make 0 False 0 0)"

definition sample_calls :: "nat list \<Rightarrow> bool \<Rightarrow> nat list \<Rightarrow> (nat \<times> nat) list \<Rightarrow> (nat \<times> nat) list \<Rightarrow> nat list \<Rightarrow> nat list \<Rightarrow> nat list \<Rightarrow> bool \<Rightarrow> calls" where
  "sample_calls active st es found serving ws closed seen there =
     \<lparr>cl_bc = \<lparr>bc_trackHandlers = (if there then [(''v'', 0)] else []),
        bc_entries = (bc_entries NewBroadcast)(0 := sample_entry\<lparr>th_active := active, th_stopped := st\<rparr>), bc_free = 1\<rparr>,
      cl_entries = es, cl_writers = ws, cl_found = found, cl_serving = serving, cl_closed = closed, cl_refused = [],
      cl_seen = seen, cl_name = sample_names\<rparr>"

lemma sample_found: "call_reach sample_names (sample_calls [] False [] [(0, 0)] [] [] [] [0] True)"
proof -
  have "call_step (no_calls sample_names) (sample_calls [] False [] [] [] [] [] [] True)"
    using register [of "''v''" "PublishInfo.make 0 False 0 0" "Handler 7" "no_calls sample_names"]
    by (simp add: RegisterWithInfo_def validateTrackHandler_def no_calls_def NewBroadcast_def sample_calls_def
        sample_entry_def newTrackHandlerEntry_def)
  moreover have "call_step (sample_calls [] False [] [] [] [] [] [] True) (sample_calls [] False [] [(0, 0)] [] [] [] [0] True)"
    using lookup [of 0 "sample_calls [] False [] [] [] [] [] [] True" 0]
    by (simp add: sample_calls_def Broadcast_Handler_def sample_names_def)
  ultimately show ?thesis by (meson call_init call_next)
qed

lemma sample_closed: "call_reach sample_names (sample_calls [] True [] [] [(0, 0)] [] [0] [0] False)"
proof -
  have "call_step (sample_calls [] False [] [(0, 0)] [] [] [] [0] True) (sample_calls [0] False [] [] [(0, 0)] [] [] [0] True)"
    using start [of 0 0 "sample_calls [] False [] [(0, 0)] [] [] [] [0] True"]
    by (simp add: sample_calls_def trackStarted_def set_entry_def sample_entry_def newTrackHandlerEntry_def Let_def)
  moreover have "call_step (sample_calls [0] False [] [] [(0, 0)] [] [] [0] True) (sample_calls [0] False [0] [] [(0, 0)] [] [] [0] False)"
    using remove [of "''v''" "sample_calls [0] False [] [] [(0, 0)] [] [] [0] True"] by (simp add: sample_calls_def Remove_def)
  moreover have "call_step (sample_calls [0] False [0] [] [(0, 0)] [] [] [0] False) (sample_calls [] True [] [] [(0, 0)] [0] [] [0] False)"
    using close_entry [of 0 "sample_calls [0] False [0] [] [(0, 0)] [] [] [0] False"]
    by (simp add: sample_calls_def entry_close_def set_entry_def sample_entry_def newTrackHandlerEntry_def Let_def)
  moreover have "call_step (sample_calls [] True [] [] [(0, 0)] [0] [] [0] False) (sample_calls [] True [] [] [(0, 0)] [] [0] [0] False)"
    using close_writer [of 0 "sample_calls [] True [] [] [(0, 0)] [0] [] [0] False"] by (simp add: sample_calls_def)
  ultimately show ?thesis using sample_found by (meson call_next)
qed

lemma no_orphaned_track_witness:
  "map_of (bc_trackHandlers (cl_bc (sample_calls [] True [] [] [(0, 0)] [] [0] [0] False))) (sample_names 0) = Some 0 \<or>
   0 \<in> set (cl_closed (sample_calls [] True [] [] [(0, 0)] [] [0] [0] False))"
  by (rule no_orphaned_track [OF sample_closed]) (simp_all add: sample_calls_def)

end
