(* ===== verification/Spec2Isabelle.thy ===== *)
theory Spec2Isabelle
  imports Prelude Wire Codec Messages Frames GoStrings Paths Sequences Codes Authorization Streams Redirects Publisher Subscriber Announcements Announcing Mux Json Timeline Tracks Catalog Deltas Variables Broadcasts
begin

text \<open>
  A verification library for gomoqt, an implementation in Go of Media over QUIC in its lite form:
  publishers announce broadcasts, subscribers subscribe to tracks of them, a track is a sequence of
  groups, a group a sequence of frames, and every group travels on a stream of its own. On top of
  the transport the package msf describes the tracks of a broadcast by catalogs.

  \<^bold>\<open>The parts of the program and the theories.\<close>

  \<^item> The wire (src/moqt/internal/message): \<open>Wire\<close> has varints, strings, arrays, message bodies and
    zigzag; \<open>Codec\<close> the shape all messages share, as the locale \<open>control_message\<close>; \<open>Messages\<close> the 19
    messages, each with its record, Len, Encode and Decode and an interpretation of that locale.
  \<^item> Frames and groups (src/moqt/frame.go, group_writer.go, group_reader.go): \<open>Frames\<close>.
  \<^item> Names (src/moqt/broadcast_path.go, path_pattern.go): \<open>GoStrings\<close> has what the code uses of
    Go's strings and utf8 packages, \<open>Paths\<close> paths, patterns and their matching.
  \<^item> Sequences (group_sequence.go, track_priority.go, settledGroups of track_reader.go):
    \<open>Sequences\<close>, with the locale \<open>settled_set\<close> for what a track reader relies on.
  \<^item> Error codes (errors.go): \<open>Codes\<close>.
  \<^item> Authorization (auth.go): \<open>Authorization\<close> has grants, the AuthWriter with its expiry, the scope
    a session has from its grants, the presenter's side, and the runs of all of them.
  \<^item> Publishing (receive_subscribe_stream.go, track_writer.go): \<open>Streams\<close> has streams and the
    parameter that stands for the transport, \<open>Publisher\<close> the answers and the TrackWriter, with the
    locale \<open>group_end\<close> for the two ways to end a group.
  \<^item> Subscribing (send_subscribe_stream.go, track_reader.go, redirect.go): \<open>Redirects\<close> and \<open>Subscriber\<close>.
  \<^item> Announcing (announcement.go, announcement_writer.go, announcement_reader.go): \<open>Announcements\<close> has
    the operations, \<open>Announcing\<close> their interleavings and the agreement of the two ends.
  \<^item> Routing (mux.go, broadcast.go): \<open>Mux\<close> has the tree of announcements and the index of handlers,
    \<open>Broadcasts\<close> the handlers of the tracks of one broadcast.
  \<^item> Catalogs (src/msf): \<open>Json\<close> has what is used of Go's encoding/json and the locale \<open>json_record\<close>
    for an object read and written by key; \<open>Timeline\<close>, \<open>Tracks\<close>, \<open>Catalog\<close>, \<open>Deltas\<close> and \<open>Variables\<close>
    follow timeline.go, catalog.go, catalog_delta.go and variable.go.

  \<open>Prelude\<close> holds the types of bytes, the collections of rewrite rules and generic lemmas.

  \<^bold>\<open>How they interact.\<close> A message of \<open>Messages\<close> is written on a stream of \<open>Streams\<close> by the writers and
  read back by the readers: \<open>Publisher\<close> writes what \<open>Subscriber\<close> reads, and the writer of \<open>Announcements\<close>
  what its reader reads; the two agreement theorems put the ends together. The scope of
  \<open>Authorization\<close> decides with the patterns of \<open>Paths\<close> what a session may publish, subscribe and list.
  \<open>Mux\<close> uses the announcements of \<open>Announcements\<close>, whose callbacks take handlers out of its index.

  \<^bold>\<open>What the lemmas show.\<close> Wire, messages, frames, catalogs and deltas: what is written is read back
  (with the exceptions the code has), and truncated input is an error of the right kind with bounded
  memory. Paths: the parser accepts the documented patterns, matching is by segments, a pattern never
  leaves its root. Authorization: every decision lies beneath the root of a grant in force, a grant
  that ended stays ended. Publisher and subscriber: no group after the end, the subscriber learns
  start, end and drops, io.EOF comes exactly when every group is accounted for. Announcements: every
  callback runs once, the peer sees what is active. Mux: routes lead to active announcements,
  snapshots are complete, and all loops end. Broadcasts: no track is left with a handler that was
  replaced. Catalogs: applying a delta is the composition of its operations on a map from identities
  to tracks; variables follow a grammar. The theorems of kind error show behaviours that differ from
  what the code or its documents mean: they are listed with the findings.

  \<^bold>\<open>Conventions.\<close> A struct is a record, a machine integer a word of its width, a Go string a list of
  bytes as characters. A panic is None, an error a value. Pointers whose identity matters (groups,
  announcements, nodes of the tree, handler entries) are numbers into a store, in the order of their
  allocation; other pointers are options. Maps are association lists where the code asks for their
  length or ranges over them, functions or finite maps elsewhere. Times and counters of objects are
  natural numbers. Clone copies what pointers reach, so on values it is the identity.

  \<^bold>\<open>What is outside the repository\<close> is a parameter: the transport is a function that says how a write
  or a context answers, given the log of the calls so far, and may answer differently at every call;
  \<open>stream_contract\<close> states what its documentation promises. unicode.IsLetter and unicode.IsDigit, the
  redirect callback of the application, handlers of tracks and the clock are parameters as well. JSON
  is modelled on values, with the members of an object in the order of the text, not on the text;
  strings in it are those a JSON text can hold.

  \<^bold>\<open>Concurrency.\<close> What the code does while it holds a lock is one step; what it does before and after
  are other steps, and the inductive relations (\<open>auth_step\<close>, \<open>pub_step\<close>, \<open>ann_step\<close>, \<open>call_step\<close> and
  their reachability) allow any order of them. The calls of a TrackMux are taken as single steps. A
  call that blocks is modelled by its turns, each of which either returns or leaves it waiting.

  \<^bold>\<open>Bounds and fuel.\<close> The recursions are over lists or have a measure, and the following of redirects
  ends by its budget. Only \<open>readReplies\<close> of \<open>Authorization\<close> takes fuel: the length of the stream it
  reads is enough, as every reply takes at least a byte. The climb of removeAnnouncement through the
  parents, which nothing in the code bounds, and what calls it are partial functions on options; that
  they return in every run is a theorem of \<open>Mux\<close>. Messages are bounded as in the code (64 KiB strings,
  62-bit varints).

  \<^bold>\<open>Not modelled.\<close> Sessions beyond what the theories above use of session.go (accepting and dispatching
  streams, probes, teardown), servers, dialers and the set of connections, the adapters over quic-go,
  webtransport-go and WebSocket, fetch and context helpers: I/O, goroutines and timers around the
  parts above. msf/broadcast.go, which joins catalogs and a table of handlers. Logging, texts of
  errors, String functions other than those of codes, deadlines. The programs under src/cmd, the
  examples, the build tasks, and the TypeScript client, which is another implementation.
\<close>

end
